(* ===== verification/Md_Prelude.thy ===== *)
theory Md_Prelude
  imports Main "HOL-Library.Word" "HOL-Library.Signed_Division" "HOL-Library.Multiset"
begin

text \<open>
  Shared vocabulary of the development: the machine integers of the C++ sources, truncating
  division, best-first ladders of price levels as sorted association lists, and the generic
  lemmas on lists and maps that the component theories use.

  Integers. \<^verbatim>\<open>std::int64_t\<close> and \<^verbatim>\<open>__int128\<close> values are HOL integers. Where an
  unguarded C++ operation can leave its type, the two's complement wrap-around is written out
  with \<open>wrap64\<close> and \<open>wrap128\<close>, so every theorem about such an operation has to say why
  the value fits. Unsigned 64-bit counters are values of type \<open>64 word\<close>.
\<close>

section \<open>Collections of simplification rules\<close>

named_theorems int_range \<open>ranges of the machine integer types\<close>
named_theorems ladder \<open>best-first ladders\<close>

section \<open>Machine integers\<close>

type_synonym i64 = int
type_synonym Wide = int
type_synonym u64 = "64 word"

definition INT64_MAX :: i64 where
  "INT64_MAX = 9223372036854775807"

definition INT64_MIN :: i64 where
  "INT64_MIN = - 9223372036854775808"

definition in_i64 :: "int \<Rightarrow> bool" where
  "in_i64 x \<longleftrightarrow> INT64_MIN \<le> x \<and> x \<le> INT64_MAX"

definition in_i128 :: "int \<Rightarrow> bool" where
  "in_i128 x \<longleftrightarrow> - (2 ^ 127) \<le> x \<and> x < 2 ^ 127"

definition wrap64 :: "int \<Rightarrow> i64" where
  "wrap64 x = (x + 9223372036854775808) mod 18446744073709551616 - 9223372036854775808"

definition wrap128 :: "int \<Rightarrow> Wide" where
  "wrap128 x = (x + 2 ^ 127) mod 2 ^ 128 - 2 ^ 127"

lemmas i64_bounds [int_range] = INT64_MAX_def INT64_MIN_def in_i64_def

lemma wrap64_id [simp]: "in_i64 x \<Longrightarrow> wrap64 x = x"
  by (simp add: wrap64_def i64_bounds)

lemma wrap64_in [simp]: "in_i64 (wrap64 x)"
proof -
  have "0 \<le> (x + 9223372036854775808) mod 18446744073709551616"
    and "(x + 9223372036854775808) mod 18446744073709551616 < 18446744073709551616"
    by simp_all
  then show ?thesis
    unfolding wrap64_def i64_bounds by linarith
qed

lemma wrap64_idem [simp]: "wrap64 (wrap64 x) = wrap64 x"
  by simp

lemma wrap64_add_left: "wrap64 (wrap64 x + y) = wrap64 (x + y)"
  by (simp add: wrap64_def mod_simps ac_simps)

lemma wrap128_id [simp]: "in_i128 x \<Longrightarrow> wrap128 x = x"
  by (simp add: wrap128_def in_i128_def)

lemma wrap64_sint: "wrap64 x = sint (word_of_int x :: 64 word)"
  by (simp add: wrap64_def signed_of_int signed_take_bit_eq_take_bit_shift take_bit_eq_mod)

lemma in_i64_0 [simp]: "in_i64 0"
  by (simp add: i64_bounds)

lemma in_i64_between: "0 \<le> x \<Longrightarrow> x \<le> y \<Longrightarrow> in_i64 y \<Longrightarrow> in_i64 x"
  by (simp add: i64_bounds)

section \<open>Truncating division\<close>

lemma le_div_iff_mult_le: "0 < b \<Longrightarrow> i \<le> a div b \<longleftrightarrow> i * b \<le> (a :: int)"
proof
  assume "0 < b" "i \<le> a div b"
  then have "i * b \<le> (a div b) * b" by simp
  also have "\<dots> \<le> a" using \<open>0 < b\<close> by (simp add: minus_mod_eq_div_mult [symmetric])
  finally show "i * b \<le> a" .
next
  assume "0 < b" "i * b \<le> a"
  then have "(i * b) div b \<le> a div b" by (intro zdiv_mono1) simp_all
  with \<open>0 < b\<close> show "i \<le> a div b" by simp
qed

text \<open>C++ integer division truncates towards zero: \<open>sdiv\<close> of the library.\<close>

lemma sdiv_nonneg [simp]: "0 \<le> a \<Longrightarrow> 0 \<le> b \<Longrightarrow> (a :: int) sdiv b = a div b"
  by (cases "a = 0"; cases "b = 0") (simp_all add: signed_divide_int_def)

lemma sdiv_minus_left: "(- a :: int) sdiv b = - (a sdiv b)"
  by (simp add: signed_divide_int_def)

lemma abs_sdiv_le: "\<bar>(a :: int) sdiv b\<bar> \<le> \<bar>a\<bar>"
proof (cases "b = 0")
  case False
  then have "\<bar>a\<bar> div \<bar>b\<bar> \<le> \<bar>a\<bar>"
    using zdiv_mono2 [of "\<bar>a\<bar>" 1 "\<bar>b\<bar>"] by simp
  then show ?thesis
    by (auto simp: signed_divide_int_def abs_mult sgn_if pos_imp_zdiv_nonneg_iff)
qed (simp add: signed_divide_int_def)

section \<open>Sorted lists\<close>

lemma sorted_wrt_dropWhile: "sorted_wrt R xs \<Longrightarrow> sorted_wrt R (dropWhile P xs)"
  by (induction xs) auto

lemma sorted_map_dropWhile: "sorted (map g (x # xs)) \<Longrightarrow> sorted (map g (dropWhile P xs))"
  by (simp add: sorted_map sorted_wrt_dropWhile)

lemma last_takeWhile_in: "last (x # takeWhile P xs) \<in> set (x # xs)"
  by (induction xs arbitrary: x) auto

section \<open>Best-first ladders\<close>

text \<open>
  A ladder is an association list whose keys are strictly ordered by \<open>before\<close>, the order
  \<^emph>\<open>closer to the touch\<close>. A side's two directions are the two interpretations of this locale.
\<close>

locale best_first_order =
  fixes before :: "'k \<Rightarrow> 'k \<Rightarrow> bool"
  assumes before_irrefl: "\<not> before a a"
    and before_trans: "before a b \<Longrightarrow> before b c \<Longrightarrow> before a c"
    and before_total: "a \<noteq> b \<Longrightarrow> before a b \<or> before b a"
begin

lemma before_asym: "before a b \<Longrightarrow> \<not> before b a"
  using before_irrefl before_trans by blast

lemma before_neq: "before a b \<Longrightarrow> a \<noteq> b"
  using before_irrefl by blast

lemma head_before: "sorted_wrt before (k # ks) \<Longrightarrow> before j k \<Longrightarrow> j \<notin> set (k # ks)"
  using before_irrefl before_trans by (auto dest: before_asym)

lemma ladder_distinct: "sorted_wrt before ks \<Longrightarrow> distinct ks"
  by (induction ks) (auto simp: before_irrefl)

lemma lookup_before_head:
  "sorted_wrt before (k # map fst xs) \<Longrightarrow> before j k \<Longrightarrow> map_of xs j = None"
  using head_before [of k "map fst xs" j] by (simp add: map_of_eq_None_iff)

lemma lookup_head_tail: "sorted_wrt before (k # map fst xs) \<Longrightarrow> map_of xs k = None"
  using before_irrefl by (auto simp: map_of_eq_None_iff)

text \<open>A ladder is determined by the map it represents.\<close>

lemma ladder_unique:
  assumes "sorted_wrt before (map fst xs)" "sorted_wrt before (map fst ys)" "map_of xs = map_of ys"
  shows "xs = ys"
  using assms
proof (induction xs arbitrary: ys)
  case Nil
  then show ?case by (cases ys) (auto simp: fun_eq_iff split: if_splits)
next
  case (Cons x xs)
  obtain k v where x: "x = (k, v)" by fastforce
  have "map_of ys k = Some v" using Cons.prems(3) x by (metis map_of_Cons_code(2))
  then obtain j w ys' where ys: "ys = (j, w) # ys'" by (cases ys) auto
  have eq: "map_of ((k, v) # xs) i = map_of ((j, w) # ys') i" for i
    using Cons.prems(3) x ys by metis
  have "k = j"
  proof (rule ccontr)
    assume "k \<noteq> j"
    moreover have "map_of ((k, v) # xs) j = Some w" using eq [of j] by simp
    ultimately show False
      using before_total [of k j] Cons.prems(1,2) x ys \<open>map_of ys k = Some v\<close>
        lookup_before_head [of j ys' k] lookup_before_head [of k xs j] by auto
  qed
  moreover have "map_of xs = map_of ys'"
  proof
    fix i
    have "map_of xs k = None" "map_of ys' k = None"
      using Cons.prems(1,2) x ys \<open>k = j\<close> lookup_head_tail by auto
    with eq [of i] \<open>k = j\<close> show "map_of xs i = map_of ys' i" by (cases "i = k") auto
  qed
  moreover have "v = w" using \<open>map_of ys k = Some v\<close> ys \<open>k = j\<close> by simp
  ultimately show ?case using Cons x ys by simp
qed

end

end
