(* ===== verification/Fixed.thy ===== *)
theory Fixed
  imports Md_Prelude
begin

text \<open>
  Fixed-point arithmetic (\<^verbatim>\<open>src/core/fixed.h\<close>, \<^verbatim>\<open>src/core/fixed.cc\<close>): decimal
  strings scaled by \<open>10 ^ 8\<close> into 64-bit integers, their rendering, and the products and
  quotients of scaled values that go through 128-bit intermediates. The release build is
  modelled: the assertion of \<open>NarrowSaturating\<close> is compiled out and the value saturates.
\<close>

unbundle bit_operations_syntax

section \<open>Scale and types\<close>

type_synonym Px = i64
type_synonym Qty = i64
type_synonym Notional = i64

definition kScale :: i64 where
  "kScale = 100000000"

definition kScaleDigits :: nat where
  "kScaleDigits = 8"

definition kMaxIntegerPart :: i64 where
  "kMaxIntegerPart = INT64_MAX sdiv kScale"

definition kBpsScale :: Wide where
  "kBpsScale = 10000 * kScale"

lemma kScale_pos [simp]: "0 < kScale" "kScale \<noteq> 0" "0 \<le> kScale"
  by (simp_all add: kScale_def)

lemma kBpsScale_eq: "kBpsScale = 1000000000000"
  by (simp add: kBpsScale_def kScale_def)

lemma kMaxIntegerPart_eq: "kMaxIntegerPart = 92233720368"
  by (simp add: kMaxIntegerPart_def INT64_MAX_def kScale_def)

section \<open>Arithmetic on scaled values\<close>

definition NarrowSaturating :: "Wide \<Rightarrow> i64" where
  "NarrowSaturating v =
     (if v > INT64_MAX then INT64_MAX
      else if v < INT64_MIN then INT64_MIN
      else v)"

definition NotionalWide :: "Px \<Rightarrow> Qty \<Rightarrow> Wide" where
  "NotionalWide px qty = (px * qty) sdiv kScale"

definition NotionalE8 :: "Px \<Rightarrow> Qty \<Rightarrow> Notional" where
  "NotionalE8 px qty = NarrowSaturating (NotionalWide px qty)"

definition QtyForNotional :: "Wide \<Rightarrow> Px \<Rightarrow> Qty" where
  "QtyForNotional notional_e8 px =
     (if px \<le> 0 \<or> notional_e8 \<le> 0 then 0
      else NarrowSaturating (wrap128 (notional_e8 * kScale) sdiv px))"

definition Vwap :: "Wide \<Rightarrow> Wide \<Rightarrow> Px" where
  "Vwap notional_e8 qty_e8 =
     (if qty_e8 \<le> 0 then 0
      else NarrowSaturating (wrap128 (notional_e8 * kScale) sdiv qty_e8))"

definition BpsE8 :: "i64 \<Rightarrow> Px \<Rightarrow> i64" where
  "BpsE8 delta reference =
     (if reference \<le> 0 then 0
      else NarrowSaturating ((delta * 10000 * kScale) sdiv reference))"

definition OffsetByBpsOutward :: "Px \<Rightarrow> i64 \<Rightarrow> bool \<Rightarrow> Px" where
  "OffsetByBpsOutward reference offset_bps_e8 downward =
     (if reference \<le> 0 \<or> offset_bps_e8 \<le> 0 then reference
      else let numerator = reference * offset_bps_e8;
               delta = (numerator + kBpsScale - 1) sdiv kBpsScale
           in NarrowSaturating (if downward then reference - delta else reference + delta))"

section \<open>Parsing decimal strings\<close>

text \<open>
  \<open>ParseFixed\<close> reads the text with one index that only moves forward; the model carries the
  unread suffix instead of the index. \<open>None\<close> is the result \<^verbatim>\<open>false\<close>, which leaves the
  output parameter untouched.
\<close>

definition is_digit :: "char \<Rightarrow> bool" where
  "is_digit c \<longleftrightarrow> 48 \<le> (of_char c :: nat) \<and> (of_char c :: nat) \<le> 57"

definition digit_val :: "char \<Rightarrow> int" where
  "digit_val c = of_char c - 48"

fun parse_integer_part :: "string \<Rightarrow> i64 \<Rightarrow> bool \<Rightarrow> (string \<times> i64 \<times> bool) option" where
  "parse_integer_part [] integer_part saw_digit = Some ([], integer_part, saw_digit)"
| "parse_integer_part (c # cs) integer_part saw_digit =
     (if \<not> is_digit c then Some (c # cs, integer_part, saw_digit)
      else if integer_part > kMaxIntegerPart sdiv 10 then None
      else let integer_part' = integer_part * 10 + digit_val c
           in if integer_part' > kMaxIntegerPart then None
              else parse_integer_part cs integer_part' True)"

fun parse_fraction :: "string \<Rightarrow> i64 \<Rightarrow> nat \<Rightarrow> bool \<Rightarrow> string \<times> i64 \<times> nat \<times> bool" where
  "parse_fraction [] fraction digits saw_digit = ([], fraction, digits, saw_digit)"
| "parse_fraction (c # cs) fraction digits saw_digit =
     (if \<not> is_digit c then (c # cs, fraction, digits, saw_digit)
      else if digits < kScaleDigits
           then parse_fraction cs (fraction * 10 + digit_val c) (Suc digits) True
           else parse_fraction cs fraction digits True)"

function pad_fraction :: "i64 \<Rightarrow> nat \<Rightarrow> i64" where
  "pad_fraction fraction digits =
     (if digits < kScaleDigits then pad_fraction (fraction * 10) (Suc digits) else fraction)"
  by pat_completeness auto
termination
  by (relation "measure (\<lambda>(_, digits). kScaleDigits - digits)") auto

declare pad_fraction.simps [simp del]

definition ParseFixed :: "string \<Rightarrow> i64 option" where
  "ParseFixed s =
     (if s = [] then None
      else let signed = (hd s = CHR ''+'' \<or> hd s = CHR ''-'');
               negative = (hd s = CHR ''-'');
               s1 = (if signed then tl s else s)
           in case parse_integer_part s1 0 False of
                None \<Rightarrow> None
              | Some (s2, integer_part, saw_digit) \<Rightarrow>
                  (let (s3, fraction, digits, saw_digit') =
                         (if s2 \<noteq> [] \<and> hd s2 = CHR ''.''
                          then parse_fraction (tl s2) 0 0 saw_digit
                          else (s2, 0, 0, saw_digit))
                   in if s3 \<noteq> [] \<or> \<not> saw_digit' then None
                      else let fraction' = pad_fraction fraction digits
                           in if integer_part > (INT64_MAX - fraction') sdiv kScale then None
                              else let value = integer_part * kScale + fraction'
                                   in Some (if negative then - value else value)))"

section \<open>Rendering\<close>

text \<open>\<^verbatim>\<open>std::to_string\<close> of an unsigned value.\<close>

definition digit_char :: "int \<Rightarrow> char" where
  "digit_char n = char_of (48 + n)"

function to_string :: "int \<Rightarrow> string" where
  "to_string n =
     (if n < 10 then [digit_char n] else to_string (n div 10) @ [digit_char (n mod 10)])"
  by pat_completeness auto
termination
  by (relation "measure nat") auto

declare to_string.simps [simp del]

text \<open>
  The loop that fills \<^verbatim>\<open>frac_digits\<close> from the last place backwards: after \<open>k\<close> rounds
  the \<open>k\<close> low decimal digits stand in front of what was already written.
\<close>

fun frac_loop :: "nat \<Rightarrow> int \<Rightarrow> string \<Rightarrow> string" where
  "frac_loop 0 fraction acc = acc"
| "frac_loop (Suc k) fraction acc =
     frac_loop k (fraction div 10) (digit_char (fraction mod 10) # acc)"

text \<open>
  \<open>trim_zeros min_decimals keep ds\<close>: the loop that lowers \<^verbatim>\<open>keep\<close> while the last kept
  digit is zero. \<^verbatim>\<open>min_decimals\<close> is non-negative at every call site (0, 2 and 8).
\<close>

fun trim_zeros :: "nat \<Rightarrow> nat \<Rightarrow> string \<Rightarrow> nat" where
  "trim_zeros min_decimals 0 ds = 0"
| "trim_zeros min_decimals (Suc keep) ds =
     (if Suc keep > min_decimals \<and> ds ! keep = CHR ''0''
      then trim_zeros min_decimals keep ds else Suc keep)"

definition FormatFixed :: "i64 \<Rightarrow> nat \<Rightarrow> string" where
  "FormatFixed v min_decimals =
     (let negative = v < 0;
          magnitude = uint (if negative then NOT (word_of_int v :: u64) + 1
                            else (word_of_int v :: u64));
          integer_part = magnitude div kScale;
          fraction = magnitude mod kScale;
          frac_digits = frac_loop kScaleDigits fraction [];
          keep = trim_zeros min_decimals kScaleDigits frac_digits
      in (if negative then ''-'' else []) @ to_string integer_part @
         (if keep > 0 then CHR ''.'' # take keep frac_digits else []))"


section \<open>Decimal notation\<close>

text \<open>The number a digit string denotes, continuing from \<open>n\<close>.\<close>

definition dec_val :: "int \<Rightarrow> string \<Rightarrow> int" where
  "dec_val n ds = foldl (\<lambda>n c. n * 10 + digit_val c) n ds"

text \<open>
  The scaled magnitude of the decimal \<open>ds.fs\<close>: the integer digits times \<open>10 ^ 8\<close> plus the
  first eight fraction digits, padded with zeros.
\<close>

definition fixed_magnitude :: "string \<Rightarrow> string \<Rightarrow> int" where
  "fixed_magnitude ds fs =
     dec_val 0 ds * kScale + dec_val 0 (take kScaleDigits fs) * 10 ^ (kScaleDigits - length fs)"

lemma dec_val_simps [simp]:
  "dec_val n [] = n"
  "dec_val n (c # cs) = dec_val (n * 10 + digit_val c) cs"
  by (simp_all add: dec_val_def)

lemma dec_val_append: "dec_val n (xs @ ys) = dec_val (dec_val n xs) ys"
  by (simp add: dec_val_def)

lemma digit_val_nat: "digit_val c = int (of_char c) - 48"
  by (simp add: digit_val_def of_nat_of_char)

lemma digit_val_bounds: "is_digit c \<Longrightarrow> 0 \<le> digit_val c \<and> digit_val c \<le> 9"
  by (simp add: is_digit_def digit_val_nat)

lemma dec_val_ge: "list_all is_digit ds \<Longrightarrow> 0 \<le> n \<Longrightarrow> n \<le> dec_val n ds"
proof (induction ds arbitrary: n)
  case (Cons c cs)
  then have "0 \<le> digit_val c" by (simp add: digit_val_bounds)
  with Cons.prems Cons.IH [of "n * 10 + digit_val c"] show ?case by simp
qed simp

lemma dec_val_nonneg: "list_all is_digit ds \<Longrightarrow> 0 \<le> n \<Longrightarrow> 0 \<le> dec_val n ds"
  using dec_val_ge [of ds n] by simp

lemma dec_val_less:
  "list_all is_digit ds \<Longrightarrow> 0 \<le> n \<Longrightarrow> dec_val n ds < (n + 1) * 10 ^ length ds"
proof (induction ds arbitrary: n)
  case (Cons c cs)
  then have c: "0 \<le> digit_val c" "digit_val c \<le> 9" by (simp_all add: digit_val_bounds)
  with Cons have "dec_val (n * 10 + digit_val c) cs < (n * 10 + digit_val c + 1) * 10 ^ length cs"
    by simp
  also have "\<dots> \<le> ((n + 1) * 10) * 10 ^ length cs"
    using c by (intro mult_right_mono) auto
  finally show ?case by (simp add: algebra_simps)
qed simp

lemma parse_integer_part_spec:
  assumes "list_all is_digit ds" "rest = [] \<or> \<not> is_digit (hd rest)" "0 \<le> n" "n \<le> kMaxIntegerPart"
  shows "parse_integer_part (ds @ rest) n seen =
           (if dec_val n ds \<le> kMaxIntegerPart
            then Some (rest, dec_val n ds, seen \<or> ds \<noteq> []) else None)"
  using assms
proof (induction ds arbitrary: n seen)
  case Nil
  then show ?case by (cases rest) auto
next
  case (Cons c cs)
  let ?n = "n * 10 + digit_val c"
  have c: "is_digit c" and d: "0 \<le> digit_val c" using Cons.prems by (simp_all add: digit_val_bounds)
  have ge: "?n \<le> dec_val ?n cs" using Cons.prems d by (simp add: dec_val_ge)
  show ?case
  proof (cases "?n \<le> kMaxIntegerPart")
    case True
    then have "\<not> n > kMaxIntegerPart sdiv 10"
      using d by (simp add: kMaxIntegerPart_eq)
    with Cons True c d show ?thesis by simp
  next
    case False
    with ge c show ?thesis by (simp add: Let_def)
  qed
qed

lemma parse_fraction_spec:
  assumes "list_all is_digit ds" "rest = [] \<or> \<not> is_digit (hd rest)" "k \<le> kScaleDigits"
  shows "parse_fraction (ds @ rest) f k seen =
           (rest, dec_val f (take (kScaleDigits - k) ds), min kScaleDigits (k + length ds),
            seen \<or> ds \<noteq> [])"
  using assms
proof (induction ds arbitrary: f k seen)
  case Nil
  then show ?case by (cases rest) auto
next
  case (Cons c cs)
  then show ?case
    by (cases "k < kScaleDigits") (auto simp: Suc_diff_Suc take_Cons')
qed

lemma pad_fraction_spec: "pad_fraction f k = f * 10 ^ (kScaleDigits - k)"
proof (induction f k rule: pad_fraction.induct)
  case (1 f k)
  show ?case
  proof (cases "k < kScaleDigits")
    case True
    then have "kScaleDigits - k = Suc (kScaleDigits - Suc k)" by simp
    with True 1 show ?thesis by (subst pad_fraction.simps) simp
  qed (subst pad_fraction.simps, simp)
qed

lemma fixed_fits_iff:
  assumes "0 \<le> i" "0 \<le> f" "f < kScale"
  shows "i \<le> (INT64_MAX - f) sdiv kScale \<longleftrightarrow> i * kScale + f \<le> INT64_MAX"
proof -
  have "0 \<le> INT64_MAX - f" using assms by (simp add: INT64_MAX_def kScale_def)
  then have "i \<le> (INT64_MAX - f) sdiv kScale \<longleftrightarrow> i \<le> (INT64_MAX - f) div kScale" by simp
  also have "\<dots> \<longleftrightarrow> i * kScale \<le> INT64_MAX - f"
    by (simp add: le_div_iff_mult_le)
  finally show ?thesis by linarith
qed


lemma fraction_bounds:
  assumes "list_all is_digit fs"
  shows "0 \<le> dec_val 0 (take kScaleDigits fs) * 10 ^ (kScaleDigits - length fs)" (is "0 \<le> ?f")
    and "dec_val 0 (take kScaleDigits fs) * 10 ^ (kScaleDigits - length fs) < kScale"
proof -
  have d: "list_all is_digit (take kScaleDigits fs)"
    using assms by (auto simp: list_all_iff dest: in_set_takeD)
  then show "0 \<le> ?f" by (simp add: dec_val_nonneg)
  have "dec_val 0 (take kScaleDigits fs) < 10 ^ length (take kScaleDigits fs)"
    using dec_val_less [OF d, of 0] by simp
  then have "?f < 10 ^ length (take kScaleDigits fs) * 10 ^ (kScaleDigits - length fs)" by simp
  also have "\<dots> = 10 ^ kScaleDigits"
    by (cases "length fs \<le> kScaleDigits") (simp_all flip: power_add)
  finally show "?f < kScale" by (simp add: kScale_def kScaleDigits_def)
qed

lemma fixed_magnitude_fits:
  assumes "list_all is_digit ds" "list_all is_digit fs"
  shows "fixed_magnitude ds fs \<le> INT64_MAX \<longleftrightarrow>
           dec_val 0 ds \<le> kMaxIntegerPart \<and>
           dec_val 0 ds \<le>
             (INT64_MAX - dec_val 0 (take kScaleDigits fs) * 10 ^ (kScaleDigits - length fs)) sdiv kScale"
proof -
  have "fixed_magnitude ds fs \<le> INT64_MAX \<Longrightarrow> dec_val 0 ds \<le> kMaxIntegerPart"
    using fraction_bounds(1) [OF assms(2)]
    by (simp add: fixed_magnitude_def kMaxIntegerPart_eq kScale_def INT64_MAX_def)
  with fixed_fits_iff [OF dec_val_nonneg [OF assms(1)] fraction_bounds [OF assms(2)], of 0]
  show ?thesis by (auto simp: fixed_magnitude_def)
qed

text \<open>The value of a well-formed decimal string: an optional sign, digits, an optional point.\<close>

definition is_sign :: "string \<Rightarrow> bool" where
  "is_sign sign \<longleftrightarrow> sign = [] \<or> sign = ''+'' \<or> sign = ''-''"

definition is_point :: "string \<Rightarrow> string \<Rightarrow> bool" where
  "is_point point fs \<longleftrightarrow> point = ''.'' \<or> point = [] \<and> fs = []"

lemma digit_not_sign: "is_digit c \<Longrightarrow> c \<noteq> CHR ''+'' \<and> c \<noteq> CHR ''-'' \<and> c \<noteq> CHR ''.''"
  by (auto simp: is_digit_def)

lemma unsigned_head:
  assumes "list_all is_digit ds" "is_point point fs" "ds @ fs \<noteq> []"
  shows "hd (ds @ point @ fs) \<noteq> CHR ''+''" "hd (ds @ point @ fs) \<noteq> CHR ''-''"
  using assms by (cases ds; force simp: is_point_def dest: digit_not_sign)+

lemma parse_point_fraction:
  assumes "is_point point fs" "list_all is_digit fs"
  shows "(if point @ fs \<noteq> [] \<and> hd (point @ fs) = CHR ''.''
          then parse_fraction (tl (point @ fs)) 0 0 seen else (point @ fs, 0, 0, seen)) =
         ([], dec_val 0 (take kScaleDigits fs), min kScaleDigits (length fs), seen \<or> fs \<noteq> [])"
  using assms parse_fraction_spec [of fs "[]" 0 0 seen] by (auto simp: is_point_def)

lemma ParseFixed_decimal:
  assumes sign: "is_sign sign" and point: "is_point point fs"
    and ds: "list_all is_digit ds" and fs: "list_all is_digit fs" and ne: "ds @ fs \<noteq> []"
  shows "ParseFixed (sign @ ds @ point @ fs) =
           (if fixed_magnitude ds fs \<le> INT64_MAX
            then Some (if sign = ''-'' then - fixed_magnitude ds fs else fixed_magnitude ds fs)
            else None)"
proof -
  let ?s = "sign @ ds @ point @ fs"
  let ?i = "dec_val 0 ds" and ?f = "dec_val 0 (take kScaleDigits fs) * 10 ^ (kScaleDigits - length fs)"
  have neg: "hd ?s = CHR ''-'' \<longleftrightarrow> sign = ''-''"
    and body: "(if hd ?s = CHR ''+'' \<or> sign = ''-'' then tl ?s else ?s) = ds @ point @ fs"
    using sign unsigned_head [OF ds point ne] by (auto simp: is_sign_def)
  have int: "parse_integer_part (ds @ point @ fs) 0 False =
               (if ?i \<le> kMaxIntegerPart then Some (point @ fs, ?i, ds \<noteq> []) else None)"
    using parse_integer_part_spec [of ds "point @ fs" 0 False] ds point
    by (auto simp: kMaxIntegerPart_eq is_point_def is_digit_def)
  have pad: "pad_fraction (dec_val 0 (take kScaleDigits fs)) (min kScaleDigits (length fs)) = ?f"
    by (simp add: pad_fraction_spec min_def)
  have nonempty: "?s \<noteq> []" using ne by auto
  have "ParseFixed ?s =
          (if ?i \<le> kMaxIntegerPart \<and> ?i \<le> (INT64_MAX - ?f) sdiv kScale
           then Some (if sign = ''-'' then - (?i * kScale + ?f) else ?i * kScale + ?f) else None)"
  proof (cases "?i \<le> kMaxIntegerPart")
    case True
    show ?thesis
      unfolding ParseFixed_def Let_def neg body int if_P [OF True] option.case prod.case
        parse_point_fraction [OF point fs] pad
      using nonempty ne True by (auto simp: not_le)
  next
    case False
    then show ?thesis unfolding ParseFixed_def Let_def neg body int by simp
  qed
  then show ?thesis using fixed_magnitude_fits [OF ds fs] by (simp add: fixed_magnitude_def)
qed

lemma ParseFixed_shape:
  assumes "ParseFixed s = Some v"
  shows "\<exists>sign ds point fs. s = sign @ ds @ point @ fs \<and> is_sign sign \<and> is_point point fs \<and>
           list_all is_digit ds \<and> list_all is_digit fs \<and> ds @ fs \<noteq> []"
proof -
  define sign where "sign = (if hd s = CHR ''+'' \<or> hd s = CHR ''-'' then [hd s] else [])"
  define s1 where "s1 = (if hd s = CHR ''+'' \<or> hd s = CHR ''-'' then tl s else s)"
  define ds where "ds = takeWhile is_digit s1"
  define s2 where "s2 = dropWhile is_digit s1"
  have "s \<noteq> []" using assms by (auto simp: ParseFixed_def)
  then have s: "s = sign @ ds @ s2" and sign: "is_sign sign"
    by (auto simp: sign_def s1_def ds_def s2_def is_sign_def)
  have ds: "list_all is_digit ds" by (auto simp: ds_def list_all_iff dest: set_takeWhileD)
  have s2: "s2 = [] \<or> \<not> is_digit (hd s2)" using hd_dropWhile [of is_digit s1] by (auto simp: s2_def)
  have int: "parse_integer_part s1 0 False =
      (if dec_val 0 ds \<le> kMaxIntegerPart then Some (s2, dec_val 0 ds, ds \<noteq> []) else None)"
    using parse_integer_part_spec [OF ds s2, of 0 False] by (simp add: ds_def s2_def kMaxIntegerPart_eq)
  define fs where "fs = takeWhile is_digit (tl s2)"
  define s3 where "s3 = dropWhile is_digit (tl s2)"
  have fs: "list_all is_digit fs" by (auto simp: fs_def list_all_iff dest: set_takeWhileD)
  have s3: "s3 = [] \<or> \<not> is_digit (hd s3)" using hd_dropWhile [of is_digit "tl s2"] by (auto simp: s3_def)
  have frac: "parse_fraction (tl s2) 0 0 seen =
      (s3, dec_val 0 (take kScaleDigits fs), min kScaleDigits (length fs), seen \<or> fs \<noteq> [])" for seen
    using parse_fraction_spec [OF fs s3, of 0 0 seen] by (simp add: fs_def s3_def)
  have "(s2 = [] \<and> ds \<noteq> []) \<or> (s2 \<noteq> [] \<and> hd s2 = CHR ''.'' \<and> s3 = [] \<and> ds @ fs \<noteq> [])"
    using assms unfolding ParseFixed_def s1_def [symmetric] Let_def int
    by (auto simp: frac split: if_splits)
  then show ?thesis
  proof (elim disjE conjE)
    assume "s2 = []" "ds \<noteq> []"
    with s sign ds show ?thesis by (intro exI [of _ sign] exI [of _ ds] exI [of _ "[]"]) (simp add: is_point_def)
  next
    assume "s2 \<noteq> []" "hd s2 = CHR ''.''" "s3 = []" "ds @ fs \<noteq> []"
    moreover have "tl s2 = fs @ s3" by (simp add: fs_def s3_def)
    ultimately have "s2 = ''.'' @ fs" by (cases s2) simp_all
    with s sign ds fs \<open>ds @ fs \<noteq> []\<close> show ?thesis
      by (intro exI [of _ sign] exI [of _ ds] exI [of _ "''.''"] exI [of _ fs]) (simp add: is_point_def)
  qed
qed


section \<open>Rendering and parsing back\<close>

lemma digit_char_simps:
  assumes "0 \<le> n" "n < 10"
  shows "is_digit (digit_char n)" "digit_val (digit_char n) = n" "digit_char n = CHR ''0'' \<longleftrightarrow> n = 0"
proof -
  have int: "of_char (digit_char n) = 48 + n"
    using assms by (simp add: digit_char_def of_char_of)
  then have nat: "(of_char (digit_char n) :: nat) = nat (48 + n)"
    by (simp flip: nat_of_char)
  show "is_digit (digit_char n)" using assms by (auto simp: is_digit_def nat nat_le_iff le_nat_iff)
  show val: "digit_val (digit_char n) = n" by (simp add: digit_val_def int)
  show "digit_char n = CHR ''0'' \<longleftrightarrow> n = 0"
  proof
    assume "digit_char n = CHR ''0''"
    with val have "digit_val (CHR ''0'') = n" by simp
    then show "n = 0" by (simp add: digit_val_def)
  next
    assume "n = 0"
    then show "digit_char n = CHR ''0''" by (simp add: digit_char_def char_of_def bit_simps flip: bit_0)
  qed
qed

lemma to_string_correct:
  "0 \<le> n \<Longrightarrow> list_all is_digit (to_string n) \<and> to_string n \<noteq> [] \<and> dec_val 0 (to_string n) = n"
proof (induction n rule: to_string.induct)
  case (1 n)
  show ?case
  proof (cases "n < 10")
    case True
    with 1 show ?thesis by (subst (1 2 3) to_string.simps) (simp add: digit_char_simps)
  next
    case False
    with 1 have "list_all is_digit (to_string (n div 10)) \<and> dec_val 0 (to_string (n div 10)) = n div 10"
      by simp
    with False show ?thesis
      by (subst (1 2 3) to_string.simps) (simp add: digit_char_simps dec_val_append)
  qed
qed

lemma frac_loop_append: "frac_loop k f acc = frac_loop k f [] @ acc"
proof (induction k arbitrary: f acc)
  case (Suc k)
  show ?case by (simp add: Suc [of _ "digit_char _ # acc"] Suc [of _ "[digit_char _]"])
qed simp

lemma frac_loop_correct:
  "length (frac_loop k f []) = k \<and> list_all is_digit (frac_loop k f []) \<and>
   dec_val 0 (frac_loop k f []) = f mod 10 ^ k"
proof (induction k arbitrary: f)
  case (Suc k)
  have "f div 10 mod 10 ^ k * 10 + f mod 10 = f mod 10 ^ Suc k"
    by (simp add: mod_mult2_eq' zmod_zmult2_eq)
  with Suc [of "f div 10"] show ?case
    by (simp add: frac_loop_append [of _ _ "[_]"] dec_val_append digit_char_simps)
qed simp

lemma trim_zeros_correct:
  assumes "n \<le> length ds" "list_all is_digit ds"
  shows "trim_zeros m n ds \<le> n \<and>
         dec_val 0 (take n ds) = dec_val 0 (take (trim_zeros m n ds) ds) * 10 ^ (n - trim_zeros m n ds)"
  using assms
proof (induction n)
  case (Suc n)
  show ?case
  proof (cases "m < Suc n \<and> ds ! n = CHR ''0''")
    case True
    have "dec_val 0 (take (Suc n) ds) = dec_val 0 (take n ds) * 10"
      using Suc.prems True by (simp add: take_Suc_conv_app_nth dec_val_append digit_val_def)
    with Suc True show ?thesis by (auto simp: Suc_diff_le algebra_simps)
  qed (use Suc in auto)
qed simp


lemma magnitude_abs:
  assumes "in_i64 v"
  shows "uint (if v < 0 then NOT (word_of_int v :: u64) + 1 else word_of_int v) = \<bar>v\<bar>"
proof (cases "v < 0")
  case True
  have "NOT (word_of_int v :: u64) + 1 = word_of_int (- v)"
    by (simp add: minus_eq_not_plus_1 [symmetric])
  moreover have "uint (word_of_int (- v) :: u64) = - v"
    using True assms by (subst uint_word_of_int) (simp add: i64_bounds)
  ultimately show ?thesis using True by simp
next
  case False
  with assms show ?thesis by (simp add: uint_word_of_int i64_bounds)
qed

lemma FormatFixed_shape:
  assumes "in_i64 v"
  obtains point fs where
    "FormatFixed v m = (if v < 0 then ''-'' else []) @ to_string (\<bar>v\<bar> div kScale) @ point @ fs"
    "is_point point fs" "list_all is_digit fs"
    "fixed_magnitude (to_string (\<bar>v\<bar> div kScale)) fs = \<bar>v\<bar>"
proof -
  let ?ds = "frac_loop kScaleDigits (\<bar>v\<bar> mod kScale) []"
  let ?k = "trim_zeros m kScaleDigits ?ds"
  let ?point = "if ?k > 0 then ''.'' else []" and ?fs = "take ?k ?ds"
  have ds: "length ?ds = kScaleDigits" "list_all is_digit ?ds" "dec_val 0 ?ds = \<bar>v\<bar> mod kScale"
    using frac_loop_correct [of kScaleDigits "\<bar>v\<bar> mod kScale"] by (simp_all add: kScaleDigits_def kScale_def)
  have trim: "?k \<le> kScaleDigits" "dec_val 0 ?fs * 10 ^ (kScaleDigits - ?k) = \<bar>v\<bar> mod kScale"
    using trim_zeros_correct [of kScaleDigits ?ds m] ds by simp_all
  have "fixed_magnitude (to_string (\<bar>v\<bar> div kScale)) ?fs = \<bar>v\<bar>"
    using trim ds to_string_correct [of "\<bar>v\<bar> div kScale"]
    by (simp add: fixed_magnitude_def min_absorb1 pos_imp_zdiv_nonneg_iff)
  moreover have "list_all is_digit ?fs" using ds(2) by (auto simp: list_all_iff dest: in_set_takeD)
  moreover have "is_point ?point ?fs" by (simp add: is_point_def)
  moreover have "FormatFixed v m =
      (if v < 0 then ''-'' else []) @ to_string (\<bar>v\<bar> div kScale) @ ?point @ ?fs"
    unfolding FormatFixed_def Let_def magnitude_abs [OF assms] by simp
  ultimately show ?thesis by (intro that)
qed

section \<open>Properties of the arithmetic\<close>

lemma NarrowSaturating_clamp: "NarrowSaturating v = max INT64_MIN (min INT64_MAX v)"
  by (simp add: NarrowSaturating_def i64_bounds)

lemma NarrowSaturating_in [simp]: "in_i64 (NarrowSaturating v)"
  by (simp add: NarrowSaturating_def i64_bounds)

lemma NarrowSaturating_id [simp]: "in_i64 v \<Longrightarrow> NarrowSaturating v = v"
  by (simp add: NarrowSaturating_def i64_bounds)

lemma NarrowSaturating_mono: "a \<le> b \<Longrightarrow> NarrowSaturating a \<le> NarrowSaturating b"
  by (simp add: NarrowSaturating_clamp min_def max_def)

lemma NotionalWide_nonneg: "0 \<le> px \<Longrightarrow> 0 \<le> qty \<Longrightarrow> NotionalWide px qty = px * qty div kScale"
  by (simp add: NotionalWide_def)

lemma NotionalWide_ge0: "0 \<le> px \<Longrightarrow> 0 \<le> qty \<Longrightarrow> 0 \<le> NotionalWide px qty"
  by (simp add: NotionalWide_nonneg pos_imp_zdiv_nonneg_iff)

lemma product_in_i128: "in_i64 a \<Longrightarrow> in_i64 b \<Longrightarrow> \<bar>a * b\<bar> \<le> 2 ^ 126"
proof -
  assume "in_i64 a" "in_i64 b"
  then have "\<bar>a\<bar> \<le> 2 ^ 63" "\<bar>b\<bar> \<le> 2 ^ 63" by (auto simp: i64_bounds abs_le_iff)
  then have "\<bar>a\<bar> * \<bar>b\<bar> \<le> 2 ^ 63 * 2 ^ 63" by (intro mult_mono) simp_all
  then show ?thesis by (simp add: abs_mult)
qed

lemma kScale_product_fits: "in_i64 n \<Longrightarrow> wrap128 (n * kScale) = n * kScale"
  by (rule wrap128_id) (simp add: i64_bounds in_i128_def kScale_def)

lemma QtyForNotional_eq:
  assumes "0 < px" "0 < n" "in_i64 n"
  shows "QtyForNotional n px = min INT64_MAX (n * kScale div px)"
proof -
  have "0 \<le> n * kScale div px" using assms by (simp add: pos_imp_zdiv_nonneg_iff)
  with assms show ?thesis
    by (simp add: QtyForNotional_def kScale_product_fits NarrowSaturating_clamp INT64_MIN_def INT64_MAX_def)
qed

lemma QtyForNotional_bounds:
  assumes "0 < px" "0 < n" "in_i64 n"
  shows "0 \<le> QtyForNotional n px" and "px * QtyForNotional n px \<le> n * kScale"
proof -
  let ?q = "n * kScale div px"
  have "0 \<le> ?q" using assms by (simp add: pos_imp_zdiv_nonneg_iff)
  then show "0 \<le> QtyForNotional n px" using assms by (simp add: QtyForNotional_eq INT64_MAX_def)
  have "QtyForNotional n px \<le> ?q" using assms by (simp add: QtyForNotional_eq)
  then have "px * QtyForNotional n px \<le> px * ?q" using assms by simp
  also have "\<dots> \<le> n * kScale"
    using assms by (metis le_div_iff_mult_le mult.commute order_refl)
  finally show "px * QtyForNotional n px \<le> n * kScale" .
qed

lemma NotionalWide_le_iff:
  assumes "0 \<le> px" "0 \<le> qty"
  shows "px * qty \<le> n * kScale \<Longrightarrow> NotionalWide px qty \<le> n"
  using assms zdiv_mono1 [of "px * qty" "n * kScale" kScale] by (simp add: NotionalWide_nonneg)

lemma QtyForNotional_no_overfill:
  assumes "0 < px" "0 < n" "in_i64 n"
  shows "NotionalWide px (QtyForNotional n px) \<le> n"
  using QtyForNotional_bounds [OF assms] assms by (intro NotionalWide_le_iff) simp_all

lemma offset_delta:
  assumes "0 < reference" "0 < offset"
  defines "delta \<equiv> (reference * offset + kBpsScale - 1) sdiv kBpsScale"
  shows "(delta - 1) * kBpsScale < reference * offset" "reference * offset \<le> delta * kBpsScale" "0 < delta"
proof -
  let ?n = "reference * offset"
  have n: "0 < ?n" using assms by simp
  then have d: "delta = (?n + kBpsScale - 1) div kBpsScale" by (simp add: delta_def kBpsScale_eq)
  then show "(delta - 1) * kBpsScale < ?n"
    using le_div_iff_mult_le [of kBpsScale delta "?n + kBpsScale - 1"] by (simp add: kBpsScale_eq algebra_simps)
  show le: "?n \<le> delta * kBpsScale"
    using d le_div_iff_mult_le [of kBpsScale "delta + 1" "?n + kBpsScale - 1"]
    by (simp add: kBpsScale_eq algebra_simps)
  show "0 < delta" using le n by (simp add: kBpsScale_eq)
qed

section \<open>Properties\<close>

text \<open>C31: \<open>ParseFixed\<close> accepts exactly the decimal strings (an optional sign, digits with an
  optional point, at least one digit, nothing left over) whose scaled magnitude fits a signed
  64-bit integer, and returns that magnitude with the sign; digits past the eighth truncate.\<close>

theorem ParseFixed_iff:
  "ParseFixed s = Some v \<longleftrightarrow>
     (\<exists>sign ds point fs.
        s = sign @ ds @ point @ fs \<and> is_sign sign \<and> is_point point fs \<and>
        list_all is_digit ds \<and> list_all is_digit fs \<and> ds @ fs \<noteq> [] \<and>
        fixed_magnitude ds fs \<le> INT64_MAX \<and>
        v = (if sign = ''-'' then - fixed_magnitude ds fs else fixed_magnitude ds fs))"
proof
  assume parsed: "ParseFixed s = Some v"
  then obtain sign ds point fs where shape: "s = sign @ ds @ point @ fs" "is_sign sign"
      "is_point point fs" "list_all is_digit ds" "list_all is_digit fs" "ds @ fs \<noteq> []"
    using ParseFixed_shape by blast
  with parsed ParseFixed_decimal [OF shape(2-6)] show "\<exists>sign ds point fs. s = sign @ ds @ point @ fs \<and>
      is_sign sign \<and> is_point point fs \<and> list_all is_digit ds \<and> list_all is_digit fs \<and> ds @ fs \<noteq> [] \<and>
      fixed_magnitude ds fs \<le> INT64_MAX \<and>
      v = (if sign = ''-'' then - fixed_magnitude ds fs else fixed_magnitude ds fs)"
    by (intro exI [of _ sign] exI [of _ ds] exI [of _ point] exI [of _ fs]) (auto split: if_splits)
qed (auto simp: ParseFixed_decimal)

text \<open>C32: rendering a 64-bit value with any number of kept decimals and parsing the text gives
  the value back; only the most negative value, whose magnitude has no positive counterpart,
  is excluded.\<close>

theorem FormatFixed_roundtrip:
  assumes "in_i64 v" "v \<noteq> INT64_MIN"
  shows "ParseFixed (FormatFixed v min_decimals) = Some v"
proof -
  obtain point fs where shape:
    "FormatFixed v min_decimals = (if v < 0 then ''-'' else []) @ to_string (\<bar>v\<bar> div kScale) @ point @ fs"
    "is_point point fs" "list_all is_digit fs"
    "fixed_magnitude (to_string (\<bar>v\<bar> div kScale)) fs = \<bar>v\<bar>"
    using FormatFixed_shape [OF assms(1)] by blast
  have "list_all is_digit (to_string (\<bar>v\<bar> div kScale))" "to_string (\<bar>v\<bar> div kScale) \<noteq> []"
    using to_string_correct [of "\<bar>v\<bar> div kScale"] by (simp_all add: pos_imp_zdiv_nonneg_iff)
  moreover have "\<bar>v\<bar> \<le> INT64_MAX" using assms by (auto simp: i64_bounds)
  moreover have "is_sign (if v < 0 then ''-'' else [])" by (simp add: is_sign_def)
  ultimately show ?thesis
    unfolding shape(1) using shape(2-4) by (subst ParseFixed_decimal) auto
qed

theorem FormatFixed_roundtrip_witness:
  "ParseFixed (FormatFixed (- 6812345000000) 2) = Some (- 6812345000000)"
  by (rule FormatFixed_roundtrip) (simp_all add: i64_bounds)

text \<open>The quantity that spends a notional never overspends it, and one more unit would reach
  it (unless the quantity saturated), so the truncation loses less than one unit.\<close>

theorem QtyForNotional_tight:
  assumes "0 < px" "0 < notional" "in_i64 notional"
  shows "NotionalWide px (QtyForNotional notional px) \<le> notional \<and>
         (QtyForNotional notional px < INT64_MAX \<longrightarrow>
            notional \<le> NotionalWide px (QtyForNotional notional px + 1))"
proof (intro conjI impI)
  let ?q = "QtyForNotional notional px"
  show "NotionalWide px ?q \<le> notional" by (rule QtyForNotional_no_overfill [OF assms])
  assume "?q < INT64_MAX"
  then have q: "?q = notional * kScale div px" using assms by (simp add: QtyForNotional_eq)
  then have "notional * kScale < (?q + 1) * px"
    using assms le_div_iff_mult_le [of px "?q + 1" "notional * kScale"] by simp
  then have "notional * kScale \<le> px * (?q + 1)" by (simp add: algebra_simps)
  then have "notional \<le> px * (?q + 1) div kScale" by (simp add: le_div_iff_mult_le)
  moreover have "0 \<le> ?q" using QtyForNotional_bounds [OF assms] by simp
  ultimately show "notional \<le> NotionalWide px (?q + 1)" using assms by (simp add: NotionalWide_nonneg)
qed

theorem QtyForNotional_tight_witness:
  "NotionalWide 6812345000000 (QtyForNotional 100000000000000 6812345000000) \<le> 100000000000000"
  using QtyForNotional_tight [of 6812345000000 100000000000000] by (simp add: i64_bounds)

text \<open>The price \<open>offset\<close> hundred-millionths of a basis point away from the reference is the
  reference moved outward by the ceiling of the exact distance, symmetrically for bids and asks.\<close>

theorem OffsetByBpsOutward_symmetric:
  assumes "0 < reference" "0 < offset" "OffsetByBpsOutward reference offset False < INT64_MAX"
  shows "\<exists>delta. (delta - 1) * kBpsScale < reference * offset \<and> reference * offset \<le> delta * kBpsScale \<and>
           OffsetByBpsOutward reference offset True = reference - delta \<and>
           OffsetByBpsOutward reference offset False = reference + delta"
proof -
  let ?delta = "(reference * offset + kBpsScale - 1) sdiv kBpsScale"
  note d = offset_delta [OF assms(1,2)]
  have "OffsetByBpsOutward reference offset False = NarrowSaturating (reference + ?delta)"
    and "OffsetByBpsOutward reference offset True = NarrowSaturating (reference - ?delta)"
    using assms by (simp_all add: OffsetByBpsOutward_def)
  with assms d have "OffsetByBpsOutward reference offset True = reference - ?delta \<and>
      OffsetByBpsOutward reference offset False = reference + ?delta"
    by (auto simp: NarrowSaturating_def i64_bounds split: if_splits)
  with d show ?thesis by blast
qed

theorem OffsetByBpsOutward_symmetric_witness:
  "\<exists>delta. (delta - 1) * kBpsScale < 6812345000001 * 5000000000 \<and>
     6812345000001 * 5000000000 \<le> delta * kBpsScale \<and>
     OffsetByBpsOutward 6812345000001 5000000000 True = 6812345000001 - delta \<and>
     OffsetByBpsOutward 6812345000001 5000000000 False = 6812345000001 + delta"
  by (rule OffsetByBpsOutward_symmetric)
    (simp_all add: OffsetByBpsOutward_def Let_def kBpsScale_eq NarrowSaturating_def i64_bounds)

end
