(* ===== verification/Book.thy ===== *)
theory Book
  imports Fixed
begin

text \<open>
  One venue's order book (\<^verbatim>\<open>src/core/book.h\<close>, \<^verbatim>\<open>src/core/book.cc\<close>): each side is a
  vector of levels kept best-first, amended level by level or by one linear merge when a batch
  is large. The template parameter \<^verbatim>\<open>Descending\<close> is the first argument \<open>d\<close> of every
  operation. The abstract view of a side is the map from prices to quantities (\<open>depth\<close>).
\<close>

section \<open>Data\<close>

record Level =
  lpx :: Px
  lqty :: Qty

record SideBook =
  sb_levels :: "Level list"
  sb_scratch :: "Level list"

definition empty_side :: SideBook where
  "empty_side = \<lparr>sb_levels = [], sb_scratch = []\<rparr>"

definition Better :: "bool \<Rightarrow> Px \<Rightarrow> Px \<Rightarrow> bool" where
  "Better d a b = (if d then a > b else a < b)"

definition kBatchMergeThreshold :: nat where
  "kBatchMergeThreshold = 8"

section \<open>Operations\<close>

text \<open>
  \<^verbatim>\<open>std::stable_sort\<close> by price, best first, then one pass that keeps the last entry of every
  run of equal prices.
\<close>

definition stable_sort :: "bool \<Rightarrow> Level list \<Rightarrow> Level list" where
  "stable_sort d v = sort_key (\<lambda>l. if d then - lpx l else lpx l) v"

function keep_last_of_runs :: "Level list \<Rightarrow> Level list" where
  "keep_last_of_runs [] = []"
| "keep_last_of_runs (l # ls) =
     last (l # takeWhile (\<lambda>n. lpx n = lpx l) ls) #
       keep_last_of_runs (dropWhile (\<lambda>n. lpx n = lpx l) ls)"
  by pat_completeness auto
termination
  by (relation "measure length") (auto simp: less_Suc_eq_le length_dropWhile_le)

definition SortBestFirstLastWins :: "bool \<Rightarrow> Level list \<Rightarrow> Level list" where
  "SortBestFirstLastWins d v = keep_last_of_runs (stable_sort d v)"

text \<open>
  \<^verbatim>\<open>std::lower_bound\<close>: the index of the first element that does not satisfy the comparison,
  on a range that is partitioned by it.
\<close>

definition lower_bound :: "('a \<Rightarrow> bool) \<Rightarrow> 'a list \<Rightarrow> nat" where
  "lower_bound p xs = length (takeWhile p xs)"

definition apply_level :: "bool \<Rightarrow> Level list \<Rightarrow> Px \<Rightarrow> Qty \<Rightarrow> Level list" where
  "apply_level d levels px qty =
     (let it = lower_bound (\<lambda>level. Better d (lpx level) px) levels
      in if it < length levels \<and> lpx (levels ! it) = px then
           (if qty = 0 then take it levels @ drop (Suc it) levels
            else levels[it := (levels ! it)\<lparr>lqty := qty\<rparr>])
         else if qty \<noteq> 0 then take it levels @ \<lparr>lpx = px, lqty = qty\<rparr> # drop it levels
         else levels)"

definition Apply :: "bool \<Rightarrow> SideBook \<Rightarrow> Px \<Rightarrow> Qty \<Rightarrow> SideBook" where
  "Apply d b px qty = b\<lparr>sb_levels := apply_level d (sb_levels b) px qty\<rparr>"

text \<open>The merge loop of \<^verbatim>\<open>ApplyBatch\<close>, with the tails that follow it.\<close>

fun merge_deltas :: "bool \<Rightarrow> Level list \<Rightarrow> Level list \<Rightarrow> Level list" where
  "merge_deltas d (existing # is) (update # js) =
     (if lpx existing = lpx update then
        (if lqty update \<noteq> 0 then update # merge_deltas d is js else merge_deltas d is js)
      else if Better d (lpx existing) (lpx update) then
        existing # merge_deltas d is (update # js)
      else if lqty update \<noteq> 0 then update # merge_deltas d (existing # is) js
      else merge_deltas d (existing # is) js)"
| "merge_deltas d is [] = is"
| "merge_deltas d [] js = filter (\<lambda>u. lqty u \<noteq> 0) js"

text \<open>
  \<^verbatim>\<open>ApplyBatch\<close> sorts the caller's vector in place on the merge path, so it returns the
  deltas beside the book.
\<close>

definition ApplyBatch :: "bool \<Rightarrow> SideBook \<Rightarrow> Level list \<Rightarrow> SideBook \<times> Level list" where
  "ApplyBatch d b deltas =
     (if deltas = [] then (b, deltas)
      else if length deltas < kBatchMergeThreshold
           then (foldl (\<lambda>b level. Apply d b (lpx level) (lqty level)) b deltas, deltas)
           else let deltas' = SortBestFirstLastWins d deltas;
                    scratch = merge_deltas d (sb_levels b) deltas'
                in (\<lparr>sb_levels = scratch, sb_scratch = sb_levels b\<rparr>, deltas'))"

definition Replace :: "bool \<Rightarrow> SideBook \<Rightarrow> Level list \<Rightarrow> SideBook" where
  "Replace d b levels =
     b\<lparr>sb_levels := filter (\<lambda>l. lqty l \<noteq> 0) (SortBestFirstLastWins d levels)\<rparr>"

text \<open>\<^verbatim>\<open>Invariant()\<close> walks the vector and compares every level with the one before it.\<close>

fun invariant_from :: "bool \<Rightarrow> Level option \<Rightarrow> Level list \<Rightarrow> bool" where
  "invariant_from d prev [] = True"
| "invariant_from d prev (l # ls) =
     (if lqty l \<le> 0 \<or> lpx l \<le> 0 then False
      else if (case prev of None \<Rightarrow> False | Some p \<Rightarrow> \<not> Better d (lpx p) (lpx l)) then False
      else invariant_from d (Some l) ls)"

definition Invariant :: "bool \<Rightarrow> SideBook \<Rightarrow> bool" where
  "Invariant d b = invariant_from d None (sb_levels b)"

definition Clear_side :: "SideBook \<Rightarrow> SideBook" where
  "Clear_side b = b\<lparr>sb_levels := []\<rparr>"

definition BestPx :: "SideBook \<Rightarrow> Px" where
  "BestPx b = (case sb_levels b of [] \<Rightarrow> 0 | l # _ \<Rightarrow> lpx l)"

definition BestQty :: "SideBook \<Rightarrow> Qty" where
  "BestQty b = (case sb_levels b of [] \<Rightarrow> 0 | l # _ \<Rightarrow> lqty l)"

section \<open>A venue's two sides\<close>

record VenueBook =
  vb_bids :: SideBook
  vb_asks :: SideBook

definition empty_book :: VenueBook where
  "empty_book = \<lparr>vb_bids = empty_side, vb_asks = empty_side\<rparr>"

definition Clear :: "VenueBook \<Rightarrow> VenueBook" where
  "Clear b = b\<lparr>vb_bids := Clear_side (vb_bids b), vb_asks := Clear_side (vb_asks b)\<rparr>"

definition Crossed :: "VenueBook \<Rightarrow> bool" where
  "Crossed b \<longleftrightarrow> sb_levels (vb_bids b) \<noteq> [] \<and> sb_levels (vb_asks b) \<noteq> [] \<and>
     BestPx (vb_bids b) \<ge> BestPx (vb_asks b)"

record FeedUpdateLevels =
  is_snapshot :: bool
  fu_bids :: "Level list"
  fu_asks :: "Level list"

text \<open>The caller discards the update's vectors, so only the book is returned.\<close>

definition ApplyFeedUpdate :: "VenueBook \<Rightarrow> 'a FeedUpdateLevels_scheme \<Rightarrow> VenueBook" where
  "ApplyFeedUpdate book update =
     (if is_snapshot update then
        book\<lparr>vb_bids := Replace True (vb_bids book) (fu_bids update),
             vb_asks := Replace False (vb_asks book) (fu_asks update)\<rparr>
      else
        book\<lparr>vb_bids := fst (ApplyBatch True (vb_bids book) (fu_bids update)),
             vb_asks := fst (ApplyBatch False (vb_asks book) (fu_asks update))\<rparr>)"


section \<open>The abstract view: a map from prices to quantities\<close>

definition kv :: "Level list \<Rightarrow> (Px \<times> Qty) list" where
  "kv ls = map (\<lambda>l. (lpx l, lqty l)) ls"

definition depth :: "Level list \<Rightarrow> Px \<rightharpoonup> Qty" where
  "depth ls = map_of (kv ls)"

definition put :: "(Px \<rightharpoonup> Qty) \<Rightarrow> Px \<Rightarrow> Qty \<Rightarrow> (Px \<rightharpoonup> Qty)" where
  "put m px qty = (if qty = 0 then m(px := None) else m(px \<mapsto> qty))"

text \<open>What a list of changes says about a price: the last entry wins.\<close>

definition last_at :: "Level list \<Rightarrow> Px \<rightharpoonup> Qty" where
  "last_at ls = map_of (rev (kv ls))"

definition amend :: "(Px \<rightharpoonup> Qty) \<Rightarrow> (Px \<rightharpoonup> Qty) \<Rightarrow> (Px \<rightharpoonup> Qty)" where
  "amend m u px = (case u px of None \<Rightarrow> m px | Some q \<Rightarrow> if q = 0 then None else Some q)"

definition best_first :: "bool \<Rightarrow> Level list \<Rightarrow> bool" where
  "best_first d ls = sorted_wrt (Better d) (map lpx ls)"

interpretation price: best_first_order "Better d" for d
  by unfold_locales (auto simp: Better_def split: if_splits)

lemma kv_simps [simp]:
  "kv [] = []" "kv (l # ls) = (lpx l, lqty l) # kv ls" "kv (xs @ ys) = kv xs @ kv ys"
  "map fst (kv ls) = map lpx ls"
  by (simp_all add: kv_def)

lemma kv_inject: "kv xs = kv ys \<Longrightarrow> xs = (ys :: Level list)"
  by (auto simp: kv_def intro!: map_injective [of "\<lambda>l. (lpx l, lqty l)"] injI)

lemma depth_simps [simp]:
  "depth [] = Map.empty"
  "depth (l # ls) px = (if px = lpx l then Some (lqty l) else depth ls px)"
  by (simp_all add: depth_def)

lemma best_first_simps [simp]:
  "best_first d []"
  "best_first d (l # ls) \<longleftrightarrow> (\<forall>m\<in>set ls. Better d (lpx l) (lpx m)) \<and> best_first d ls"
  by (simp_all add: best_first_def)

lemma depth_None: "px \<notin> lpx ` set ls \<Longrightarrow> depth ls px = None"
  by (induction ls) auto

lemma depth_beyond [ladder]:
  "\<forall>m\<in>set ls. Better d px (lpx m) \<Longrightarrow> depth ls px = None"
  by (rule depth_None) (use price.before_neq in fastforce)

lemma best_first_unique:
  "best_first d xs \<Longrightarrow> best_first d ys \<Longrightarrow> depth xs = depth ys \<Longrightarrow> xs = ys"
  using price.ladder_unique [of d "kv xs" "kv ys"]
  by (auto simp: best_first_def depth_def intro: kv_inject)

lemma amend_empty [simp]: "amend m Map.empty = m"
  by (simp add: amend_def fun_eq_iff)

lemma last_at_simps [simp]:
  "last_at [] = Map.empty" "last_at (xs @ ys) = last_at xs ++ last_at ys"
  by (simp_all add: last_at_def)

lemma last_at_Cons: "last_at (l # ls) = [lpx l \<mapsto> lqty l] ++ last_at ls"
  using last_at_simps(2) [of "[l]" ls] by (simp add: last_at_def)

lemma amend_put: "amend (put m px qty) u = amend m ([px \<mapsto> qty] ++ u)"
  by (auto simp: amend_def put_def map_add_def fun_eq_iff split: option.splits)

section \<open>Level by level\<close>

text \<open>\<open>apply_level\<close> as insertion into a sorted list.\<close>

fun put_level :: "bool \<Rightarrow> Px \<Rightarrow> Qty \<Rightarrow> Level list \<Rightarrow> Level list" where
  "put_level d px qty [] = (if qty = 0 then [] else [\<lparr>lpx = px, lqty = qty\<rparr>])"
| "put_level d px qty (l # ls) =
     (if Better d (lpx l) px then l # put_level d px qty ls
      else if lpx l = px then (if qty = 0 then ls else l\<lparr>lqty := qty\<rparr> # ls)
      else if qty = 0 then l # ls
      else \<lparr>lpx = px, lqty = qty\<rparr> # l # ls)"

lemma apply_level_put: "apply_level d ls px qty = put_level d px qty ls"
proof (induction ls)
  case Nil
  then show ?case by (simp add: apply_level_def lower_bound_def)
next
  case (Cons l ls)
  then show ?case
    by (cases "Better d (lpx l) px") (auto simp: apply_level_def lower_bound_def Let_def)
qed

lemma set_put_level:
  "lpx ` set (put_level d px qty ls) \<subseteq> insert px (lpx ` set ls)"
  by (induction ls) auto

lemma best_first_put: "best_first d ls \<Longrightarrow> best_first d (put_level d px qty ls)"
proof (induction ls)
  case (Cons l ls)
  show ?case
  proof (cases "Better d (lpx l) px")
    case True
    with Cons set_put_level [of d px qty ls] show ?thesis by fastforce
  next
    case False
    with Cons.prems show ?thesis
      using price.before_total [of "lpx l" px d] price.before_trans [of d px "lpx l"] by auto
  qed
qed simp

lemma depth_put: "best_first d ls \<Longrightarrow> depth (put_level d px qty ls) = put (depth ls) px qty"
proof (induction ls)
  case (Cons l ls)
  show ?case
  proof (cases "Better d (lpx l) px")
    case True
    with Cons show ?thesis by (auto simp: put_def fun_eq_iff dest: price.before_neq)
  next
    case False
    have "lpx l = px \<Longrightarrow> depth ls px = None" using Cons.prems depth_beyond [of ls d px] by auto
    moreover have "lpx l \<noteq> px \<Longrightarrow> Better d px (lpx l)" using False price.before_total by blast
    then have "lpx l \<noteq> px \<Longrightarrow> depth ls px = None"
      using Cons.prems depth_beyond [of ls d px] price.before_trans by (meson best_first_simps(2))
    ultimately show ?thesis using False by (auto simp: put_def fun_eq_iff)
  qed
qed (simp add: put_def fun_eq_iff)

section \<open>Batches\<close>

definition apply_all :: "bool \<Rightarrow> Level list \<Rightarrow> Level list \<Rightarrow> Level list" where
  "apply_all d ls deltas = foldl (\<lambda>ls u. apply_level d ls (lpx u) (lqty u)) ls deltas"

lemma apply_all_correct:
  "best_first d ls \<Longrightarrow>
     best_first d (apply_all d ls deltas) \<and>
     depth (apply_all d ls deltas) = amend (depth ls) (last_at deltas)"
proof (induction deltas arbitrary: ls)
  case (Cons u us)
  from Cons.IH [OF best_first_put [OF Cons.prems]] Cons.prems show ?case
    by (simp add: apply_all_def apply_level_put depth_put amend_put last_at_Cons)
qed (simp add: apply_all_def)

lemma merge_deltas_Nil [simp]: "merge_deltas d [] js = filter (\<lambda>u. lqty u \<noteq> 0) js"
  by (cases js) simp_all

lemma set_merge_deltas: "set (merge_deltas d is js) \<subseteq> set is \<union> set js"
  by (induction d "is" js rule: merge_deltas.induct) (auto split: if_splits)

lemma depth_filter: "best_first d js \<Longrightarrow> depth (filter (\<lambda>u. lqty u \<noteq> 0) js) = amend Map.empty (depth js)"
proof (induction js)
  case (Cons j js)
  then have "depth js (lpx j) = None" using depth_beyond by auto
  with Cons show ?case by (auto simp: amend_def fun_eq_iff)
qed (simp add: amend_def fun_eq_iff)

lemma best_first_filter: "best_first d js \<Longrightarrow> best_first d (filter P js)"
  by (induction js) auto

lemma merge_deltas_best_first:
  "best_first d is \<Longrightarrow> best_first d js \<Longrightarrow> best_first d (merge_deltas d is js)"
proof (induction d "is" js rule: merge_deltas.induct)
  case (1 d e es u us)
  have sub: "set (merge_deltas d es us) \<subseteq> set es \<union> set us"
    "set (merge_deltas d es (u # us)) \<subseteq> set es \<union> set (u # us)"
    "set (merge_deltas d (e # es) us) \<subseteq> set (e # es) \<union> set us"
    by (rule set_merge_deltas)+
  consider "lpx e = lpx u" | "lpx e \<noteq> lpx u" "Better d (lpx e) (lpx u)"
    | "lpx e \<noteq> lpx u" "Better d (lpx u) (lpx e)"
    using price.before_total by blast
  then show ?case
  proof cases
    case 1
    with "1.IH" "1.prems" sub(1) show ?thesis by auto
  next
    case 2
    then have "x \<in> set es \<union> set (u # us) \<Longrightarrow> Better d (lpx e) (lpx x)" for x
      using "1.prems" price.before_trans by auto
    with 2 "1.IH" "1.prems" sub(2) show ?thesis by auto
  next
    case 3
    then have "x \<in> set (e # es) \<union> set us \<Longrightarrow> Better d (lpx u) (lpx x)" for x
      using "1.prems" price.before_trans by auto
    moreover have "\<not> Better d (lpx e) (lpx u)" using 3 price.before_asym by blast
    ultimately show ?thesis using 3 "1.IH" "1.prems" sub(3) by auto
  qed
qed (simp_all add: best_first_filter)

lemma merge_deltas_depth:
  "best_first d is \<Longrightarrow> best_first d js \<Longrightarrow> depth (merge_deltas d is js) = amend (depth is) (depth js)"
proof (induction d "is" js rule: merge_deltas.induct)
  case (1 d e es u us)
  consider "lpx e = lpx u" | "lpx e \<noteq> lpx u" "Better d (lpx e) (lpx u)"
    | "lpx e \<noteq> lpx u" "Better d (lpx u) (lpx e)"
    using price.before_total by blast
  then show ?case
  proof cases
    case 1
    then have "depth es (lpx u) = None" "depth us (lpx u) = None" using "1.prems" depth_beyond by auto
    with 1 "1.IH" "1.prems" show ?thesis by (auto simp: amend_def fun_eq_iff)
  next
    case 2
    then have "depth us (lpx e) = None" using "1.prems" price.before_trans by (intro depth_beyond) auto
    with 2 "1.IH" "1.prems" show ?thesis by (auto simp: amend_def fun_eq_iff)
  next
    case 3
    then have "depth es (lpx u) = None" using "1.prems" price.before_trans by (intro depth_beyond) auto
    moreover have "depth us (lpx u) = None" using "1.prems" depth_beyond by auto
    moreover have "\<not> Better d (lpx e) (lpx u)" using 3 price.before_asym by blast
    ultimately show ?thesis using 3 "1.IH" "1.prems" by (auto simp: amend_def fun_eq_iff)
  qed
next
  case (3 d v va)
  from depth_filter [OF "3.prems"(2)] show ?case by (simp only: merge_deltas.simps(3) depth_simps(1))
qed simp


section \<open>Sorting, last entry wins\<close>

abbreviation sort_rank :: "bool \<Rightarrow> Level \<Rightarrow> int" where
  "sort_rank d l \<equiv> if d then - lpx l else lpx l"

lemma rank_less: "sort_rank d l < sort_rank d m \<longleftrightarrow> Better d (lpx l) (lpx m)"
  by (simp add: Better_def)

lemma rank_eq: "sort_rank d l = sort_rank d m \<longleftrightarrow> lpx l = lpx m"
  by simp

lemma last_at_None: "px \<notin> lpx ` set ls \<Longrightarrow> last_at ls px = None"
  by (auto simp: last_at_def map_of_eq_None_iff kv_def)

lemma last_at_filter: "last_at ls px = last_at (filter (\<lambda>l. lpx l = px) ls) px"
  by (induction ls) (auto simp: last_at_Cons map_add_def split: option.splits)

lemma last_at_stable_sort: "last_at (stable_sort d v) = last_at v"
proof
  fix px
  have "filter (\<lambda>l. lpx l = px) (stable_sort d v) = filter (\<lambda>l. lpx l = px) v"
    using sort_key_stable [of "sort_rank d" "if d then - px else px" v]
    by (cases d) (simp_all add: stable_sort_def)
  then show "last_at (stable_sort d v) px = last_at v px"
    by (metis last_at_filter)
qed

lemma last_at_run:
  "\<forall>m\<in>set run. lpx m = lpx l \<Longrightarrow> last_at (l # run) = [lpx l \<mapsto> lqty (last (l # run))]"
proof (induction run arbitrary: l)
  case (Cons m run)
  have "last_at (m # run) = [lpx m \<mapsto> lqty (last (m # run))]"
    using Cons.prems by (intro Cons.IH) auto
  moreover have "lpx m = lpx l" using Cons.prems by simp
  ultimately show ?case unfolding last_at_Cons [of l "m # run"] by simp
qed (simp add: last_at_Cons)

lemma sorted_run_rest:
  assumes "sorted (map (sort_rank d) (l # ls))"
  shows "\<forall>m\<in>set (dropWhile (\<lambda>n. lpx n = lpx l) ls). Better d (lpx l) (lpx m)"
proof (cases "dropWhile (\<lambda>n. lpx n = lpx l) ls")
  case (Cons r rs)
  have ne: "lpx r \<noteq> lpx l" using hd_dropWhile [of "\<lambda>n. lpx n = lpx l" ls] Cons by auto
  have "sorted (map (sort_rank d) (r # rs))"
    unfolding Cons [symmetric] using assms by (rule sorted_map_dropWhile)
  moreover have "r \<in> set ls" using Cons by (metis list.set_intros(1) set_dropWhileD)
  with assms ne have "sort_rank d l < sort_rank d r" by (force simp: less_le split: if_splits)
  ultimately have "m \<in> set (r # rs) \<Longrightarrow> sort_rank d l < sort_rank d m" for m by fastforce
  with Cons show ?thesis by (simp add: rank_less)
qed (simp del: dropWhile_eq_Nil_conv)

lemma set_keep_last: "set (keep_last_of_runs xs) \<subseteq> set xs"
proof (induction xs rule: keep_last_of_runs.induct)
  case (2 l ls)
  have "last (l # takeWhile (\<lambda>n. lpx n = lpx l) ls) \<in> set (l # ls)"
    by (rule last_takeWhile_in)
  with 2 show ?case by (auto dest: set_dropWhileD)
qed simp

lemma keep_last_correct:
  "sorted (map (sort_rank d) xs) \<Longrightarrow>
     best_first d (keep_last_of_runs xs) \<and> depth (keep_last_of_runs xs) = last_at xs"
proof (induction xs rule: keep_last_of_runs.induct)
  case (2 l ls)
  let ?run = "takeWhile (\<lambda>n. lpx n = lpx l) ls" and ?rest = "dropWhile (\<lambda>n. lpx n = lpx l) ls"
  let ?m = "last (l # ?run)"
  have run: "\<forall>n\<in>set ?run. lpx n = lpx l" by (auto dest: set_takeWhileD)
  have "?m \<in> set (l # ?run)" by (rule last_in_set) simp
  with run have m: "lpx ?m = lpx l" by (metis set_ConsD)
  have rest: "\<forall>n\<in>set ?rest. Better d (lpx l) (lpx n)" using "2.prems" by (rule sorted_run_rest)
  have "sorted (map (sort_rank d) ?rest)"
    using "2.prems" by (rule sorted_map_dropWhile)
  with "2.IH" have IH: "best_first d (keep_last_of_runs ?rest)" "depth (keep_last_of_runs ?rest) = last_at ?rest"
    by simp_all
  have "last_at (l # ls) = last_at (l # ?run) ++ last_at ?rest"
    by (metis append_Cons last_at_simps(2) takeWhile_dropWhile_id)
  moreover have "last_at ?rest (lpx l) = None"
    using rest price.before_neq by (intro last_at_None) force
  ultimately have "depth (?m # keep_last_of_runs ?rest) = last_at (l # ls)"
    using m last_at_run [OF run] IH by (auto simp: fun_eq_iff map_add_def split: option.splits)
  with IH(1) m rest set_keep_last [of ?rest] show ?case by auto
qed simp

lemma SortBestFirstLastWins_correct:
  "best_first d (SortBestFirstLastWins d v) \<and> depth (SortBestFirstLastWins d v) = last_at v"
proof -
  have "sorted (map (sort_rank d) (stable_sort d v))" by (simp add: stable_sort_def)
  from keep_last_correct [OF this] show ?thesis
    by (simp add: SortBestFirstLastWins_def last_at_stable_sort)
qed

lemma set_SortBestFirstLastWins: "set (SortBestFirstLastWins d v) \<subseteq> set v"
  using set_keep_last [of "stable_sort d v"] by (simp add: SortBestFirstLastWins_def stable_sort_def)


section \<open>The class invariant\<close>

definition valid_level :: "Level \<Rightarrow> bool" where
  "valid_level l \<longleftrightarrow> 0 < lpx l \<and> 0 \<le> lqty l"

definition positive_level :: "Level \<Rightarrow> bool" where
  "positive_level l \<longleftrightarrow> 0 < lpx l \<and> 0 < lqty l"

lemma invariant_from_iff:
  "invariant_from d prev ls \<longleftrightarrow>
     list_all positive_level ls \<and> best_first d ls \<and>
     (case prev of None \<Rightarrow> True | Some p \<Rightarrow> \<forall>l\<in>set ls. Better d (lpx p) (lpx l))"
proof (induction ls arbitrary: prev)
  case (Cons l ls)
  have "Better d p (lpx l) \<Longrightarrow> \<forall>m\<in>set ls. Better d (lpx l) (lpx m) \<Longrightarrow> \<forall>m\<in>set ls. Better d p (lpx m)" for p
    using price.before_trans by blast
  then show ?case using Cons.IH [of "Some l"] by (cases prev) (auto simp: positive_level_def)
qed (simp split: option.splits)

lemma Invariant_iff:
  "Invariant d b \<longleftrightarrow> list_all positive_level (sb_levels b) \<and> best_first d (sb_levels b)"
  by (simp add: Invariant_def invariant_from_iff)

lemma put_level_positive:
  "list_all positive_level ls \<Longrightarrow> 0 < px \<Longrightarrow> 0 \<le> qty \<Longrightarrow> list_all positive_level (put_level d px qty ls)"
  by (induction ls) (auto simp: positive_level_def)

lemma Apply_Invariant: "Invariant d b \<Longrightarrow> 0 < px \<Longrightarrow> 0 \<le> qty \<Longrightarrow> Invariant d (Apply d b px qty)"
  by (simp add: Invariant_iff Apply_def apply_level_put put_level_positive best_first_put)

lemma foldl_Apply_levels:
  "sb_levels (foldl (\<lambda>b l. Apply d b (lpx l) (lqty l)) b deltas) = apply_all d (sb_levels b) deltas"
  by (induction deltas arbitrary: b) (simp_all add: apply_all_def Apply_def)

lemma merge_path_eq:
  assumes "best_first d ls"
  shows "merge_deltas d ls (SortBestFirstLastWins d deltas) = apply_all d ls deltas"
proof (rule best_first_unique)
  note sort = SortBestFirstLastWins_correct [of d deltas]
  show "best_first d (merge_deltas d ls (SortBestFirstLastWins d deltas))"
    using assms sort by (simp add: merge_deltas_best_first)
  show "best_first d (apply_all d ls deltas)" using assms by (simp add: apply_all_correct)
  show "depth (merge_deltas d ls (SortBestFirstLastWins d deltas)) = depth (apply_all d ls deltas)"
    using assms sort by (simp add: merge_deltas_depth apply_all_correct)
qed

lemma ApplyBatch_levels:
  "best_first d (sb_levels b) \<Longrightarrow> sb_levels (fst (ApplyBatch d b deltas)) = apply_all d (sb_levels b) deltas"
  by (simp add: ApplyBatch_def foldl_Apply_levels merge_path_eq apply_all_def Let_def)

lemma apply_all_positive:
  "list_all positive_level ls \<Longrightarrow> list_all valid_level deltas \<Longrightarrow>
     list_all positive_level (apply_all d ls deltas)"
  unfolding apply_all_def apply_level_put
  by (induction deltas arbitrary: ls) (simp_all add: valid_level_def put_level_positive)

lemma Replace_levels:
  "best_first d (sb_levels (Replace d b ls)) \<and>
   depth (sb_levels (Replace d b ls)) = amend Map.empty (last_at ls)"
  using SortBestFirstLastWins_correct [of d ls] by (simp add: Replace_def best_first_filter depth_filter [of d])

lemma Replace_positive:
  "list_all valid_level ls \<Longrightarrow> list_all positive_level (sb_levels (Replace d b ls))"
  using set_SortBestFirstLastWins [of d ls]
  by (fastforce simp: Replace_def list_all_iff valid_level_def positive_level_def)

section \<open>The interface of a side\<close>

text \<open>
  What the rest of the program relies on: a side can be amended by a list of changes or replaced
  by a snapshot, and its view is the map those changes describe.
\<close>

definition view_step :: "(Px \<rightharpoonup> Qty) \<Rightarrow> bool \<times> Level list \<Rightarrow> (Px \<rightharpoonup> Qty)" where
  "view_step m u = amend (if fst u then Map.empty else m) (last_at (snd u))"

locale book_side =
  fixes inv :: "'s \<Rightarrow> bool"
    and view :: "'s \<Rightarrow> (Px \<rightharpoonup> Qty)"
    and amend_by :: "'s \<Rightarrow> Level list \<Rightarrow> 's"
    and reset_to :: "'s \<Rightarrow> Level list \<Rightarrow> 's"
  assumes amend_inv: "inv s \<Longrightarrow> list_all valid_level ls \<Longrightarrow> inv (amend_by s ls)"
    and amend_view: "inv s \<Longrightarrow> view (amend_by s ls) = amend (view s) (last_at ls)"
    and reset_inv: "list_all valid_level ls \<Longrightarrow> inv (reset_to s ls)"
    and reset_view: "view (reset_to s ls) = amend Map.empty (last_at ls)"
begin

definition side_step :: "'s \<Rightarrow> bool \<times> Level list \<Rightarrow> 's" where
  "side_step s u = (if fst u then reset_to s (snd u) else amend_by s (snd u))"

lemma side_step_refines:
  "inv s \<Longrightarrow> list_all valid_level (snd u) \<Longrightarrow>
     inv (side_step s u) \<and> view (side_step s u) = view_step (view s) u"
  by (simp add: side_step_def view_step_def amend_inv amend_view reset_inv reset_view)

lemma feed_refines:
  "inv s \<Longrightarrow> list_all (\<lambda>u. list_all valid_level (snd u)) us \<Longrightarrow>
     inv (foldl side_step s us) \<and> view (foldl side_step s us) = foldl view_step (view s) us"
proof (induction us arbitrary: s)
  case (Cons u us)
  then show ?case using side_step_refines [of s u] Cons.IH [of "side_step s u"] by simp
qed simp

lemma snapshot_forgets:
  "inv s \<Longrightarrow> inv t \<Longrightarrow> list_all (\<lambda>u. list_all valid_level (snd u)) ((True, ls) # us) \<Longrightarrow>
     view (foldl side_step s ((True, ls) # us)) = view (foldl side_step t ((True, ls) # us))"
  using feed_refines [of s "(True, ls) # us"] feed_refines [of t "(True, ls) # us"]
  by (simp add: view_step_def)

end

interpretation side: book_side "Invariant d" "\<lambda>b. depth (sb_levels b)"
  "\<lambda>b ls. fst (ApplyBatch d b ls)" "Replace d" for d
  by unfold_locales
    (auto simp: Invariant_iff ApplyBatch_levels apply_all_positive apply_all_correct
       Replace_levels Replace_positive)


section \<open>A venue's book\<close>

definition book_ok :: "VenueBook \<Rightarrow> bool" where
  "book_ok b \<longleftrightarrow> Invariant True (vb_bids b) \<and> Invariant False (vb_asks b)"

definition update_ok :: "'a FeedUpdateLevels_scheme \<Rightarrow> bool" where
  "update_ok u \<longleftrightarrow> list_all valid_level (fu_bids u) \<and> list_all valid_level (fu_asks u)"

definition book_depth :: "VenueBook \<Rightarrow> (Px \<rightharpoonup> Qty) \<times> (Px \<rightharpoonup> Qty)" where
  "book_depth b = (depth (sb_levels (vb_bids b)), depth (sb_levels (vb_asks b)))"

definition depth_step ::
  "(Px \<rightharpoonup> Qty) \<times> (Px \<rightharpoonup> Qty) \<Rightarrow> 'a FeedUpdateLevels_scheme \<Rightarrow> (Px \<rightharpoonup> Qty) \<times> (Px \<rightharpoonup> Qty)" where
  "depth_step m u = (view_step (fst m) (is_snapshot u, fu_bids u), view_step (snd m) (is_snapshot u, fu_asks u))"

lemma book_ok_empty [simp]: "book_ok empty_book"
  by (simp add: book_ok_def empty_book_def empty_side_def Invariant_def)

lemma ApplyFeedUpdate_sides:
  "ApplyFeedUpdate b u = b\<lparr>vb_bids := side.side_step True (vb_bids b) (is_snapshot u, fu_bids u),
                          vb_asks := side.side_step False (vb_asks b) (is_snapshot u, fu_asks u)\<rparr>"
  by (simp add: ApplyFeedUpdate_def side.side_step_def)

lemma ApplyFeedUpdate_refines:
  "book_ok b \<Longrightarrow> update_ok u \<Longrightarrow>
     book_ok (ApplyFeedUpdate b u) \<and> book_depth (ApplyFeedUpdate b u) = depth_step (book_depth b) u"
  using side.side_step_refines [of True "vb_bids b" "(is_snapshot u, fu_bids u)"]
    side.side_step_refines [of False "vb_asks b" "(is_snapshot u, fu_asks u)"]
  by (simp add: ApplyFeedUpdate_sides book_ok_def update_ok_def book_depth_def depth_step_def)

lemma feed_run_refines:
  "book_ok b \<Longrightarrow> list_all update_ok us \<Longrightarrow>
     book_ok (foldl ApplyFeedUpdate b us) \<and> book_depth (foldl ApplyFeedUpdate b us) = foldl depth_step (book_depth b) us"
proof (induction us arbitrary: b)
  case (Cons u us)
  then show ?case using ApplyFeedUpdate_refines [of b u] Cons.IH [of "ApplyFeedUpdate b u"] by simp
qed simp

section \<open>Properties\<close>

text \<open>C18: the linear merge that large batches take gives exactly the levels that applying the
  changes one by one gives, so the threshold only decides speed; both leave the side amended by
  the last entry for every price, with zero quantities removing the level.\<close>

theorem ApplyBatch_eq_Apply:
  assumes "Invariant d b"
  shows "sb_levels (fst (ApplyBatch d b deltas)) =
           sb_levels (foldl (\<lambda>b level. Apply d b (lpx level) (lqty level)) b deltas) \<and>
         depth (sb_levels (fst (ApplyBatch d b deltas))) = amend (depth (sb_levels b)) (last_at deltas)"
proof -
  from assms have "best_first d (sb_levels b)" by (simp add: Invariant_iff)
  then show ?thesis by (simp add: ApplyBatch_levels foldl_Apply_levels apply_all_correct)
qed

definition sample_side :: SideBook where
  "sample_side = \<lparr>sb_levels = [\<lparr>lpx = 103, lqty = 5\<rparr>, \<lparr>lpx = 101, lqty = 7\<rparr>], sb_scratch = []\<rparr>"

definition sample_deltas :: "Level list" where
  "sample_deltas = map (\<lambda>(p, q). \<lparr>lpx = p, lqty = q\<rparr>)
     [(101, 0), (104, 1), (99, 2), (103, 6), (98, 0), (97, 3), (104, 4), (100, 9)]"

theorem ApplyBatch_eq_Apply_witness:
  "sb_levels (fst (ApplyBatch True sample_side sample_deltas)) =
     sb_levels (foldl (\<lambda>b level. Apply True b (lpx level) (lqty level)) sample_side sample_deltas) \<and>
   map lpx (sb_levels (fst (ApplyBatch True sample_side sample_deltas))) = [104, 103, 100, 99, 97]"
proof -
  have "Invariant True sample_side" by code_simp
  moreover have "map lpx (sb_levels (fst (ApplyBatch True sample_side sample_deltas))) = [104, 103, 100, 99, 97]"
    by code_simp
  ultimately show ?thesis using ApplyBatch_eq_Apply [of True sample_side sample_deltas] by blast
qed

text \<open>C13: from any well-formed venue book, every sequence of feed updates with positive prices and
  non-negative quantities keeps both sides strictly best-first with positive prices and
  quantities, and the book is the one the updates describe: a snapshot replaces the side, a
  delta amends it.\<close>

theorem ApplyFeedUpdate_run:
  assumes "book_ok b" "list_all update_ok us"
  shows "Invariant True (vb_bids (foldl ApplyFeedUpdate b us)) \<and>
         Invariant False (vb_asks (foldl ApplyFeedUpdate b us)) \<and>
         book_depth (foldl ApplyFeedUpdate b us) = foldl depth_step (book_depth b) us"
  using feed_run_refines [OF assms] by (simp add: book_ok_def)

definition sample_feed :: "FeedUpdateLevels list" where
  "sample_feed =
     [\<lparr>is_snapshot = True, fu_bids = [\<lparr>lpx = 100, lqty = 1\<rparr>, \<lparr>lpx = 102, lqty = 2\<rparr>],
       fu_asks = [\<lparr>lpx = 105, lqty = 3\<rparr>]\<rparr>,
      \<lparr>is_snapshot = False, fu_bids = [\<lparr>lpx = 102, lqty = 0\<rparr>],
       fu_asks = [\<lparr>lpx = 104, lqty = 8\<rparr>]\<rparr>]"

theorem ApplyFeedUpdate_run_witness:
  "Invariant True (vb_bids (foldl ApplyFeedUpdate empty_book sample_feed)) \<and>
   map lpx (sb_levels (vb_asks (foldl ApplyFeedUpdate empty_book sample_feed))) = [104, 105]"
proof -
  have "list_all update_ok sample_feed" by code_simp
  moreover have "map lpx (sb_levels (vb_asks (foldl ApplyFeedUpdate empty_book sample_feed))) = [104, 105]"
    by code_simp
  ultimately show ?thesis using ApplyFeedUpdate_run [OF book_ok_empty] by blast
qed

end
