(* ===== verification/Consolidated.thy ===== *)
theory Consolidated
  imports Book
begin

text \<open>
  The consolidated ladder (\<^verbatim>\<open>src/core/consolidated.h\<close>, \<^verbatim>\<open>src/core/consolidated.cc\<close>): a
  k-way merge of the venues' sides with one cursor per venue, cut off by a level count, by a
  distance from the touch and by a cumulative notional. The reference is the full ladder: every
  price of any venue once, best first, with the quantities of all venues summed.
\<close>

section \<open>Data\<close>

definition kMaxVenues :: nat where
  "kMaxVenues = 3"

record MergedLevel =
  mpx :: Px
  mqty :: Qty

record VenueTouch =
  vt_venue :: string
  vt_qty :: Qty

record VenueClockInfo =
  vc_name :: string
  vc_last_recv_ts_ns :: i64
  vc_last_exchange_ts_ns :: i64
  vc_bid_levels :: nat
  vc_ask_levels :: nat
  vc_best_bid :: Px
  vc_best_ask :: Px

record ConsolidatedBook =
  cb_sequence :: u64
  cb_publish_ts_ns :: i64
  cb_ingest_recv_ts_ns :: i64
  cb_instrument :: string
  cb_contributing :: "string list"
  cb_stale :: "string list"
  cb_clocks :: "VenueClockInfo list"
  cb_bids :: "MergedLevel list"
  cb_asks :: "MergedLevel list"
  cb_bid_touch :: "VenueTouch list"
  cb_ask_touch :: "VenueTouch list"
  cb_bids_truncated :: bool
  cb_asks_truncated :: bool

text \<open>\<open>Reset\<close> puts every field back to the value of a freshly constructed book.\<close>

definition empty_consolidated :: ConsolidatedBook where
  "empty_consolidated =
     \<lparr>cb_sequence = 0, cb_publish_ts_ns = 0, cb_ingest_recv_ts_ns = 0, cb_instrument = [],
      cb_contributing = [], cb_stale = [], cb_clocks = [], cb_bids = [], cb_asks = [],
      cb_bid_touch = [], cb_ask_touch = [], cb_bids_truncated = False, cb_asks_truncated = False\<rparr>"

definition Reset_consolidated :: "ConsolidatedBook \<Rightarrow> ConsolidatedBook" where
  "Reset_consolidated b =
     b\<lparr>cb_sequence := 0, cb_publish_ts_ns := 0, cb_ingest_recv_ts_ns := 0, cb_instrument := [],
       cb_contributing := [], cb_stale := [], cb_clocks := [], cb_bids := [], cb_asks := [],
       cb_bid_touch := [], cb_ask_touch := [], cb_bids_truncated := False, cb_asks_truncated := False\<rparr>"

record MergeLimits =
  notional_target_e8 :: Wide
  max_bps_from_touch_e8 :: i64
  max_levels :: int

definition default_limits :: MergeLimits where
  "default_limits = \<lparr>notional_target_e8 = 0, max_bps_from_touch_e8 = 0, max_levels = 4096\<rparr>"

record VenueSideInput =
  venue_index :: nat
  in_levels :: "Level list"

section \<open>The merge\<close>

text \<open>
  The cursors are a list aligned with the inputs. \<open>pick_best\<close> is the scan over the cursor
  heads; \<open>consume_at\<close> takes every venue that sits at the chosen price, summing the
  quantities in 64 bits; \<open>any_left\<close> is the scan that decides whether the notional cut lost
  anything.
\<close>

fun pick_best :: "bool \<Rightarrow> (VenueSideInput \<times> nat) list \<Rightarrow> Px option \<Rightarrow> Px option" where
  "pick_best descending [] best = best"
| "pick_best descending ((inp, cursor) # rest) best =
     (if cursor \<ge> length (in_levels inp) then pick_best descending rest best
      else let candidate = lpx (in_levels inp ! cursor)
           in pick_best descending rest
                (case best of
                   None \<Rightarrow> Some candidate
                 | Some b \<Rightarrow> if Better descending candidate b then Some candidate else best))"

fun consume_at :: "Px \<Rightarrow> (VenueSideInput \<times> nat) list \<Rightarrow> Qty \<Rightarrow> nat list \<times> Qty" where
  "consume_at best [] qty = ([], qty)"
| "consume_at best ((inp, cursor) # rest) qty =
     (if cursor \<ge> length (in_levels inp) \<or> lpx (in_levels inp ! cursor) \<noteq> best
      then let (cs, q) = consume_at best rest qty in (cursor # cs, q)
      else let (cs, q) = consume_at best rest (wrap64 (qty + lqty (in_levels inp ! cursor)))
           in (Suc cursor # cs, q))"

definition any_left :: "(VenueSideInput \<times> nat) list \<Rightarrow> bool" where
  "any_left ics = list_ex (\<lambda>(inp, cursor). cursor < length (in_levels inp)) ics"

definition remaining :: "(VenueSideInput \<times> nat) list \<Rightarrow> nat" where
  "remaining ics = sum_list (map (\<lambda>(inp, cursor). length (in_levels inp) - cursor) ics)"

lemma length_consume_at: "length (fst (consume_at best ics qty)) = length ics"
  by (induction best ics qty rule: consume_at.induct) (auto simp: split_beta Let_def)

lemma pick_best_head:
  "pick_best d ics best = Some p \<Longrightarrow>
     best = Some p \<or> (\<exists>(inp, c) \<in> set ics. c < length (in_levels inp) \<and> lpx (in_levels inp ! c) = p)"
proof (induction d ics best rule: pick_best.induct)
  case (2 d inp c rest best)
  then show ?case by (auto simp: Let_def split: if_splits option.splits)
qed simp

lemma remaining_consume_le: "remaining (zip (map fst ics) (fst (consume_at best ics qty))) \<le> remaining ics"
  by (induction best ics qty rule: consume_at.induct)
    (auto simp: remaining_def split_beta Let_def intro: add_mono)

lemma remaining_consume:
  "\<exists>(inp, c) \<in> set ics. c < length (in_levels inp) \<and> lpx (in_levels inp ! c) = best \<Longrightarrow>
     remaining (zip (map fst ics) (fst (consume_at best ics qty))) < remaining ics"
proof (induction best ics qty rule: consume_at.induct)
  case (2 best inp c rest qty)
  let ?taken = "\<not> (c \<ge> length (in_levels inp) \<or> lpx (in_levels inp ! c) \<noteq> best)"
  show ?case
  proof (cases ?taken)
    case True
    with remaining_consume_le [of rest best "wrap64 (qty + lqty (in_levels inp ! c))"] show ?thesis
      by (auto simp: remaining_def split_beta Let_def)
  next
    case False
    with 2 show ?thesis by (auto simp: remaining_def split_beta Let_def)
  qed
qed simp

lemma zip_consume_at:
  "zip inputs (fst (consume_at best (zip inputs cursor) qty)) =
     zip (map fst (zip inputs cursor)) (fst (consume_at best (zip inputs cursor) qty))"
  by (rule nth_equalityI) (auto simp: length_consume_at)

lemma remaining_after_consume:
  assumes "pick_best d (zip inputs cursor) None = Some best"
    and "(cursor', q) = consume_at best (zip inputs cursor) qty"
  shows "remaining (zip inputs cursor') < remaining (zip inputs cursor)"
proof -
  have "cursor' = fst (consume_at best (zip inputs cursor) qty)" using assms(2) by (metis fst_conv)
  then show ?thesis
    using remaining_consume [of "zip inputs cursor" best qty] pick_best_head [OF assms(1)]
    by (simp add: zip_consume_at)
qed

text \<open>
  One iteration per published level. \<open>bound\<close> is \<open>None\<close> until the first level has been
  found. \<open>max_levels\<close> is converted to an unsigned 64-bit value before the comparison.
\<close>

function merge_loop ::
  "bool \<Rightarrow> VenueSideInput list \<Rightarrow> MergeLimits \<Rightarrow> nat list \<Rightarrow> MergedLevel list \<Rightarrow> Wide \<Rightarrow> Px option
     \<Rightarrow> MergedLevel list \<times> bool" where
  "merge_loop descending inputs limits cursor out cumulative_notional bound =
     (case pick_best descending (zip inputs cursor) None of
        None \<Rightarrow> (out, False)
      | Some best \<Rightarrow>
          if int (length out) \<ge> max_levels limits mod 2 ^ 64 then (out, True)
          else
            let bound' = (if max_bps_from_touch_e8 limits > 0 then
                            (case bound of
                               None \<Rightarrow> Some (OffsetByBpsOutward best (max_bps_from_touch_e8 limits) descending)
                             | Some b \<Rightarrow> Some b)
                          else bound);
                inside = (max_bps_from_touch_e8 limits > 0 \<longrightarrow>
                            (if descending then best \<ge> the bound' else best \<le> the bound'))
            in if \<not> inside then (out, True)
               else
                 let (cursor', qty) = consume_at best (zip inputs cursor) 0;
                     level = \<lparr>mpx = best, mqty = qty\<rparr>;
                     out' = out @ [level];
                     cumulative' = cumulative_notional + NotionalWide (mpx level) (mqty level)
                 in if notional_target_e8 limits > 0 \<and> cumulative' \<ge> notional_target_e8 limits
                    then (out', any_left (zip inputs cursor'))
                    else merge_loop descending inputs limits cursor' out' cumulative' bound')"
  by pat_completeness auto
termination
  by (relation "measure (\<lambda>(_, inputs, _, cursor, _). remaining (zip inputs cursor))")
    (auto dest: remaining_after_consume)

declare merge_loop.simps [simp del]

text \<open>\<open>None\<close>: the assertion on the number of inputs fails.\<close>

definition MergeSide ::
  "bool \<Rightarrow> VenueSideInput list \<Rightarrow> MergeLimits \<Rightarrow> (MergedLevel list \<times> bool) option" where
  "MergeSide descending inputs limits =
     (if length inputs > kMaxVenues then None
      else Some (merge_loop descending inputs limits (replicate (length inputs) 0) [] 0 None))"


section \<open>The full ladder\<close>

definition qty_at :: "Level list \<Rightarrow> Px \<Rightarrow> Qty" where
  "qty_at ls px = (case depth ls px of None \<Rightarrow> 0 | Some q \<Rightarrow> q)"

definition total_at :: "Level list list \<Rightarrow> Px \<Rightarrow> int" where
  "total_at sides px = sum_list (map (\<lambda>ls. qty_at ls px) sides)"

definition prices :: "Level list list \<Rightarrow> Px set" where
  "prices sides = (\<Union>ls \<in> set sides. lpx ` set ls)"

definition ladder_prices :: "bool \<Rightarrow> Level list list \<Rightarrow> Px list" where
  "ladder_prices d sides =
     (if d then rev (sorted_list_of_set (prices sides)) else sorted_list_of_set (prices sides))"

definition full_ladder :: "bool \<Rightarrow> Level list list \<Rightarrow> MergedLevel list" where
  "full_ladder d sides = map (\<lambda>px. \<lparr>mpx = px, mqty = wrap64 (total_at sides px)\<rparr>) (ladder_prices d sides)"

lemma finite_prices [simp]: "finite (prices sides)"
  by (simp add: prices_def)

lemma set_ladder_prices [simp]: "set (ladder_prices d sides) = prices sides"
  by (simp add: ladder_prices_def)

lemma sorted_ladder_prices: "sorted_wrt (Better d) (ladder_prices d sides)"
proof -
  have "Better False = (<)" "Better True = (\<lambda>x y. y < x)" by (simp_all add: Better_def fun_eq_iff)
  then show ?thesis using strict_sorted_list_of_set [of "prices sides"]
    by (cases d) (simp_all add: ladder_prices_def sorted_wrt_rev)
qed

lemma sorted_unique:
  assumes "sorted_wrt (Better d) xs" "sorted_wrt (Better d) ys" "set xs = set ys"
  shows "xs = ys"
proof -
  have "map_of (map (\<lambda>x. (x, ())) xs) = map_of (map (\<lambda>x. (x, ())) ys)"
    using assms(3) by (auto simp: map_of_map_restrict restrict_map_def fun_eq_iff)
  with assms(1,2) have "map (\<lambda>x. (x, ())) xs = map (\<lambda>x. (x, ())) ys"
    by (intro price.ladder_unique [of d]) (simp_all add: comp_def)
  then show ?thesis by (simp add: map_injective inj_on_def)
qed

section \<open>Cursors as unread suffixes\<close>

definition tail_of :: "VenueSideInput \<times> nat \<Rightarrow> Level list" where
  "tail_of ic = drop (snd ic) (in_levels (fst ic))"

abbreviation tails :: "(VenueSideInput \<times> nat) list \<Rightarrow> Level list list" where
  "tails ics \<equiv> map tail_of ics"

definition at_head :: "Px \<Rightarrow> Level list \<Rightarrow> bool" where
  "at_head px ls \<longleftrightarrow> ls \<noteq> [] \<and> lpx (hd ls) = px"

definition pop_at :: "Px \<Rightarrow> Level list \<Rightarrow> Level list" where
  "pop_at px ls = (if at_head px ls then tl ls else ls)"

lemma tail_of_simps:
  "c < length (in_levels inp) \<longleftrightarrow> tail_of (inp, c) \<noteq> []"
  "c < length (in_levels inp) \<Longrightarrow> in_levels inp ! c = hd (tail_of (inp, c))"
  "tail_of (inp, Suc c) = tl (tail_of (inp, c))"
  by (auto simp: tail_of_def hd_drop_conv_nth drop_Suc tl_drop)

lemma any_left_tails: "any_left ics \<longleftrightarrow> (\<exists>ls\<in>set (tails ics). ls \<noteq> [])"
  by (induction ics) (auto simp: any_left_def tail_of_def)

lemma pick_best_spec:
  "(case pick_best d ics best of
      None \<Rightarrow> best = None \<and> (\<forall>ls\<in>set (tails ics). ls = [])
    | Some p \<Rightarrow> (best = Some p \<or> (\<exists>ls\<in>set (tails ics). at_head p ls)) \<and>
                (\<forall>b. best = Some b \<longrightarrow> \<not> Better d b p) \<and>
                (\<forall>ls\<in>set (tails ics). ls \<noteq> [] \<longrightarrow> \<not> Better d (lpx (hd ls)) p))"
proof (induction d ics best rule: pick_best.induct)
  case (2 d inp c rest best)
  show ?case
  proof (cases "c < length (in_levels inp)")
    case False
    with 2 have "tail_of (inp, c) = []" by (simp add: tail_of_def)
    with 2 False show ?thesis by (auto simp: at_head_def split: option.splits)
  next
    case True
    let ?x = "lpx (in_levels inp ! c)"
    let ?best = "case best of None \<Rightarrow> Some ?x | Some b \<Rightarrow> if Better d ?x b then Some ?x else best"
    have tail: "tail_of (inp, c) \<noteq> []" "lpx (hd (tail_of (inp, c))) = ?x"
      using True by (simp_all add: tail_of_simps)
    have eq: "pick_best d ((inp, c) # rest) best = pick_best d rest ?best"
      using True by (simp add: Let_def)
    have IH: "case pick_best d rest ?best of
        None \<Rightarrow> ?best = None \<and> (\<forall>ls\<in>set (tails rest). ls = [])
      | Some p \<Rightarrow> (?best = Some p \<or> (\<exists>ls\<in>set (tails rest). at_head p ls)) \<and>
                  (\<forall>b. ?best = Some b \<longrightarrow> \<not> Better d b p) \<and>
                  (\<forall>ls\<in>set (tails rest). ls \<noteq> [] \<longrightarrow> \<not> Better d (lpx (hd ls)) p)"
      using "2.IH"(2) True by (simp add: Let_def)
    have best': "\<exists>b. ?best = Some b \<and> (b = ?x \<or> best = Some b) \<and> \<not> Better d ?x b \<and>
        (\<forall>b0. best = Some b0 \<longrightarrow> \<not> Better d b0 b)"
      by (auto simp: price.before_irrefl dest: price.before_asym split: option.splits)
    then obtain b where b: "?best = Some b" "b = ?x \<or> best = Some b" "\<not> Better d ?x b"
      "\<forall>b0. best = Some b0 \<longrightarrow> \<not> Better d b0 b" by blast
    obtain p where p: "pick_best d rest ?best = Some p" using IH b(1) by (cases "pick_best d rest ?best") auto
    have worse: "\<not> Better d y b \<Longrightarrow> \<not> Better d b p \<Longrightarrow> \<not> Better d y p" for y
      using price.before_total [of y b d] price.before_total [of b p d] price.before_trans by blast
    show ?thesis unfolding eq p
      using IH b p tail worse by (auto simp: at_head_def)
  qed
qed (auto simp: price.before_irrefl split: option.splits)


lemma consume_at_tails:
  "tails (zip (map fst ics) (fst (consume_at p ics qty))) = map (pop_at p) (tails ics)"
proof (induction p ics qty rule: consume_at.induct)
  case (2 p inp c rest qty)
  let ?taken = "\<not> (c \<ge> length (in_levels inp) \<or> lpx (in_levels inp ! c) \<noteq> p)"
  have head: "?taken \<longleftrightarrow> at_head p (tail_of (inp, c))"
    by (auto simp: at_head_def tail_of_simps not_le)
  with 2 show ?case by (cases ?taken) (auto simp: split_beta Let_def pop_at_def tail_of_simps(3))
qed simp

definition head_qty :: "Px \<Rightarrow> Level list \<Rightarrow> Qty" where
  "head_qty p ls = (if at_head p ls then lqty (hd ls) else 0)"

lemma consume_at_qty:
  "in_i64 qty \<Longrightarrow> snd (consume_at p ics qty) = wrap64 (qty + sum_list (map (head_qty p) (tails ics)))"
proof (induction p ics qty rule: consume_at.induct)
  case (2 p inp c rest qty)
  let ?taken = "\<not> (c \<ge> length (in_levels inp) \<or> lpx (in_levels inp ! c) \<noteq> p)"
  have head: "?taken \<longleftrightarrow> at_head p (tail_of (inp, c))"
    by (auto simp: at_head_def tail_of_simps not_le)
  show ?case
  proof (cases ?taken)
    case True
    then have "in_levels inp ! c = hd (tail_of (inp, c))" by (simp add: tail_of_simps not_le)
    with 2 True head show ?thesis
      by (simp add: split_beta Let_def head_qty_def wrap64_add_left add.assoc)
  next
    case False
    with 2 head show ?thesis by (auto simp: split_beta Let_def head_qty_def)
  qed
qed simp

section \<open>One level of the merge\<close>

lemma best_first_tail: "best_first d ls \<Longrightarrow> best_first d (drop n ls)"
  by (simp add: best_first_def drop_map [symmetric] sorted_wrt_drop)

lemma best_first_pop: "best_first d ls \<Longrightarrow> best_first d (pop_at p ls)"
  by (cases ls) (auto simp: pop_at_def)

definition best_head :: "bool \<Rightarrow> Level list list \<Rightarrow> Px \<Rightarrow> bool" where
  "best_head d sides p \<longleftrightarrow>
     (\<exists>ls\<in>set sides. at_head p ls) \<and> (\<forall>ls\<in>set sides. ls \<noteq> [] \<longrightarrow> \<not> Better d (lpx (hd ls)) p)"

lemma pop_at_side:
  assumes "best_first d ls" "ls \<noteq> [] \<longrightarrow> \<not> Better d (lpx (hd ls)) p"
  shows "\<forall>l\<in>set (pop_at p ls). Better d p (lpx l)"
    and "lpx ` set (pop_at p ls) = lpx ` set ls - {p}"
    and "qty_at ls p = head_qty p ls"
    and "x \<noteq> p \<Longrightarrow> qty_at (pop_at p ls) x = qty_at ls x"
proof -
  show beyond: "\<forall>l\<in>set (pop_at p ls). Better d p (lpx l)"
  proof (cases ls)
    case (Cons m ms)
    show ?thesis
    proof (cases "lpx m = p")
      case True
      with assms(1) Cons show ?thesis by (auto simp: pop_at_def at_head_def)
    next
      case False
      then have "Better d p (lpx m)" using assms(2) Cons price.before_total [of p "lpx m" d] by auto
      then have "Better d p (lpx l)" if "l \<in> set ls" for l
        using that assms(1) Cons price.before_trans [of d p "lpx m" "lpx l"] by auto
      then show ?thesis using False Cons by (auto simp: pop_at_def at_head_def)
    qed
  qed (simp add: pop_at_def)
  then have "p \<notin> lpx ` set (pop_at p ls)" using price.before_irrefl by force
  moreover have "lpx ` set (pop_at p ls) - {p} = lpx ` set ls - {p}"
    by (cases ls) (auto simp: pop_at_def at_head_def)
  ultimately show "lpx ` set (pop_at p ls) = lpx ` set ls - {p}" by blast
  show "qty_at ls p = head_qty p ls"
    using depth_beyond [OF beyond] by (cases ls) (auto simp: qty_at_def head_qty_def pop_at_def at_head_def)
  show "qty_at (pop_at p ls) x = qty_at ls x" if "x \<noteq> p"
    using that by (cases ls) (auto simp: qty_at_def pop_at_def at_head_def)
qed

lemma full_ladder_step:
  assumes sorted: "\<forall>ls\<in>set sides. best_first d ls" and head: "best_head d sides p"
  shows "full_ladder d sides =
           \<lparr>mpx = p, mqty = wrap64 (sum_list (map (head_qty p) sides))\<rparr> #
           full_ladder d (map (pop_at p) sides)"
proof -
  have side: "best_first d ls" "ls \<noteq> [] \<longrightarrow> \<not> Better d (lpx (hd ls)) p" if "ls \<in> set sides" for ls
    using that assms by (auto simp: best_head_def)
  have rest: "prices (map (pop_at p) sides) = prices sides - {p}"
    using pop_at_side(2) [OF side] by (auto simp: prices_def)
  have "p \<in> prices sides"
    using head by (fastforce simp: best_head_def prices_def at_head_def intro: hd_in_set)
  moreover have "\<forall>x\<in>prices (map (pop_at p) sides). Better d p x"
    using pop_at_side(1) [OF side] by (auto simp: prices_def)
  ultimately have "ladder_prices d sides = p # ladder_prices d (map (pop_at p) sides)"
    using rest by (intro sorted_unique [of d]) (auto simp: sorted_ladder_prices)
  moreover have "total_at sides p = sum_list (map (head_qty p) sides)"
    unfolding total_at_def using pop_at_side(3) [OF side] by (simp cong: map_cong)
  moreover have "total_at (map (pop_at p) sides) x = total_at sides x" if "x \<noteq> p" for x
    unfolding total_at_def using pop_at_side(4) [OF side(1) side(2) that]
    by (auto simp: comp_def cong: map_cong)
  ultimately show ?thesis using rest by (auto simp: full_ladder_def)
qed

lemma full_ladder_empty: "full_ladder d sides = [] \<longleftrightarrow> (\<forall>ls\<in>set sides. ls = [])"
proof -
  have "full_ladder d sides = [] \<longleftrightarrow> ladder_prices d sides = []" by (simp add: full_ladder_def)
  also have "\<dots> \<longleftrightarrow> prices sides = {}" by (metis set_empty set_ladder_prices)
  finally show ?thesis by (auto simp: prices_def)
qed

section \<open>Merging, then cutting\<close>

text \<open>What the limits keep of a ladder: the reference for the loop, on the merged ladder.\<close>

fun publish_cut :: "bool \<Rightarrow> MergeLimits \<Rightarrow> nat \<Rightarrow> Wide \<Rightarrow> Px option \<Rightarrow> MergedLevel list \<Rightarrow> MergedLevel list" where
  "publish_cut d limits n cum bound [] = []"
| "publish_cut d limits n cum bound (l # ls) =
     (let edge = (case bound of
                    None \<Rightarrow> OffsetByBpsOutward (mpx l) (max_bps_from_touch_e8 limits) d
                  | Some b \<Rightarrow> b);
          cum' = cum + NotionalWide (mpx l) (mqty l)
      in if int n \<ge> max_levels limits mod 2 ^ 64 then []
         else if max_bps_from_touch_e8 limits > 0 \<and> Better d edge (mpx l) then []
         else if notional_target_e8 limits > 0 \<and> cum' \<ge> notional_target_e8 limits then [l]
         else l # publish_cut d limits (Suc n) cum' (Some edge) ls)"

lemma publish_cut_prefix: "publish_cut d limits n cum bound ls = take (length (publish_cut d limits n cum bound ls)) ls"
  by (induction d limits n cum bound ls rule: publish_cut.induct) (simp_all add: Let_def)

lemma publish_cut_bound_unused:
  "\<not> max_bps_from_touch_e8 limits > 0 \<Longrightarrow>
     publish_cut d limits n cum bound ls = publish_cut d limits n cum bound' ls"
proof (induction ls arbitrary: n cum bound bound')
  case (Cons l ls)
  show ?case using Cons.prems by (simp add: Let_def) (use Cons.IH Cons.prems in blast)
qed simp

lemma merge_loop_cut:
  assumes "\<forall>ls\<in>set (tails (zip inputs cursor)). best_first d ls"
  shows "merge_loop d inputs limits cursor out cum bound =
           (let L = full_ladder d (tails (zip inputs cursor)); P = publish_cut d limits (length out) cum bound L
            in (out @ P, length P < length L))"
  using assms
proof (induction d inputs limits cursor out cum bound rule: merge_loop.induct)
  case (1 d inputs limits cursor out cum bound)
  let ?ics = "zip inputs cursor"
  let ?L = "full_ladder d (tails ?ics)"
  note spec = pick_best_spec [where d = d and ics = ?ics and best = None]
  show ?case
  proof (cases "pick_best d ?ics None")
    case None
    then have "?L = []" using spec by (simp add: full_ladder_empty)
    with None show ?thesis by (subst merge_loop.simps) simp
  next
    case (Some best)
    obtain cursor' qty where c: "consume_at best ?ics 0 = (cursor', qty)" by fastforce
    have tails': "tails (zip inputs cursor') = map (pop_at best) (tails ?ics)"
      using consume_at_tails [of ?ics best 0] zip_consume_at [of inputs best cursor 0] c by simp
    have sorted': "\<forall>ls\<in>set (tails (zip inputs cursor')). best_first d ls"
      unfolding tails' using "1.prems" best_first_pop by auto
    have head: "best_head d (tails ?ics) best" using spec Some by (simp add: best_head_def)
    let ?l = "\<lparr>mpx = best, mqty = qty\<rparr>"
    have L: "?L = ?l # full_ladder d (tails (zip inputs cursor'))"
      using full_ladder_step [OF "1.prems" head] consume_at_qty [of 0 best ?ics] c tails' by simp
    have left: "any_left (zip inputs cursor') \<longleftrightarrow> full_ladder d (tails (zip inputs cursor')) \<noteq> []"
      by (simp only: any_left_tails full_ladder_empty) blast
    let ?edge = "case bound of None \<Rightarrow> OffsetByBpsOutward best (max_bps_from_touch_e8 limits) d | Some b \<Rightarrow> b"
    let ?bps = "max_bps_from_touch_e8 limits > 0"
    let ?bound' = "if ?bps then (case bound of
        None \<Rightarrow> Some (OffsetByBpsOutward best (max_bps_from_touch_e8 limits) d) | Some b \<Rightarrow> Some b) else bound"
    have edge: "?bps \<Longrightarrow> ?bound' = Some ?edge" by (simp split: option.splits)
    have same: "publish_cut d limits m z ?bound' ls = publish_cut d limits m z (Some ?edge) ls" for m z ls
      using edge publish_cut_bound_unused [of limits d m z ?bound' ls "Some ?edge"] by (cases ?bps) simp_all
    have inside: "(?bps \<longrightarrow> (if d then best \<ge> the ?bound' else best \<le> the ?bound')) \<longleftrightarrow>
        \<not> (?bps \<and> Better d ?edge best)"
      using edge by (auto simp: Better_def)
    have IH: "merge_loop d inputs limits cursor' (out @ [?l]) (cum + NotionalWide best qty) ?bound' =
        (let L = full_ladder d (tails (zip inputs cursor'));
             P = publish_cut d limits (Suc (length out)) (cum + NotionalWide best qty) (Some ?edge) L
         in ((out @ [?l]) @ P, length P < length L))"
      if "\<not> int (length out) \<ge> max_levels limits mod 2 ^ 64" "\<not> (?bps \<and> Better d ?edge best)"
        "\<not> (notional_target_e8 limits > 0 \<and> cum + NotionalWide best qty \<ge> notional_target_e8 limits)"
      using "1.IH" [OF Some that(1) refl refl _ refl, of cursor' qty ?l] that(2,3) inside c sorted'
      by (simp add: same)
    show ?thesis
      using IH
      by (subst merge_loop.simps) (simp only: Some option.case Let_def c prod.case inside L publish_cut.simps
        MergedLevel.select_convs, simp add: left)
  qed
qed

text \<open>The same cut said of each level by its index in the ladder.\<close>

definition keep_level :: "bool \<Rightarrow> MergeLimits \<Rightarrow> nat \<Rightarrow> Wide \<Rightarrow> Px \<Rightarrow> MergedLevel list \<Rightarrow> nat \<Rightarrow> bool" where
  "keep_level d limits n cum edge ls i \<longleftrightarrow>
     int (n + i) < max_levels limits mod 2 ^ 64 \<and>
     \<not> (max_bps_from_touch_e8 limits > 0 \<and> Better d edge (mpx (ls ! i))) \<and>
     \<not> (notional_target_e8 limits > 0 \<and>
        notional_target_e8 limits \<le> cum + sum_list (map (\<lambda>l. NotionalWide (mpx l) (mqty l)) (take i ls)))"

definition touch_edge :: "bool \<Rightarrow> MergeLimits \<Rightarrow> MergedLevel list \<Rightarrow> Px" where
  "touch_edge d limits ls = OffsetByBpsOutward (mpx (hd ls)) (max_bps_from_touch_e8 limits) d"

definition published :: "bool \<Rightarrow> MergeLimits \<Rightarrow> MergedLevel list \<Rightarrow> nat \<Rightarrow> bool" where
  "published d limits ls i = keep_level d limits 0 0 (touch_edge d limits ls) ls i"

lemma keep_level_Suc:
  "keep_level d limits n cum edge (l # ls) (Suc i) =
   keep_level d limits (Suc n) (cum + NotionalWide (mpx l) (mqty l)) edge ls i"
  by (simp add: keep_level_def add.assoc)

lemma takeWhile_upt_Suc:
  "takeWhile P [0..<Suc n] = (if P 0 then 0 # map Suc (takeWhile (\<lambda>i. P (Suc i)) [0..<n]) else [])"
  unfolding upt_conv_Cons [OF zero_less_Suc] map_Suc_upt [symmetric] by (simp add: takeWhile_map comp_def)

lemma publish_cut_index:
  assumes "\<not> (notional_target_e8 limits > 0 \<and> notional_target_e8 limits \<le> cum)"
    and "ls \<noteq> [] \<longrightarrow> edge = (case bound of None \<Rightarrow> touch_edge d limits ls | Some b \<Rightarrow> b)"
  shows "publish_cut d limits n cum bound ls =
           map ((!) ls) (takeWhile (keep_level d limits n cum edge ls) [0..<length ls])"
  using assms
proof (induction ls arbitrary: n cum bound)
  case (Cons l ls)
  let ?cum = "cum + NotionalWide (mpx l) (mqty l)"
  have edge: "edge = (case bound of None \<Rightarrow> OffsetByBpsOutward (mpx l) (max_bps_from_touch_e8 limits) d | Some b \<Rightarrow> b)"
    using Cons.prems(2) by (simp add: touch_edge_def split: option.splits)
  have zero: "keep_level d limits n cum edge (l # ls) 0 \<longleftrightarrow> int n < max_levels limits mod 2 ^ 64 \<and>
      \<not> (max_bps_from_touch_e8 limits > 0 \<and> Better d edge (mpx l))"
    using Cons.prems(1) by (auto simp: keep_level_def)
  show ?case
  proof (cases "notional_target_e8 limits > 0 \<and> notional_target_e8 limits \<le> ?cum")
    case True
    then have "takeWhile (keep_level d limits (Suc n) ?cum edge ls) [0..<length ls] = []"
      by (cases ls) (simp_all add: takeWhile_upt_Suc keep_level_def del: upt_Suc)
    with True edge zero show ?thesis
      by (auto simp: Let_def takeWhile_upt_Suc keep_level_Suc simp del: upt_Suc)
  next
    case False
    from Cons.IH [OF this, of "Some edge"] edge zero show ?thesis
      using False by (auto simp: Let_def takeWhile_upt_Suc keep_level_Suc comp_def simp del: upt_Suc)
  qed
qed simp

lemma MergeSide_cut:
  assumes "length inputs \<le> kMaxVenues" "\<forall>i\<in>set inputs. best_first d (in_levels i)"
  shows "MergeSide d inputs limits =
           (let L = full_ladder d (map in_levels inputs); P = publish_cut d limits 0 0 None L
            in Some (P, length P < length L))"
proof -
  let ?ics = "zip inputs (replicate (length inputs) 0)"
  have tails: "tails ?ics = map in_levels inputs"
    by (simp add: tail_of_def zip_replicate2 comp_def)
  then show ?thesis
    using merge_loop_cut [of inputs "replicate (length inputs) 0" d limits "[]" 0 None] assms
    by (simp add: Let_def MergeSide_def)
qed

lemma length_takeWhile_upt:
  "length (takeWhile P [0..<n]) < n \<longleftrightarrow> (\<exists>i<n. \<not> P i)"
proof -
  have "length (takeWhile P [0..<n]) = n \<longleftrightarrow> (\<forall>i<n. P i)"
    by (metis (mono_tags, lifting) atLeast_upt diff_zero length_takeWhile_le length_upt lessThan_iff set_takeWhileD
        takeWhile_eq_all_conv takeWhile_eq_take take_all_iff)
  then show ?thesis using length_takeWhile_le [of P "[0..<n]"] by force
qed

lemma full_ladder_levels:
  assumes "l \<in> set (full_ladder d sides)"
  shows "mpx l \<in> prices sides" "mqty l = wrap64 (total_at sides (mpx l))"
  using assms by (auto simp: full_ladder_def)

lemma full_ladder_sorted: "sorted_wrt (Better d) (map mpx (full_ladder d sides))"
  using sorted_ladder_prices [of d sides] by (simp add: full_ladder_def comp_def)

section \<open>Properties\<close>

text \<open>C14: the merge of at most three best-first venue sides publishes exactly the levels of the
  full ladder up to the first one that a limit excludes: an index beyond \<^verbatim>\<open>max_levels\<close>, a
  price further from the touch than \<^verbatim>\<open>max_bps_from_touch_e8\<close>, or a notional target that the
  levels before it already reach. The truncation flag is set if and only if some level of the full
  ladder was left out.\<close>

theorem MergeSide_published:
  assumes "length inputs \<le> kMaxVenues" "\<forall>i\<in>set inputs. best_first d (in_levels i)"
  shows "MergeSide d inputs limits =
           (let L = full_ladder d (map in_levels inputs)
            in Some (map ((!) L) (takeWhile (published d limits L) [0..<length L]),
                     \<exists>i<length L. \<not> published d limits L i))"
proof -
  let ?L = "full_ladder d (map in_levels inputs)"
  have "publish_cut d limits 0 0 None ?L =
      map ((!) ?L) (takeWhile (published d limits ?L) [0..<length ?L])"
    unfolding published_def by (rule publish_cut_index) simp_all
  then show ?thesis
    using MergeSide_cut [OF assms] by (simp add: Let_def length_takeWhile_upt)
qed

definition example_inputs :: "VenueSideInput list" where
  "example_inputs =
     [\<lparr>venue_index = 0, in_levels = [\<lparr>lpx = 100, lqty = 5\<rparr>, \<lparr>lpx = 98, lqty = 7\<rparr>]\<rparr>,
      \<lparr>venue_index = 2, in_levels = [\<lparr>lpx = 100, lqty = 2\<rparr>, \<lparr>lpx = 99, lqty = 1\<rparr>]\<rparr>]"

theorem MergeSide_published_witness:
  "MergeSide True example_inputs (default_limits\<lparr>max_levels := 2\<rparr>) =
     Some ([\<lparr>mpx = 100, mqty = 7\<rparr>, \<lparr>mpx = 99, mqty = 1\<rparr>], True)"
proof -
  let ?lim = "default_limits\<lparr>max_levels := 2\<rparr>"
  let ?L = "[\<lparr>mpx = 100, mqty = 7\<rparr>, \<lparr>mpx = 99, mqty = 1\<rparr>, \<lparr>mpx = 98, mqty = 7\<rparr>]"
  have "length example_inputs \<le> kMaxVenues" "\<forall>i\<in>set example_inputs. best_first True (in_levels i)"
    by (simp_all add: example_inputs_def kMaxVenues_def Better_def)
  note MergeSide_published [OF this, of ?lim]
  moreover have "full_ladder True (map in_levels example_inputs) = ?L" by code_simp
  moreover have "map ((!) ?L) (takeWhile (published True ?lim ?L) [0..<length ?L]) = take 2 ?L" by code_simp
  moreover have "\<exists>i<length ?L. \<not> published True ?lim ?L i"
  proof (intro exI conjI)
    show "\<not> published True ?lim ?L 2" by code_simp
  qed simp
  ultimately show ?thesis by (simp only: Let_def) simp
qed

text \<open>Whatever the limits, the published ladder is strictly best first, so every price
  appears once; each published quantity is the sum of what the venues show at that price (as long as
  that sum fits 64 bits); and if the flag says that nothing was truncated, every price of every
  venue is in the ladder.\<close>

theorem MergeSide_aggregates:
  assumes "length inputs \<le> kMaxVenues" "\<forall>i\<in>set inputs. best_first d (in_levels i)"
    and "\<forall>px. in_i64 (total_at (map in_levels inputs) px)"
    and "MergeSide d inputs limits = Some (out, truncated)"
  shows "sorted_wrt (Better d) (map mpx out) \<and>
         (\<forall>l\<in>set out. mqty l = total_at (map in_levels inputs) (mpx l)) \<and>
         mpx ` set out \<subseteq> prices (map in_levels inputs) \<and>
         (\<not> truncated \<longrightarrow> mpx ` set out = prices (map in_levels inputs))"
proof -
  let ?L = "full_ladder d (map in_levels inputs)"
  have out: "out = take (length out) ?L" and trunc: "truncated \<longleftrightarrow> length out < length ?L"
    using MergeSide_cut [OF assms(1,2), of limits] assms(4)
      publish_cut_prefix [of d limits 0 0 None ?L] by (auto simp: Let_def)
  have "sorted_wrt (Better d) (map mpx out)"
    using full_ladder_sorted [of d "map in_levels inputs"] out by (metis sorted_wrt_take take_map)
  moreover have "\<not> truncated \<Longrightarrow> out = ?L" using out trunc by (metis not_less take_all)
  moreover have "mpx ` set ?L = prices (map in_levels inputs)" by (force simp: full_ladder_def)
  moreover have "set out \<subseteq> set ?L" using out by (metis set_take_subset)
  ultimately show ?thesis using full_ladder_levels(2) [of _ d "map in_levels inputs"] assms(3) by auto
qed

theorem MergeSide_aggregates_witness:
  "sorted_wrt (Better True) [100, 99, 98] \<and> total_at (map in_levels example_inputs) 100 = 7 \<and>
   {100, 99, 98} = prices (map in_levels example_inputs)"
proof -
  have m: "MergeSide True example_inputs default_limits =
      Some ([\<lparr>mpx = 100, mqty = 7\<rparr>, \<lparr>mpx = 99, mqty = 1\<rparr>, \<lparr>mpx = 98, mqty = 7\<rparr>], False)" by code_simp
  have "in_i64 (total_at (map in_levels example_inputs) px)" for px
    by (simp add: total_at_def example_inputs_def qty_at_def i64_bounds)
  moreover have "length example_inputs \<le> kMaxVenues" "\<forall>i\<in>set example_inputs. best_first True (in_levels i)"
    by (simp_all add: example_inputs_def kMaxVenues_def Better_def)
  ultimately show ?thesis using MergeSide_aggregates [OF _ _ _ m] by auto
qed

end
