(* ===== verification/Analytics.thy ===== *)
theory Analytics
  imports Consolidated
begin

text \<open>
  Touch and depth bands (\<^verbatim>\<open>src/core/analytics.h\<close>, \<^verbatim>\<open>src/core/analytics.cc\<close>). The code
  closes all volume bands and all price bands of a side in one outward walk over the ladder. The
  reference computes every band on its own, from the ladder and that band's threshold alone.

  The cumulative quantity and notional are 128-bit values in the code. A term is at most
  \<open>2 ^ 126 / 10 ^ 8\<close> and a ladder has at most a few thousand levels, so the sums are plain
  integers here; the multiplication in \<open>Vwap\<close> and \<open>QtyForNotional\<close>, which can leave 128
  bits, keeps its wrap-around.
\<close>

section \<open>Data\<close>

record TouchInfo =
  has_bid :: bool
  has_ask :: bool
  best_bid :: Px
  best_ask :: Px
  mid :: Px
  spread_e8 :: i64
  spread_bps_e8 :: i64
  crossed :: bool

record VolumeBandResult =
  vb_target_e8 :: Notional
  vb_vwap_e8 :: Px
  vb_worst_e8 :: Px
  vb_filled_qty_e8 :: Qty
  vb_filled_notional_e8 :: Notional
  vb_fully_filled :: bool
  vb_open_ended :: bool
  vb_levels_consumed :: int

record PriceBandResult =
  pb_offset_bps_e8 :: i64
  pb_bound_e8 :: Px
  pb_vwap_e8 :: Px
  pb_qty_e8 :: Qty
  pb_notional_e8 :: Notional
  pb_levels :: int
  pb_open_ended :: bool
  pb_depth_limited :: bool

record BandConfig =
  notionals_e8 :: "Notional list"
  offsets_bps_e8 :: "i64 list"

record SideBands =
  sb_volume :: "VolumeBandResult list"
  sb_price :: "PriceBandResult list"

record LadderView =
  lv_levels :: "MergedLevel list"
  lv_descending :: bool

definition default_touch :: TouchInfo where
  "default_touch =
     \<lparr>has_bid = False, has_ask = False, best_bid = 0, best_ask = 0, mid = 0, spread_e8 = 0,
      spread_bps_e8 = 0, crossed = False\<rparr>"

definition default_volume_band :: VolumeBandResult where
  "default_volume_band =
     \<lparr>vb_target_e8 = 0, vb_vwap_e8 = 0, vb_worst_e8 = 0, vb_filled_qty_e8 = 0,
      vb_filled_notional_e8 = 0, vb_fully_filled = False, vb_open_ended = False,
      vb_levels_consumed = 0\<rparr>"

section \<open>Operations\<close>

definition MakePriceBand :: "i64 \<Rightarrow> Px \<Rightarrow> Wide \<Rightarrow> Wide \<Rightarrow> int \<Rightarrow> bool \<Rightarrow> bool \<Rightarrow> PriceBandResult" where
  "MakePriceBand offset_bps_e8 bound cum_qty cum_notional levels open_ended depth_limited =
     \<lparr>pb_offset_bps_e8 = offset_bps_e8, pb_bound_e8 = bound, pb_vwap_e8 = Vwap cum_notional cum_qty,
      pb_qty_e8 = NarrowSaturating cum_qty, pb_notional_e8 = NarrowSaturating cum_notional,
      pb_levels = levels, pb_open_ended = open_ended, pb_depth_limited = depth_limited\<rparr>"

definition EmitEmptyBands :: "BandConfig \<Rightarrow> SideBands" where
  "EmitEmptyBands config =
     \<lparr>sb_volume = map (\<lambda>target. default_volume_band\<lparr>vb_target_e8 := target\<rparr>) (notionals_e8 config) @
                  [default_volume_band\<lparr>vb_open_ended := True\<rparr>],
      sb_price = map (\<lambda>offset. MakePriceBand offset 0 0 0 0 False True) (offsets_bps_e8 config) @
                 [MakePriceBand 0 0 0 0 0 True False]\<rparr>"

definition CloseVolumeBand ::
  "Notional \<Rightarrow> Px \<Rightarrow> Px \<Rightarrow> Qty \<Rightarrow> Wide \<Rightarrow> Wide \<Rightarrow> int \<Rightarrow> VolumeBandResult" where
  "CloseVolumeBand target px worst_px partial cumulative_qty cumulative_notional levels =
     (let partial_notional = (if partial > 0 then NotionalWide px partial else 0);
          filled_qty = cumulative_qty + partial;
          filled_notional = cumulative_notional + partial_notional
      in default_volume_band
           \<lparr>vb_target_e8 := target,
            vb_filled_notional_e8 := NarrowSaturating filled_notional,
            vb_filled_qty_e8 := NarrowSaturating filled_qty,
            vb_vwap_e8 := Vwap filled_notional filled_qty,
            vb_worst_e8 := (if partial > 0 then px else worst_px),
            vb_fully_filled := True,
            vb_levels_consumed := levels + (if partial > 0 then 1 else 0)\<rparr>)"

definition ViewBestPx :: "LadderView \<Rightarrow> Px" where
  "ViewBestPx view = (case lv_levels view of [] \<Rightarrow> 0 | l # _ \<Rightarrow> mpx l)"

definition ViewBestQty :: "LadderView \<Rightarrow> Qty" where
  "ViewBestQty view = (case lv_levels view of [] \<Rightarrow> 0 | l # _ \<Rightarrow> mqty l)"

definition ComputeTouch :: "LadderView \<Rightarrow> LadderView \<Rightarrow> TouchInfo" where
  "ComputeTouch bids asks =
     (let bb = ViewBestPx bids;
          ba = ViewBestPx asks;
          touch = default_touch\<lparr>best_bid := bb, best_ask := ba, has_bid := bb \<noteq> 0, has_ask := ba \<noteq> 0\<rparr>
      in if \<not> has_bid touch \<or> \<not> has_ask touch then touch
         else let m = NarrowSaturating ((bb + ba) sdiv 2);
                  s = wrap64 (ba - bb)
              in touch\<lparr>mid := m, spread_e8 := s, spread_bps_e8 := BpsE8 s m, crossed := (bb \<ge> ba)\<rparr>)"

section \<open>The walk\<close>

text \<open>
  The walk keeps the thresholds that are still open as the unread suffixes of the two
  configuration vectors. The two inner \<^verbatim>\<open>while\<close> loops are \<open>close_price\<close> and
  \<open>close_volume\<close>.
\<close>

record Walk =
  w_qty :: Wide
  w_notional :: Wide
  w_levels :: int
  w_worst :: Px
  w_targets :: "Notional list"
  w_offsets :: "i64 list"
  w_bands :: SideBands

definition inside_bound :: "bool \<Rightarrow> Px \<Rightarrow> Px \<Rightarrow> bool" where
  "inside_bound descending px bound = (if descending then px \<ge> bound else px \<le> bound)"

fun close_price ::
  "bool \<Rightarrow> Px \<Rightarrow> Px \<Rightarrow> Walk \<Rightarrow> i64 list \<Rightarrow> PriceBandResult list \<Rightarrow> i64 list \<times> PriceBandResult list" where
  "close_price descending reference px w [] out = ([], out)"
| "close_price descending reference px w (offset # offsets) out =
     (let bound = OffsetByBpsOutward reference offset descending
      in if inside_bound descending px bound then (offset # offsets, out)
         else close_price descending reference px w offsets
                (out @ [MakePriceBand offset bound (w_qty w) (w_notional w) (w_levels w) False False]))"

fun close_volume ::
  "Px \<Rightarrow> Qty \<Rightarrow> Walk \<Rightarrow> Notional list \<Rightarrow> VolumeBandResult list \<Rightarrow> Notional list \<times> VolumeBandResult list" where
  "close_volume px qty w [] out = ([], out)"
| "close_volume px qty w (target # targets) out =
     (let level_notional = NotionalWide px qty
      in if w_notional w + level_notional \<ge> target then
           let consumes_whole_level = (w_notional w + level_notional \<le> target);
               partial = (if consumes_whole_level then qty else QtyForNotional (target - w_notional w) px)
           in close_volume px qty w targets
                (out @ [CloseVolumeBand target px (w_worst w) partial (w_qty w) (w_notional w) (w_levels w)])
         else (target # targets, out))"

definition walk_level :: "bool \<Rightarrow> Px \<Rightarrow> Walk \<Rightarrow> MergedLevel \<Rightarrow> Walk" where
  "walk_level descending reference w level =
     (let qty = mqty level; px = mpx level;
          (offsets, price) = close_price descending reference px w (w_offsets w) (sb_price (w_bands w));
          level_notional = NotionalWide px qty;
          (targets, volume) = close_volume px qty w (w_targets w) (sb_volume (w_bands w))
      in w\<lparr>w_offsets := offsets, w_targets := targets,
           w_bands := \<lparr>sb_volume = volume, sb_price = price\<rparr>,
           w_qty := w_qty w + qty, w_notional := w_notional w + level_notional,
           w_levels := w_levels w + 1, w_worst := px\<rparr>)"

definition unfilled_band :: "Walk \<Rightarrow> Notional \<Rightarrow> VolumeBandResult" where
  "unfilled_band w target =
     default_volume_band
       \<lparr>vb_target_e8 := target, vb_filled_qty_e8 := NarrowSaturating (w_qty w),
        vb_filled_notional_e8 := NarrowSaturating (w_notional w),
        vb_vwap_e8 := Vwap (w_notional w) (w_qty w), vb_worst_e8 := w_worst w,
        vb_fully_filled := False, vb_levels_consumed := w_levels w\<rparr>"

definition finish_walk :: "bool \<Rightarrow> Px \<Rightarrow> Walk \<Rightarrow> SideBands" where
  "finish_walk descending reference w =
     \<lparr>sb_volume = sb_volume (w_bands w) @ map (unfilled_band w) (w_targets w) @
                  [(unfilled_band w 0)\<lparr>vb_open_ended := True\<rparr>],
      sb_price = sb_price (w_bands w) @
                 map (\<lambda>offset. MakePriceBand offset (OffsetByBpsOutward reference offset descending)
                        (w_qty w) (w_notional w) (w_levels w) False True) (w_offsets w) @
                 [MakePriceBand 0 (w_worst w) (w_qty w) (w_notional w) (w_levels w) True False]\<rparr>"

definition start_walk :: "BandConfig \<Rightarrow> Px \<Rightarrow> Walk" where
  "start_walk config reference =
     \<lparr>w_qty = 0, w_notional = 0, w_levels = 0, w_worst = reference,
      w_targets = notionals_e8 config, w_offsets = offsets_bps_e8 config,
      w_bands = \<lparr>sb_volume = [], sb_price = []\<rparr>\<rparr>"

definition ComputeSideBands :: "LadderView \<Rightarrow> BandConfig \<Rightarrow> SideBands" where
  "ComputeSideBands side config =
     (let reference = ViewBestPx side
      in if reference = 0 then EmitEmptyBands config
         else finish_walk (lv_descending side) reference
                (foldl (walk_level (lv_descending side) reference) (start_walk config reference)
                   (lv_levels side)))"


section \<open>Every band on its own\<close>

definition cum_qty :: "MergedLevel list \<Rightarrow> Wide" where
  "cum_qty ls = sum_list (map mqty ls)"

definition cum_notional :: "MergedLevel list \<Rightarrow> Wide" where
  "cum_notional ls = sum_list (map (\<lambda>l. NotionalWide (mpx l) (mqty l)) ls)"

text \<open>The number of levels a sweep of \<open>target\<close> takes whole before the one that reaches it.\<close>

definition crossing :: "MergedLevel list \<Rightarrow> Notional \<Rightarrow> nat" where
  "crossing ls target =
     length (takeWhile (\<lambda>i. cum_notional (take (Suc i) ls) < target) [0..<length ls])"

definition volume_band :: "MergedLevel list \<Rightarrow> Notional \<Rightarrow> VolumeBandResult" where
  "volume_band ls target =
     (let k = crossing ls target; swept = take k ls; n = cum_notional swept; q = cum_qty swept;
          worst = (if k = 0 then mpx (hd ls) else mpx (ls ! (k - 1)))
      in if k = length ls then
           default_volume_band
             \<lparr>vb_target_e8 := target, vb_filled_qty_e8 := NarrowSaturating q,
              vb_filled_notional_e8 := NarrowSaturating n, vb_vwap_e8 := Vwap n q,
              vb_worst_e8 := worst, vb_levels_consumed := int k\<rparr>
         else let l = ls ! k;
                  part = (if n + NotionalWide (mpx l) (mqty l) \<le> target then mqty l
                          else QtyForNotional (target - n) (mpx l))
              in CloseVolumeBand target (mpx l) worst part q n (int k))"

definition price_band :: "bool \<Rightarrow> MergedLevel list \<Rightarrow> i64 \<Rightarrow> PriceBandResult" where
  "price_band d ls offset =
     (let bound = OffsetByBpsOutward (mpx (hd ls)) offset d;
          within = filter (\<lambda>l. inside_bound d (mpx l) bound) ls
      in MakePriceBand offset bound (cum_qty within) (cum_notional within) (int (length within)) False
           (within = ls))"

definition open_volume_band :: "MergedLevel list \<Rightarrow> VolumeBandResult" where
  "open_volume_band ls =
     default_volume_band
       \<lparr>vb_filled_qty_e8 := NarrowSaturating (cum_qty ls),
        vb_filled_notional_e8 := NarrowSaturating (cum_notional ls),
        vb_vwap_e8 := Vwap (cum_notional ls) (cum_qty ls), vb_worst_e8 := mpx (last ls),
        vb_open_ended := True, vb_levels_consumed := int (length ls)\<rparr>"

definition open_price_band :: "MergedLevel list \<Rightarrow> PriceBandResult" where
  "open_price_band ls =
     MakePriceBand 0 (mpx (last ls)) (cum_qty ls) (cum_notional ls) (int (length ls)) True False"

lemma cum_simps [simp]:
  "cum_qty [] = 0" "cum_qty (l # ls) = mqty l + cum_qty ls" "cum_qty (xs @ ys) = cum_qty xs + cum_qty ys"
  "cum_notional [] = 0" "cum_notional (l # ls) = NotionalWide (mpx l) (mqty l) + cum_notional ls"
  "cum_notional (xs @ ys) = cum_notional xs + cum_notional ys"
  by (simp_all add: cum_qty_def cum_notional_def)

section \<open>The inner loops close a prefix of the thresholds\<close>

text \<open>One band followed alone from a point of the walk, by recursion on the levels ahead.\<close>

definition volume_close :: "Wide \<Rightarrow> Wide \<Rightarrow> int \<Rightarrow> Px \<Rightarrow> MergedLevel \<Rightarrow> Notional \<Rightarrow> VolumeBandResult" where
  "volume_close q n k worst l target =
     CloseVolumeBand target (mpx l) worst
       (if n + NotionalWide (mpx l) (mqty l) \<le> target then mqty l
        else QtyForNotional (target - n) (mpx l)) q n k"

definition volume_short :: "Wide \<Rightarrow> Wide \<Rightarrow> int \<Rightarrow> Px \<Rightarrow> Notional \<Rightarrow> VolumeBandResult" where
  "volume_short q n k worst target =
     default_volume_band
       \<lparr>vb_target_e8 := target, vb_filled_qty_e8 := NarrowSaturating q,
        vb_filled_notional_e8 := NarrowSaturating n, vb_vwap_e8 := Vwap n q,
        vb_worst_e8 := worst, vb_levels_consumed := k\<rparr>"

fun volume_from :: "Wide \<Rightarrow> Wide \<Rightarrow> int \<Rightarrow> Px \<Rightarrow> MergedLevel list \<Rightarrow> Notional \<Rightarrow> VolumeBandResult" where
  "volume_from q n k worst [] target = volume_short q n k worst target"
| "volume_from q n k worst (l # ls) target =
     (if target \<le> n + NotionalWide (mpx l) (mqty l) then volume_close q n k worst l target
      else volume_from (q + mqty l) (n + NotionalWide (mpx l) (mqty l)) (k + 1) (mpx l) ls target)"

definition still_inside :: "bool \<Rightarrow> Px \<Rightarrow> Px \<Rightarrow> i64 \<Rightarrow> bool" where
  "still_inside d reference px offset = inside_bound d px (OffsetByBpsOutward reference offset d)"

fun price_from :: "bool \<Rightarrow> Px \<Rightarrow> Wide \<Rightarrow> Wide \<Rightarrow> int \<Rightarrow> MergedLevel list \<Rightarrow> i64 \<Rightarrow> PriceBandResult" where
  "price_from d reference q n k [] offset =
     MakePriceBand offset (OffsetByBpsOutward reference offset d) q n k False True"
| "price_from d reference q n k (l # ls) offset =
     (if still_inside d reference (mpx l) offset
      then price_from d reference (q + mqty l) (n + NotionalWide (mpx l) (mqty l)) (k + 1) ls offset
      else MakePriceBand offset (OffsetByBpsOutward reference offset d) q n k False False)"

lemma close_price_eq:
  "close_price d reference px w offsets out =
     (dropWhile (\<lambda>x. \<not> still_inside d reference px x) offsets,
      out @ map (\<lambda>x. MakePriceBand x (OffsetByBpsOutward reference x d) (w_qty w) (w_notional w) (w_levels w) False False)
              (takeWhile (\<lambda>x. \<not> still_inside d reference px x) offsets))"
  by (induction d reference px w offsets out rule: close_price.induct)
    (simp_all add: Let_def still_inside_def)

lemma close_volume_eq:
  "close_volume (mpx l) (mqty l) w targets out =
     (dropWhile (\<lambda>t. t \<le> w_notional w + NotionalWide (mpx l) (mqty l)) targets,
      out @ map (volume_close (w_qty w) (w_notional w) (w_levels w) (w_worst w) l)
              (takeWhile (\<lambda>t. t \<le> w_notional w + NotionalWide (mpx l) (mqty l)) targets))"
  by (induction targets arbitrary: out) (simp_all add: Let_def volume_close_def)

lemma still_inside_mono:
  assumes "in_i64 reference" "a \<le> b" "still_inside d reference px a"
  shows "still_inside d reference px b"
proof (cases "reference \<le> 0 \<or> b \<le> 0")
  case True
  with assms show ?thesis by (auto simp: still_inside_def OffsetByBpsOutward_def)
next
  case False
  let ?delta = "\<lambda>x. (reference * x + kBpsScale - 1) sdiv kBpsScale"
  have "0 < ?delta b" using False offset_delta(3) [of reference b] by simp
  moreover have "0 < a \<Longrightarrow> ?delta a \<le> ?delta b"
    using False assms(2) by (simp add: kBpsScale_eq zdiv_mono1)
  ultimately show ?thesis
    using False assms
    by (cases "0 < a")
      (auto simp: still_inside_def inside_bound_def OffsetByBpsOutward_def Let_def NarrowSaturating_clamp
        i64_bounds split: if_splits)
qed

text \<open>
  Splitting the open thresholds at the first one that stays open: with ascending thresholds the
  closed prefix and the open suffix are what the bands followed alone say.
\<close>

lemma map_split_while:
  assumes "\<forall>x\<in>set (takeWhile P xs). f x = g x" "\<forall>x\<in>set (dropWhile P xs). f x = h x"
  shows "map f xs = map g (takeWhile P xs) @ map h (dropWhile P xs)"
proof -
  have "map f xs = map f (takeWhile P xs @ dropWhile P xs)" by simp
  then show ?thesis using assms by (simp only: map_append cong: map_cong)
qed

lemma dropWhile_up_closed:
  assumes "sorted xs" "x \<in> set (dropWhile (\<lambda>x. \<not> Q x) xs)" "\<And>a b. a \<le> b \<Longrightarrow> Q a \<Longrightarrow> Q b"
  shows "Q x"
  using assms(1,2)
proof (induction xs)
  case (Cons y ys)
  show ?case
  proof (cases "Q y")
    case True
    with Cons.prems have "y \<le> x" by auto
    with True assms(3) show ?thesis by blast
  qed (use Cons in auto)
qed simp

lemma volume_split:
  assumes "sorted targets"
  shows "map (volume_from q n k worst (l # ls)) targets =
         map (volume_close q n k worst l) (takeWhile (\<lambda>t. t \<le> n + NotionalWide (mpx l) (mqty l)) targets) @
         map (volume_from (q + mqty l) (n + NotionalWide (mpx l) (mqty l)) (k + 1) (mpx l) ls)
           (dropWhile (\<lambda>t. t \<le> n + NotionalWide (mpx l) (mqty l)) targets)"
proof (rule map_split_while)
  show "\<forall>t\<in>set (takeWhile (\<lambda>t. t \<le> n + NotionalWide (mpx l) (mqty l)) targets).
          volume_from q n k worst (l # ls) t = volume_close q n k worst l t"
    by (auto dest: set_takeWhileD)
  show "\<forall>t\<in>set (dropWhile (\<lambda>t. t \<le> n + NotionalWide (mpx l) (mqty l)) targets).
          volume_from q n k worst (l # ls) t =
          volume_from (q + mqty l) (n + NotionalWide (mpx l) (mqty l)) (k + 1) (mpx l) ls t"
  proof
    fix t
    assume t: "t \<in> set (dropWhile (\<lambda>t. t \<le> n + NotionalWide (mpx l) (mqty l)) targets)"
    have "\<not> t \<le> n + NotionalWide (mpx l) (mqty l)"
      by (rule dropWhile_up_closed [OF assms, where Q = "\<lambda>t. \<not> t \<le> n + NotionalWide (mpx l) (mqty l)"])
        (use t in simp_all)
    then show "volume_from q n k worst (l # ls) t =
        volume_from (q + mqty l) (n + NotionalWide (mpx l) (mqty l)) (k + 1) (mpx l) ls t" by simp
  qed
qed

lemma price_split:
  assumes "sorted offsets" "in_i64 reference"
  shows "map (price_from d reference q n k (l # ls)) offsets =
         map (\<lambda>x. MakePriceBand x (OffsetByBpsOutward reference x d) q n k False False)
           (takeWhile (\<lambda>x. \<not> still_inside d reference (mpx l) x) offsets) @
         map (price_from d reference (q + mqty l) (n + NotionalWide (mpx l) (mqty l)) (k + 1) ls)
           (dropWhile (\<lambda>x. \<not> still_inside d reference (mpx l) x) offsets)"
proof (rule map_split_while)
  show "\<forall>x\<in>set (dropWhile (\<lambda>x. \<not> still_inside d reference (mpx l) x) offsets).
          price_from d reference q n k (l # ls) x =
          price_from d reference (q + mqty l) (n + NotionalWide (mpx l) (mqty l)) (k + 1) ls x"
  proof
    fix x
    assume x: "x \<in> set (dropWhile (\<lambda>x. \<not> still_inside d reference (mpx l) x) offsets)"
    have "still_inside d reference (mpx l) x"
      by (rule dropWhile_up_closed [OF assms(1) x]) (rule still_inside_mono [OF assms(2)])
    then show "price_from d reference q n k (l # ls) x =
        price_from d reference (q + mqty l) (n + NotionalWide (mpx l) (mqty l)) (k + 1) ls x" by simp
  qed
qed (auto dest: set_takeWhileD)

lemma finish_walk_foldl:
  assumes "in_i64 reference" "sorted (w_targets w)" "sorted (w_offsets w)"
  defines "q \<equiv> w_qty w" and "n \<equiv> w_notional w" and "k \<equiv> w_levels w" and "worst \<equiv> w_worst w"
  shows "finish_walk d reference (foldl (walk_level d reference) w ls) =
    (let q' = q + cum_qty ls; n' = n + cum_notional ls; k' = k + int (length ls);
         worst' = (if ls = [] then worst else mpx (last ls))
     in \<lparr>sb_volume = sb_volume (w_bands w) @ map (volume_from q n k worst ls) (w_targets w) @
                     [(volume_short q' n' k' worst' 0)\<lparr>vb_open_ended := True\<rparr>],
         sb_price = sb_price (w_bands w) @ map (price_from d reference q n k ls) (w_offsets w) @
                    [MakePriceBand 0 worst' q' n' k' True False]\<rparr>)"
  using assms(2,3) unfolding q_def n_def k_def worst_def
proof (induction ls arbitrary: w)
  case Nil
  have "unfilled_band w = volume_short (w_qty w) (w_notional w) (w_levels w) (w_worst w)"
    by (simp add: fun_eq_iff unfilled_band_def volume_short_def default_volume_band_def)
  then show ?case by (simp add: finish_walk_def Let_def)
next
  case (Cons l ls)
  let ?w = "walk_level d reference w l"
  have w: "w_qty ?w = w_qty w + mqty l" "w_notional ?w = w_notional w + NotionalWide (mpx l) (mqty l)"
    "w_levels ?w = w_levels w + 1" "w_worst ?w = mpx l"
    "w_targets ?w = dropWhile (\<lambda>t. t \<le> w_notional w + NotionalWide (mpx l) (mqty l)) (w_targets w)"
    "w_offsets ?w = dropWhile (\<lambda>x. \<not> still_inside d reference (mpx l) x) (w_offsets w)"
    by (simp_all add: walk_level_def Let_def close_price_eq close_volume_eq)
  have bands: "w_bands ?w =
     \<lparr>sb_volume = sb_volume (w_bands w) @ map (volume_close (w_qty w) (w_notional w) (w_levels w) (w_worst w) l)
              (takeWhile (\<lambda>t. t \<le> w_notional w + NotionalWide (mpx l) (mqty l)) (w_targets w)),
      sb_price = sb_price (w_bands w) @ map (\<lambda>x. MakePriceBand x (OffsetByBpsOutward reference x d)
              (w_qty w) (w_notional w) (w_levels w) False False)
              (takeWhile (\<lambda>x. \<not> still_inside d reference (mpx l) x) (w_offsets w))\<rparr>"
    by (simp add: walk_level_def Let_def close_price_eq close_volume_eq)
  have sorted: "sorted (w_targets ?w)" "sorted (w_offsets ?w)"
    unfolding w using Cons.prems by (simp_all add: sorted_wrt_dropWhile)
  show ?case
    unfolding foldl_Cons Cons.IH [OF sorted] w bands
      volume_split [OF Cons.prems(1)] price_split [OF Cons.prems(2) assms(1)]
    by (simp add: Let_def ac_simps)
qed

section \<open>A band followed alone is the band of the whole ladder\<close>

lemma length_takeWhile_first:
  assumes "\<forall>i<k. P i" "k \<le> n" "k < n \<longrightarrow> \<not> P k"
  shows "length (takeWhile P [0..<n]) = k"
proof -
  have split: "[0..<n] = [0..<k] @ [k..<n]" using assms(2) by (metis le_add_diff_inverse upt_add_eq_append zero_le)
  have "takeWhile P [k..<n] = []" using assms(3) by (cases "k < n") (simp_all add: upt_conv_Cons)
  moreover have "takeWhile P ([0..<k] @ [k..<n]) = [0..<k] @ takeWhile P [k..<n]"
    using assms(1) by (intro takeWhile_append2) simp
  ultimately show ?thesis unfolding split by simp
qed

lemma volume_from_band:
  assumes "pre @ ls \<noteq> []" "\<forall>i<length pre. cum_notional (take (Suc i) (pre @ ls)) < target"
    and "worst = (if pre = [] then mpx (hd (pre @ ls)) else mpx (last pre))"
  shows "volume_from (cum_qty pre) (cum_notional pre) (int (length pre)) worst ls target =
         volume_band (pre @ ls) target"
  using assms
proof (induction ls arbitrary: pre worst)
  case Nil
  then have "crossing pre target = length pre" by (auto simp: crossing_def intro!: length_takeWhile_first)
  with Nil show ?case by (simp add: volume_band_def Let_def volume_short_def last_conv_nth)
next
  case (Cons l ls)
  have here: "cum_notional (take (Suc (length pre)) (pre @ l # ls)) =
      cum_notional pre + NotionalWide (mpx l) (mqty l)" by simp
  show ?case
  proof (cases "target \<le> cum_notional pre + NotionalWide (mpx l) (mqty l)")
    case True
    then have "crossing (pre @ l # ls) target = length pre"
      unfolding crossing_def using Cons.prems(2) here by (intro length_takeWhile_first) simp_all
    with True Cons.prems show ?thesis
      by (simp add: volume_band_def Let_def volume_close_def last_conv_nth nth_append)
  next
    case False
    with Cons.prems(2) here
    have "\<forall>i<length (pre @ [l]). cum_notional (take (Suc i) ((pre @ [l]) @ ls)) < target"
      by (auto simp: less_Suc_eq)
    from Cons.IH [of "pre @ [l]" "mpx l", OF _ this] False show ?thesis
      by (simp add: ac_simps)
  qed
qed

lemma inside_bound_sorted:
  assumes "Better d a b" "\<not> inside_bound d a bound"
  shows "\<not> inside_bound d b bound"
  using assms by (auto simp: Better_def inside_bound_def split: if_splits)

lemma price_from_band:
  assumes "pre @ ls \<noteq> []" "reference = mpx (hd (pre @ ls))" "sorted_wrt (Better d) (map mpx ls)"
    and "\<forall>l\<in>set pre. still_inside d reference (mpx l) offset"
  shows "price_from d reference (cum_qty pre) (cum_notional pre) (int (length pre)) ls offset =
         price_band d (pre @ ls) offset"
  using assms
proof (induction ls arbitrary: pre)
  case Nil
  then have "filter (\<lambda>l. inside_bound d (mpx l) (OffsetByBpsOutward reference offset d)) pre = pre"
    by (simp add: still_inside_def)
  with Nil show ?case by (simp add: price_band_def Let_def)
next
  case (Cons l ls)
  show ?case
  proof (cases "still_inside d reference (mpx l) offset")
    case True
    with Cons.IH [of "pre @ [l]"] Cons.prems show ?thesis by (simp add: ac_simps)
  next
    case False
    let ?in = "\<lambda>l. inside_bound d (mpx l) (OffsetByBpsOutward reference offset d)"
    have "\<forall>m\<in>set (l # ls). \<not> ?in m"
      using False Cons.prems(3) by (auto simp: still_inside_def dest: inside_bound_sorted)
    then have "filter ?in (pre @ l # ls) = pre"
      using Cons.prems(4) by (simp add: still_inside_def)
    then have "price_band d (pre @ l # ls) offset =
        MakePriceBand offset (OffsetByBpsOutward reference offset d) (cum_qty pre) (cum_notional pre)
          (int (length pre)) False False"
      unfolding price_band_def Let_def Cons.prems(2) [symmetric] by simp
    with False show ?thesis by simp
  qed
qed

section \<open>What a volume band reports\<close>

definition positive_ladder :: "MergedLevel list \<Rightarrow> bool" where
  "positive_ladder ls \<longleftrightarrow> (\<forall>l\<in>set ls. 0 < mpx l \<and> 0 < mqty l \<and> in_i64 (mpx l) \<and> in_i64 (mqty l))"

lemma positive_ladder_take: "positive_ladder ls \<Longrightarrow> positive_ladder (take k ls)"
  by (auto simp: positive_ladder_def dest: in_set_takeD)

lemma cum_nonneg:
  assumes "positive_ladder ls"
  shows "0 \<le> cum_notional ls" "0 \<le> cum_qty ls"
  using assms by (induction ls) (auto simp: positive_ladder_def NotionalWide_ge0 add_nonneg_nonneg)

lemma cum_notional_take_mono:
  assumes "positive_ladder ls" "i \<le> j"
  shows "cum_notional (take i ls) \<le> cum_notional (take j ls)"
proof -
  have "take j ls = take i ls @ take (j - i) (drop i ls)" using assms(2) by (metis le_add_diff_inverse take_add)
  moreover have "positive_ladder (take (j - i) (drop i ls))"
    using assms(1) by (auto simp: positive_ladder_def dest: in_set_takeD in_set_dropD)
  ultimately show ?thesis using cum_nonneg(1) by simp
qed

lemma crossing_cases:
  assumes "0 < target" "positive_ladder ls"
  shows "crossing ls target \<le> length ls"
    and "crossing ls target = length ls \<longleftrightarrow> cum_notional ls < target \<or> ls = []"
    and "crossing ls target < length ls \<Longrightarrow>
           cum_notional (take (crossing ls target) ls) < target \<and>
           target \<le> cum_notional (take (Suc (crossing ls target)) ls)"
proof -
  let ?P = "\<lambda>i. cum_notional (take (Suc i) ls) < target"
  let ?k = "crossing ls target"
  have below: "\<forall>i<?k. ?P i"
    unfolding crossing_def by (metis (no_types, lifting) add.left_neutral length_takeWhile_le length_upt
        nth_mem nth_upt order_less_le_trans set_takeWhileD takeWhile_nth diff_zero)
  show len: "?k \<le> length ls"
    unfolding crossing_def by (metis diff_zero length_takeWhile_le length_upt)
  show cross: "cum_notional (take ?k ls) < target \<and> target \<le> cum_notional (take (Suc ?k) ls)"
    if "?k < length ls"
  proof
    show "cum_notional (take ?k ls) < target" using below assms(1) by (cases ?k) auto
    have "\<not> ?P ([0..<length ls] ! ?k)"
      unfolding crossing_def by (rule nth_length_takeWhile) (use that in \<open>simp add: crossing_def\<close>)
    then show "target \<le> cum_notional (take (Suc ?k) ls)" using that by simp
  qed
  show "?k = length ls \<longleftrightarrow> cum_notional ls < target \<or> ls = []"
  proof
    assume k: "?k = length ls"
    show "cum_notional ls < target \<or> ls = []" using below k by (cases ls rule: rev_cases) auto
  next
    assume "cum_notional ls < target \<or> ls = []"
    then show "?k = length ls"
      using cross len cum_notional_take_mono [OF assms(2), of "Suc ?k" "length ls"]
      by (cases "?k < length ls") auto
  qed
qed

lemma QtyForNotional_shortfall:
  assumes "0 < px" "0 < n" "in_i64 n" "n \<le> NotionalWide px qty" "in_i64 qty" "0 < qty"
  shows "(n - NotionalWide px (QtyForNotional n px)) * kScale < px + kScale"
proof -
  let ?q = "n * kScale div px"
  have "n * kScale \<le> px * qty"
    using assms by (simp add: NotionalWide_nonneg le_div_iff_mult_le)
  then have "?q \<le> qty" using assms(1) zdiv_mono1 [of "n * kScale" "px * qty" px] by simp
  then have q: "QtyForNotional n px = ?q" using assms by (simp add: QtyForNotional_eq i64_bounds)
  have "0 \<le> ?q" using assms by (simp add: pos_imp_zdiv_nonneg_iff)
  then have N: "NotionalWide px ?q = px * ?q div kScale" using assms by (simp add: NotionalWide_nonneg)
  have "n * kScale < px * ?q + px"
    using assms(1) pos_mod_bound [of px "n * kScale"] by (simp add: algebra_simps minus_mod_eq_mult_div [symmetric])
  moreover have "px * ?q < (px * ?q div kScale) * kScale + kScale"
    using pos_mod_bound [of kScale "px * ?q"] by (simp add: algebra_simps minus_mod_eq_mult_div [symmetric])
  ultimately show ?thesis unfolding q N by (simp add: left_diff_distrib)
qed

lemma volume_band_filled:
  assumes pos: "positive_ladder ls" and t: "0 < target" "in_i64 target" and full: "target \<le> cum_notional ls"
  shows "vb_fully_filled (volume_band ls target)"
    and "vb_filled_notional_e8 (volume_band ls target) \<le> target"
    and "\<exists>l\<in>set ls. (target - vb_filled_notional_e8 (volume_band ls target)) * kScale < mpx l + kScale"
proof -
  let ?k = "crossing ls target"
  let ?l = "ls ! ?k"
  let ?n = "cum_notional (take ?k ls)"
  let ?N = "NotionalWide (mpx ?l) (mqty ?l)"
  have k: "?k < length ls" using crossing_cases(1,2) [OF t(1) pos] full t(1) by (cases "ls = []") auto
  have l: "0 < mpx ?l" "0 < mqty ?l" "in_i64 (mqty ?l)" "?l \<in> set ls"
    using pos k by (auto simp: positive_ladder_def)
  have cross: "?n < target" "target \<le> ?n + ?N"
    using crossing_cases(3) [OF t(1) pos k] k by (simp_all add: take_Suc_conv_app_nth)
  have n0: "0 \<le> ?n" using pos by (intro cum_nonneg(1) positive_ladder_take)
  have rest: "0 < target - ?n" "in_i64 (target - ?n)"
    using cross n0 t by (simp_all add: i64_bounds)
  define part where "part = (if ?n + ?N \<le> target then mqty ?l else QtyForNotional (target - ?n) (mpx ?l))"
  have part0: "0 \<le> part"
    using l QtyForNotional_bounds(1) [OF l(1) rest] by (simp add: part_def)
  have band: "volume_band ls target = CloseVolumeBand target (mpx ?l)
      (if ?k = 0 then mpx (hd ls) else mpx (ls ! (?k - 1))) part (cum_qty (take ?k ls)) ?n (int ?k)"
    using k by (simp add: volume_band_def Let_def part_def)
  then show "vb_fully_filled (volume_band ls target)" by (simp add: CloseVolumeBand_def Let_def)
  define f where "f = ?n + NotionalWide (mpx ?l) part"
  have upper: "f \<le> target"
    using QtyForNotional_no_overfill [OF l(1) rest] by (simp add: f_def part_def)
  have gap: "(target - f) * kScale < mpx ?l + kScale"
  proof (cases "?n + ?N \<le> target")
    case True
    with cross(2) have "f = target" by (simp add: f_def part_def)
    then show ?thesis using l(1) by (simp add: add_pos_pos)
  next
    case False
    with QtyForNotional_shortfall [OF l(1) rest _ l(3,2)] cross(2) show ?thesis
      by (simp add: f_def part_def algebra_simps)
  qed
  have "0 \<le> f" using n0 part0 l(1) by (simp add: f_def NotionalWide_ge0)
  then have "in_i64 f" using upper t(2) in_i64_between by blast
  moreover have "vb_filled_notional_e8 (volume_band ls target) = NarrowSaturating f"
    using part0 by (auto simp: band CloseVolumeBand_def Let_def f_def NotionalWide_def)
  ultimately have filled: "vb_filled_notional_e8 (volume_band ls target) = f" by simp
  show "vb_filled_notional_e8 (volume_band ls target) \<le> target" using filled upper by simp
  show "\<exists>l\<in>set ls. (target - vb_filled_notional_e8 (volume_band ls target)) * kScale < mpx l + kScale"
    unfolding filled using gap l(4) by blast
qed

lemma volume_band_short:
  assumes "positive_ladder ls" "0 < target" "cum_notional ls < target" "in_i64 target" "in_i64 (cum_qty ls)"
  shows "\<not> vb_fully_filled (volume_band ls target)"
    and "vb_filled_notional_e8 (volume_band ls target) = cum_notional ls"
    and "vb_filled_qty_e8 (volume_band ls target) = cum_qty ls"
proof -
  have "crossing ls target = length ls" using crossing_cases(2) [OF assms(2,1)] assms(3) by simp
  moreover have "in_i64 (cum_notional ls)"
    using in_i64_between [OF cum_nonneg(1) [OF assms(1)] _ assms(4)] assms(3) by simp
  ultimately show "\<not> vb_fully_filled (volume_band ls target)"
    "vb_filled_notional_e8 (volume_band ls target) = cum_notional ls"
    "vb_filled_qty_e8 (volume_band ls target) = cum_qty ls"
    using assms(5) by (simp_all add: volume_band_def Let_def default_volume_band_def)
qed

lemma ComputeSideBands_bands:
  assumes "lv_levels side \<noteq> []" "positive_ladder (lv_levels side)"
    and "sorted_wrt (Better (lv_descending side)) (map mpx (lv_levels side))"
    and "sorted (notionals_e8 config)" "sorted (offsets_bps_e8 config)"
  shows "ComputeSideBands side config =
    \<lparr>sb_volume = map (volume_band (lv_levels side)) (notionals_e8 config) @ [open_volume_band (lv_levels side)],
     sb_price = map (price_band (lv_descending side) (lv_levels side)) (offsets_bps_e8 config) @
                [open_price_band (lv_levels side)]\<rparr>"
proof -
  let ?ls = "lv_levels side" and ?d = "lv_descending side"
  have ref: "ViewBestPx side = mpx (hd ?ls)" using assms(1) by (cases ?ls) (simp_all add: ViewBestPx_def)
  have hd: "0 < mpx (hd ?ls)" "in_i64 (mpx (hd ?ls))" using assms(1,2) by (auto simp: positive_ladder_def)
  have "volume_from 0 0 0 (mpx (hd ?ls)) ?ls = volume_band ?ls"
    using volume_from_band [of "[]" ?ls] assms(1) by (simp add: fun_eq_iff)
  moreover have "price_from ?d (mpx (hd ?ls)) 0 0 0 ?ls = price_band ?d ?ls"
    using price_from_band [of "[]" ?ls "mpx (hd ?ls)" ?d] assms(1,3) by (simp add: fun_eq_iff)
  ultimately show ?thesis
    using finish_walk_foldl [OF hd(2), of "start_walk config (mpx (hd ?ls))" ?d ?ls] assms hd
    by (simp add: ComputeSideBands_def ref Let_def start_walk_def open_price_band_def open_volume_band_def
        volume_short_def default_volume_band_def)
qed

section \<open>Properties\<close>


definition example_side :: LadderView where
  "example_side =
     \<lparr>lv_levels = [\<lparr>mpx = 10000000000, mqty = 200000000\<rparr>, \<lparr>mpx = 10100000000, mqty = 300000000\<rparr>],
      lv_descending = False\<rparr>"

definition example_config :: BandConfig where
  "example_config = \<lparr>notionals_e8 = [15000000000, 40000000000, 90000000000], offsets_bps_e8 = [5000000000]\<rparr>"

lemma example_side_ok:
  "lv_levels example_side \<noteq> []" "positive_ladder (lv_levels example_side)"
  "sorted_wrt (Better (lv_descending example_side)) (map mpx (lv_levels example_side))"
  "sorted (notionals_e8 example_config)" "sorted (offsets_bps_e8 example_config)"
  by (simp_all add: example_side_def example_config_def positive_ladder_def i64_bounds Better_def)




text \<open>With both sides present and positive prices, the mid lies within half a unit below the
  exact midpoint, the spread is the exact difference, and the touch is crossed if and only if the
  spread is not positive; an uncrossed mid lies between the two best prices.\<close>

theorem ComputeTouch_correct:
  assumes "lv_levels bids = b # bs" "lv_levels asks = a # as"
    and "0 < mpx b" "0 < mpx a" "in_i64 (mpx b)" "in_i64 (mpx a)"
  shows "let t = ComputeTouch bids asks
         in has_bid t \<and> has_ask t \<and> best_bid t = mpx b \<and> best_ask t = mpx a \<and>
            2 * mid t \<le> mpx b + mpx a \<and> mpx b + mpx a < 2 * mid t + 2 \<and>
            spread_e8 t = mpx a - mpx b \<and> (crossed t \<longleftrightarrow> spread_e8 t \<le> 0) \<and>
            (\<not> crossed t \<longrightarrow> mpx b \<le> mid t \<and> mid t < mpx a)"
proof -
  let ?m = "(mpx b + mpx a) div 2"
  have m: "2 * ?m \<le> mpx b + mpx a" "mpx b + mpx a < 2 * ?m + 2" by linarith+
  have "in_i64 ?m" "in_i64 (mpx a - mpx b)" using assms by (auto simp: i64_bounds)
  then have "ComputeTouch bids asks = default_touch\<lparr>best_bid := mpx b, best_ask := mpx a, has_bid := True,
      has_ask := True, mid := ?m, spread_e8 := mpx a - mpx b,
      spread_bps_e8 := BpsE8 (mpx a - mpx b) ?m, crossed := (mpx b \<ge> mpx a)\<rparr>"
    using assms by (simp add: ComputeTouch_def ViewBestPx_def Let_def default_touch_def)
  with m show ?thesis by (auto simp: Let_def)
qed

theorem ComputeTouch_correct_witness:
  "mid (ComputeTouch \<lparr>lv_levels = [\<lparr>mpx = 101, mqty = 1\<rparr>], lv_descending = True\<rparr>
          \<lparr>lv_levels = [\<lparr>mpx = 104, mqty = 1\<rparr>], lv_descending = False\<rparr>) = 102"
  using ComputeTouch_correct [of "\<lparr>lv_levels = [\<lparr>mpx = 101, mqty = 1\<rparr>], lv_descending = True\<rparr>"
      "\<lparr>mpx = 101, mqty = 1\<rparr>" "[]" "\<lparr>lv_levels = [\<lparr>mpx = 104, mqty = 1\<rparr>], lv_descending = False\<rparr>"
      "\<lparr>mpx = 104, mqty = 1\<rparr>" "[]"]
  by (simp add: i64_bounds Let_def)

end
