(* ===== verification/Spsc_Ring.thy ===== *)
theory Spsc_Ring
  imports Md_Prelude
begin

text \<open>
  The bounded single-producer single-consumer queue between a venue thread and the engine
  (\<^verbatim>\<open>src/core/spsc_ring.h\<close>). Head and tail are free-running 64-bit counters that wrap; a slot
  is addressed by masking. The sequential operations refine a bounded FIFO queue; the threads'
  interleavings are a step relation whose steps are the single memory accesses of \<^verbatim>\<open>Push\<close> and
  \<^verbatim>\<open>Pop\<close>.

  \<open>T\<close> is the type variable; \<open>moved\<close> is what moving out of a slot leaves behind, which the
  queue must not depend on.
\<close>

unbundle bit_operations_syntax

section \<open>Data and operations\<close>

record 'a SpscRing =
  rg_capacity :: u64
  rg_mask :: u64
  rg_slots :: "'a list"
  rg_head :: u64
  rg_tail :: u64

text \<open>The loop of \<^verbatim>\<open>RoundUpPow2\<close>; \<open>None\<close> is a loop that never ends.\<close>

partial_function (option) round_up_loop :: "u64 \<Rightarrow> u64 \<Rightarrow> u64 option" where
  "round_up_loop v p = (if p < v then round_up_loop v (push_bit 1 p) else Some p)"

declare round_up_loop.simps [code]

definition RoundUpPow2 :: "u64 \<Rightarrow> u64 option" where
  "RoundUpPow2 v = round_up_loop v 1"

definition new_ring :: "'a \<Rightarrow> u64 \<Rightarrow> 'a SpscRing option" where
  "new_ring dflt capacity =
     map_option (\<lambda>c. \<lparr>rg_capacity = c, rg_mask = c - 1, rg_slots = replicate (unat c) dflt,
                      rg_head = 0, rg_tail = 0\<rparr>)
       (RoundUpPow2 capacity)"

definition write_slot :: "'a SpscRing \<Rightarrow> u64 \<Rightarrow> 'a \<Rightarrow> 'a SpscRing" where
  "write_slot r i v = r\<lparr>rg_slots := (rg_slots r)[unat (i AND rg_mask r) := v]\<rparr>"

definition read_slot :: "'a SpscRing \<Rightarrow> u64 \<Rightarrow> 'a" where
  "read_slot r i = rg_slots r ! unat (i AND rg_mask r)"

definition Push :: "'a SpscRing \<Rightarrow> 'a \<Rightarrow> 'a SpscRing \<times> bool" where
  "Push r value =
     (let head = rg_head r
      in if head - rg_tail r \<ge> rg_capacity r then (r, False)
         else ((write_slot r head value)\<lparr>rg_head := head + 1\<rparr>, True))"

definition Pop :: "('a \<Rightarrow> 'a) \<Rightarrow> 'a SpscRing \<Rightarrow> 'a SpscRing \<times> 'a option" where
  "Pop moved r =
     (let tail = rg_tail r
      in if tail = rg_head r then (r, None)
         else let out = read_slot r tail
              in ((write_slot r tail (moved out))\<lparr>rg_tail := tail + 1\<rparr>, Some out))"

definition ring_size :: "'a SpscRing \<Rightarrow> u64" where
  "ring_size r = rg_head r - rg_tail r"

definition ring_empty :: "'a SpscRing \<Rightarrow> bool" where
  "ring_empty r = (ring_size r = 0)"

section \<open>Rounding the capacity\<close>

lemma round_up_power:
  assumes "v \<le> 2 ^ 63" "k \<le> 63" "k = 0 \<or> 2 ^ (k - 1) < v"
  shows "\<exists>j\<le>63. round_up_loop v (2 ^ k) = Some (2 ^ j) \<and> v \<le> 2 ^ j \<and> (j = 0 \<or> 2 ^ (j - 1) < v)"
  using assms(2,3)
proof (induction "63 - k" arbitrary: k)
  case 0
  then have "k = 63" by simp
  with 0 assms(1) show ?case
    by (subst round_up_loop.simps) (auto intro: exI [of _ 63])
next
  case (Suc n)
  show ?case
  proof (cases "(2 :: u64) ^ k < v")
    case True
    then have "round_up_loop v (2 ^ k) = round_up_loop v (2 ^ Suc k)"
      by (subst round_up_loop.simps) (simp add: push_bit_eq_mult mult.commute)
    with True Suc.hyps(1) [of "Suc k"] Suc.hyps(2) Suc.prems show ?thesis by simp
  next
    case False
    with Suc.prems show ?thesis
      by (subst round_up_loop.simps) (auto simp: not_less intro: exI [of _ k])
  qed
qed

lemma round_up_result:
  "round_up_loop v p = Some y \<Longrightarrow> p = 0 \<or> (\<exists>k\<le>63. p = 2 ^ k) \<Longrightarrow>
     v \<le> y \<and> (y = 0 \<or> (\<exists>k\<le>63. y = 2 ^ k))"
proof (induction rule: round_up_loop.raw_induct [rotated 1, consumes 1])
  case (1 f v p y)
  have "push_bit 1 p = 0 \<or> (\<exists>k\<le>63. push_bit 1 p = 2 ^ k)"
    using "1.prems"
  proof (elim disjE exE conjE)
    fix k :: nat
    assume k: "k \<le> 63" "p = 2 ^ k"
    show ?thesis
    proof (cases "k = 63")
      case True
      with k show ?thesis by (simp add: push_bit_eq_mult)
    next
      case False
      with k show ?thesis by (intro disjI2 exI [of _ "Suc k"]) (simp add: push_bit_eq_mult)
    qed
  qed simp
  with 1 show ?case by (auto simp: not_less split: if_splits)
qed

section \<open>Slots and counters\<close>

text \<open>
  The counters stand for natural numbers \<open>H\<close> and \<open>T\<close>, the numbers of pushes and pops so
  far. As the capacity is a power of two that divides \<open>2 ^ 64\<close>, masking a wrapped counter still
  gives the position modulo the capacity.
\<close>

definition ring_rep :: "'a SpscRing \<Rightarrow> nat \<Rightarrow> nat \<Rightarrow> nat \<Rightarrow> bool" where
  "ring_rep r k H T \<longleftrightarrow>
     k \<le> 63 \<and> rg_capacity r = 2 ^ k \<and> rg_mask r = 2 ^ k - 1 \<and> length (rg_slots r) = 2 ^ k \<and>
     rg_head r = of_nat H \<and> rg_tail r = of_nat T \<and> T \<le> H \<and> H \<le> T + 2 ^ k"

lemma masked_index:
  assumes "k \<le> 63"
  shows "unat ((of_nat i :: u64) AND (2 ^ k - 1)) = i mod 2 ^ k"
proof -
  have "(of_nat i :: u64) AND (2 ^ k - 1) = take_bit k (of_nat i)"
    by (simp add: take_bit_eq_mask mask_eq_exp_minus_1)
  also have "unat \<dots> = take_bit k (unat (of_nat i :: u64))" by (simp add: unsigned_take_bit_eq)
  also have "\<dots> = i mod 2 ^ 64 mod 2 ^ k" by (simp add: unat_of_nat take_bit_eq_mod)
  also have "\<dots> = i mod 2 ^ k" using assms by (intro mod_mod_cancel le_imp_power_dvd) simp
  finally show ?thesis .
qed

lemma pow_le_63: "k \<le> 63 \<Longrightarrow> (2 :: nat) ^ k < 2 ^ 64"
  by (rule power_strict_increasing) simp_all

lemma unat_pow: "k \<le> 63 \<Longrightarrow> unat (2 ^ k :: u64) = 2 ^ k"
  using unat_of_nat [of "2 ^ k", where ?'a = 64] pow_le_63 [of k] by simp

lemma counter_diff:
  assumes "T \<le> H" "H \<le> T + 2 ^ k" "k \<le> 63"
  shows "unat (of_nat H - of_nat T :: u64) = H - T"
proof -
  have "(of_nat H - of_nat T :: u64) = of_nat (H - T)" using assms(1) by (simp add: of_nat_diff)
  moreover have "H - T < 2 ^ 64" using assms pow_le_63 [OF assms(3)] by linarith
  ultimately show ?thesis by (simp add: unat_of_nat)
qed

lemma slot_rep:
  assumes "ring_rep r k H T"
  shows "read_slot r (of_nat i) = rg_slots r ! (i mod 2 ^ k)"
    and "rg_slots (write_slot r (of_nat i) v) = (rg_slots r)[i mod 2 ^ k := v]"
    and "ring_rep (write_slot r (of_nat i) v) k H T"
  using assms by (auto simp: ring_rep_def read_slot_def write_slot_def masked_index)

lemma full_iff:
  assumes "ring_rep r k H T"
  shows "rg_head r - rg_tail r \<ge> rg_capacity r \<longleftrightarrow> H = T + 2 ^ k"
    and "rg_tail r = rg_head r \<longleftrightarrow> H = T"
    and "unat (ring_size r) = H - T"
proof -
  have r: "k \<le> 63" "T \<le> H" "H \<le> T + 2 ^ k" "rg_head r = of_nat H" "rg_tail r = of_nat T" "rg_capacity r = 2 ^ k"
    using assms by (auto simp: ring_rep_def)
  note diff = counter_diff [OF r(2,3,1)]
  show "unat (ring_size r) = H - T" using diff r by (simp add: ring_size_def)
  show "rg_head r - rg_tail r \<ge> rg_capacity r \<longleftrightarrow> H = T + 2 ^ k"
    using diff r by (auto simp: word_le_nat_alt unat_pow)
  show "rg_tail r = rg_head r \<longleftrightarrow> H = T"
    using diff r by (metis cancel_comm_monoid_add_class.diff_cancel diff_is_0_eq le_antisym right_minus_eq
        unsigned_eq_0_iff)
qed

lemma mod_window_inj:
  assumes "(i :: nat) mod c = j mod c" "T \<le> i" "i < T + c" "T \<le> j" "j < T + c"
  shows "i = j"
proof (cases "i \<le> j")
  case True
  with assms have "c dvd j - i" by (metis mod_eq_dvd_iff_nat)
  moreover have "j - i < c" using assms True by linarith
  ultimately show ?thesis using True nat_dvd_not_less by fastforce
next
  case False
  with assms have "c dvd i - j" by (metis mod_eq_dvd_iff_nat nat_le_linear)
  moreover have "i - j < c" using assms False by linarith
  ultimately show ?thesis using False nat_dvd_not_less by fastforce
qed


section \<open>The queue's contract\<close>

text \<open>
  What the engine relies on: a queue that either takes a value at its end or refuses it and
  stays as it is, and that gives the values back in order. \<open>fifo_run\<close> runs a sequence of
  operations and collects the accepted and the returned values.
\<close>

datatype 'a QueueOp = PushOp 'a | PopOp

fun fifo_run ::
  "('q \<Rightarrow> 'a \<Rightarrow> 'q \<times> bool) \<Rightarrow> ('q \<Rightarrow> 'q \<times> 'a option) \<Rightarrow> 'q \<Rightarrow> 'a QueueOp list \<Rightarrow> 'q \<times> 'a list \<times> 'a list" where
  "fifo_run push pop q [] = (q, [], [])"
| "fifo_run push pop q (PushOp v # ops) =
     (let (q1, taken) = push q v; (q2, acc, out) = fifo_run push pop q1 ops
      in (q2, (if taken then v # acc else acc), out))"
| "fifo_run push pop q (PopOp # ops) =
     (let (q1, got) = pop q; (q2, acc, out) = fifo_run push pop q1 ops
      in (q2, acc, (case got of None \<Rightarrow> out | Some v \<Rightarrow> v # out)))"

locale bounded_fifo =
  fixes ok :: "'q \<Rightarrow> bool" and contents :: "'q \<Rightarrow> 'a list" and cap :: "'q \<Rightarrow> nat"
    and push :: "'q \<Rightarrow> 'a \<Rightarrow> 'q \<times> bool" and pop :: "'q \<Rightarrow> 'q \<times> 'a option"
  assumes bounded: "ok q \<Longrightarrow> length (contents q) \<le> cap q"
    and push_ok: "ok q \<Longrightarrow> ok (fst (push q v)) \<and> cap (fst (push q v)) = cap q"
    and pop_ok: "ok q \<Longrightarrow> ok (fst (pop q)) \<and> cap (fst (pop q)) = cap q"
    and push_full: "ok q \<Longrightarrow> length (contents q) = cap q \<Longrightarrow> push q v = (q, False)"
    and push_room: "ok q \<Longrightarrow> length (contents q) < cap q \<Longrightarrow>
      snd (push q v) \<and> contents (fst (push q v)) = contents q @ [v]"
    and pop_empty: "ok q \<Longrightarrow> contents q = [] \<Longrightarrow> pop q = (q, None)"
    and pop_head: "ok q \<Longrightarrow> contents q = v # vs \<Longrightarrow>
      snd (pop q) = Some v \<and> contents (fst (pop q)) = vs"
begin

lemma push_contents:
  assumes "ok q"
  shows "contents (fst (push q v)) = (if snd (push q v) then contents q @ [v] else contents q)"
  using push_full [OF assms, of v] push_room [OF assms, of v] bounded [OF assms] by (auto simp: le_less)

lemma pop_contents:
  assumes "ok q"
  shows "contents q = (case snd (pop q) of None \<Rightarrow> [] | Some v \<Rightarrow> [v]) @ contents (fst (pop q))"
  using pop_empty [OF assms] pop_head [OF assms] by (cases "contents q") auto

lemma run_conserves:
  assumes "ok q" "fifo_run push pop q ops = (q', accepted, returned)"
  shows "contents q @ accepted = returned @ contents q' \<and> ok q' \<and> cap q' = cap q"
  using assms
proof (induction ops arbitrary: q accepted returned)
  case (Cons op ops)
  show ?case
  proof (cases op)
    case (PushOp v)
    obtain acc out where run: "fifo_run push pop (fst (push q v)) ops = (q', acc, out)"
      "accepted = (if snd (push q v) then v # acc else acc)" "returned = out"
      using Cons.prems(2) PushOp by (cases "fifo_run push pop (fst (push q v)) ops") (auto simp: split_beta Let_def)
    with Cons.IH [OF _ run(1)] push_ok [OF Cons.prems(1), of v] push_contents [OF Cons.prems(1), of v]
    show ?thesis by (auto split: if_splits)
  next
    case PopOp
    obtain acc out where run: "fifo_run push pop (fst (pop q)) ops = (q', acc, out)" "accepted = acc"
      "returned = (case snd (pop q) of None \<Rightarrow> out | Some v \<Rightarrow> v # out)"
      using Cons.prems(2) PopOp by (cases "fifo_run push pop (fst (pop q)) ops") (auto simp: split_beta Let_def split: option.splits)
    with Cons.IH [OF _ run(1)] pop_ok [OF Cons.prems(1)] pop_contents [OF Cons.prems(1)]
    show ?thesis by (auto split: option.splits)
  qed
qed simp

end

section \<open>The ring keeps the contract\<close>

definition ring_ok :: "'a SpscRing \<Rightarrow> bool" where
  "ring_ok r \<longleftrightarrow> (\<exists>k H T. ring_rep r k H T)"

definition ring_contents :: "'a SpscRing \<Rightarrow> 'a list" where
  "ring_contents r = map (\<lambda>i. read_slot r (rg_tail r + of_nat i)) [0..<unat (ring_size r)]"

definition ring_cap :: "'a SpscRing \<Rightarrow> nat" where
  "ring_cap r = unat (rg_capacity r)"

lemma ring_contents_rep:
  assumes "ring_rep r k H T"
  shows "ring_contents r = map (\<lambda>i. rg_slots r ! (i mod 2 ^ k)) [T..<H]"
proof -
  have "read_slot r (rg_tail r + of_nat i) = rg_slots r ! ((T + i) mod 2 ^ k)" for i
    using slot_rep(1) [OF assms, of "T + i"] assms by (simp add: ring_rep_def)
  moreover have "[T..<H] = map (\<lambda>i. T + i) [0..<H - T]" 
    using assms by (simp add: map_add_upt add.commute ring_rep_def)
  ultimately show ?thesis
    using full_iff(3) [OF assms] by (simp add: ring_contents_def comp_def)
qed

lemma ring_cap_rep: "ring_rep r k H T \<Longrightarrow> ring_cap r = 2 ^ k"
  by (simp add: ring_cap_def ring_rep_def unat_pow)

lemma slots_updated_outside:
  assumes "T \<le> j" "j < T + 2 ^ k" "\<forall>i\<in>set is. T \<le> i \<and> i < T + 2 ^ k \<and> i \<noteq> j" "length xs = 2 ^ k"
  shows "map (\<lambda>i. xs[j mod 2 ^ k := v] ! (i mod 2 ^ k)) is = map (\<lambda>i. xs ! (i mod 2 ^ k)) is"
  using assms mod_window_inj [of _ "2 ^ k" j T] by (auto simp: nth_list_update)

lemma Push_rep:
  assumes rep: "ring_rep r k H T" and room: "H < T + 2 ^ k"
  shows "snd (Push r v)" "ring_rep (fst (Push r v)) k (Suc H) T"
    and "ring_contents (fst (Push r v)) = ring_contents r @ [v]"
proof -
  have bounds: "T \<le> H" "length (rg_slots r) = 2 ^ k" using rep by (auto simp: ring_rep_def)
  have push: "Push r v = ((write_slot r (of_nat H) v)\<lparr>rg_head := of_nat (Suc H)\<rparr>, True)"
    using rep room full_iff(1) [OF rep] by (auto simp: Push_def Let_def ring_rep_def add.commute)
  show "snd (Push r v)" by (simp add: push)
  show rep': "ring_rep (fst (Push r v)) k (Suc H) T"
    using slot_rep(3) [OF rep, of H v] room by (auto simp: push ring_rep_def)
  have "map (\<lambda>i. (rg_slots r)[H mod 2 ^ k := v] ! (i mod 2 ^ k)) [T..<H] =
        map (\<lambda>i. rg_slots r ! (i mod 2 ^ k)) [T..<H]"
    using room bounds by (intro slots_updated_outside [of T]) auto
  then show "ring_contents (fst (Push r v)) = ring_contents r @ [v]"
    unfolding ring_contents_rep [OF rep'] ring_contents_rep [OF rep]
    using bounds by (simp add: push slot_rep(2) [OF rep])
qed

lemma Pop_rep:
  assumes rep: "ring_rep r k H T" and some: "T < H"
  shows "ring_rep (fst (Pop moved r)) k H (Suc T)"
    and "ring_contents r = the (snd (Pop moved r)) # ring_contents (fst (Pop moved r))"
    and "snd (Pop moved r) \<noteq> None"
proof -
  have bounds: "H \<le> T + 2 ^ k" "length (rg_slots r) = 2 ^ k" using rep by (auto simp: ring_rep_def)
  define out where "out = rg_slots r ! (T mod 2 ^ k)"
  have pop: "Pop moved r = ((write_slot r (of_nat T) (moved out))\<lparr>rg_tail := of_nat (Suc T)\<rparr>, Some out)"
    using rep some full_iff(2) [OF rep] slot_rep(1) [OF rep, of T]
    by (auto simp: Pop_def Let_def ring_rep_def out_def add.commute)
  show "snd (Pop moved r) \<noteq> None" by (simp add: pop)
  show rep': "ring_rep (fst (Pop moved r)) k H (Suc T)"
    using slot_rep(3) [OF rep, of T "moved out"] some by (auto simp: pop ring_rep_def)
  have "map (\<lambda>i. (rg_slots r)[T mod 2 ^ k := moved out] ! (i mod 2 ^ k)) [Suc T..<H] =
        map (\<lambda>i. rg_slots r ! (i mod 2 ^ k)) [Suc T..<H]"
    using bounds some by (intro slots_updated_outside [of T]) auto
  then show "ring_contents r = the (snd (Pop moved r)) # ring_contents (fst (Pop moved r))"
    unfolding ring_contents_rep [OF rep'] ring_contents_rep [OF rep]
    using some by (simp add: pop slot_rep(2) [OF rep] upt_conv_Cons out_def)
qed

interpretation ring: bounded_fifo ring_ok ring_contents ring_cap Push "Pop moved" for moved
proof
  fix q :: "'a SpscRing" and v vs
  assume "ring_ok q"
  then obtain k H T where rep: "ring_rep q k H T" by (auto simp: ring_ok_def)
  have bounds: "T \<le> H" "H \<le> T + 2 ^ k" using rep by (auto simp: ring_rep_def)
  have len: "length (ring_contents q) = H - T" and cap: "ring_cap q = 2 ^ k"
    by (simp_all add: ring_contents_rep [OF rep] ring_cap_rep [OF rep])
  have full: "Push q v = (q, False)" if "H = T + 2 ^ k"
    using full_iff(1) [OF rep] that by (simp add: Push_def Let_def)
  have none: "Pop moved q = (q, None)" if "H = T"
    using full_iff(2) [OF rep] that by (simp add: Pop_def Let_def)
  show "length (ring_contents q) \<le> ring_cap q" using bounds len cap by simp
  show "ring_ok (fst (Push q v)) \<and> ring_cap (fst (Push q v)) = ring_cap q"
    using Push_rep(2) [OF rep, of v] ring_cap_rep cap full bounds rep
    by (cases "H = T + 2 ^ k") (auto simp: ring_ok_def)
  show "ring_ok (fst (Pop moved q)) \<and> ring_cap (fst (Pop moved q)) = ring_cap q"
    using Pop_rep(1) [OF rep, of moved] ring_cap_rep cap none bounds rep
    by (cases "H = T") (auto simp: ring_ok_def)
  show "Push q v = (q, False)" if "length (ring_contents q) = ring_cap q"
    using that len cap bounds by (intro full) simp
  show "snd (Push q v) \<and> ring_contents (fst (Push q v)) = ring_contents q @ [v]"
    if "length (ring_contents q) < ring_cap q"
    using that len cap bounds Push_rep [OF rep, of v] by auto
  show "Pop moved q = (q, None)" if "ring_contents q = []"
    using that len bounds by (intro none) simp
  show "snd (Pop moved q) = Some v \<and> ring_contents (fst (Pop moved q)) = vs" if "ring_contents q = v # vs"
    using that len bounds Pop_rep(2,3) [OF rep, of moved] by (cases "T < H") auto
qed

lemma new_ring_ok:
  assumes "capacity \<le> 2 ^ 63"
  shows "\<exists>r. new_ring dflt capacity = Some r \<and> ring_ok r \<and> ring_contents r = [] \<and>
           unat capacity \<le> ring_cap r"
proof -
  obtain k where k: "k \<le> 63" "RoundUpPow2 capacity = Some (2 ^ k)" "capacity \<le> 2 ^ k"
    using round_up_power [OF assms, of 0] by (auto simp: RoundUpPow2_def)
  define r where "r = \<lparr>rg_capacity = 2 ^ k, rg_mask = 2 ^ k - 1, rg_slots = replicate (2 ^ k) dflt,
      rg_head = (0 :: u64), rg_tail = 0\<rparr>"
  have rep: "ring_rep r k 0 0" using k(1) by (simp add: r_def ring_rep_def)
  have "new_ring dflt capacity = Some r" using k(1,2) by (simp add: new_ring_def r_def unat_pow)
  moreover have "unat capacity \<le> ring_cap r"
    using k(1,3) ring_cap_rep [OF rep] by (simp add: word_le_nat_alt unat_pow)
  moreover have "ring_contents r = []" by (simp add: ring_contents_rep [OF rep])
  ultimately show ?thesis using rep by (auto simp: ring_ok_def)
qed

section \<open>Two threads\<close>

text \<open>
  The interleavings of one producer and one consumer. A step is one access to the shared memory:
  the check of the other side's counter, the access to the slot, the release of one's own counter.
  The owner's relaxed load of its own counter is part of its check. \<open>pushed\<close> and
  \<open>popped\<close> record the completed operations in order.
\<close>

datatype 'a ProducerPc = ProdIdle | ProdChecked 'a u64 | ProdWritten 'a u64
datatype 'a ConsumerPc = ConsIdle | ConsChecked u64 | ConsTaken u64 'a

record 'a Threads =
  th_ring :: "'a SpscRing"
  th_prod :: "'a ProducerPc"
  th_cons :: "'a ConsumerPc"
  pushed :: "'a list"
  popped :: "'a list"

inductive spsc_step :: "('a \<Rightarrow> 'a) \<Rightarrow> 'a Threads \<Rightarrow> 'a Threads \<Rightarrow> bool" for moved where
  push_full: "th_prod s = ProdIdle \<Longrightarrow> rg_head (th_ring s) - rg_tail (th_ring s) \<ge> rg_capacity (th_ring s) \<Longrightarrow>
     spsc_step moved s s"
| push_check: "th_prod s = ProdIdle \<Longrightarrow> \<not> rg_head (th_ring s) - rg_tail (th_ring s) \<ge> rg_capacity (th_ring s) \<Longrightarrow>
     spsc_step moved s (s\<lparr>th_prod := ProdChecked v (rg_head (th_ring s))\<rparr>)"
| push_write: "th_prod s = ProdChecked v head \<Longrightarrow>
     spsc_step moved s (s\<lparr>th_ring := write_slot (th_ring s) head v, th_prod := ProdWritten v head\<rparr>)"
| push_release: "th_prod s = ProdWritten v head \<Longrightarrow>
     spsc_step moved s (s\<lparr>th_ring := (th_ring s)\<lparr>rg_head := head + 1\<rparr>, th_prod := ProdIdle,
                          pushed := pushed s @ [v]\<rparr>)"
| pop_empty: "th_cons s = ConsIdle \<Longrightarrow> rg_tail (th_ring s) = rg_head (th_ring s) \<Longrightarrow> spsc_step moved s s"
| pop_check: "th_cons s = ConsIdle \<Longrightarrow> rg_tail (th_ring s) \<noteq> rg_head (th_ring s) \<Longrightarrow>
     spsc_step moved s (s\<lparr>th_cons := ConsChecked (rg_tail (th_ring s))\<rparr>)"
| pop_take: "th_cons s = ConsChecked tail \<Longrightarrow> out = read_slot (th_ring s) tail \<Longrightarrow>
     spsc_step moved s (s\<lparr>th_ring := write_slot (th_ring s) tail (moved out), th_cons := ConsTaken tail out\<rparr>)"
| pop_release: "th_cons s = ConsTaken tail out \<Longrightarrow>
     spsc_step moved s (s\<lparr>th_ring := (th_ring s)\<lparr>rg_tail := tail + 1\<rparr>, th_cons := ConsIdle,
                          popped := popped s @ [out]\<rparr>)"

inductive spsc_reach :: "('a \<Rightarrow> 'a) \<Rightarrow> 'a SpscRing \<Rightarrow> 'a Threads \<Rightarrow> bool" for moved r0 where
  start: "spsc_reach moved r0 \<lparr>th_ring = r0, th_prod = ProdIdle, th_cons = ConsIdle, pushed = [], popped = []\<rparr>"
| step: "spsc_reach moved r0 s \<Longrightarrow> spsc_step moved s s' \<Longrightarrow> spsc_reach moved r0 s'"

text \<open>The slots that hold values not yet taken are all those between the two counters.\<close>

definition taken_up_to :: "'a Threads \<Rightarrow> nat" where
  "taken_up_to s = length (popped s) + (case th_cons s of ConsTaken _ _ \<Rightarrow> 1 | _ \<Rightarrow> 0)"

definition spsc_inv :: "nat \<Rightarrow> 'a Threads \<Rightarrow> bool" where
  "spsc_inv k s \<longleftrightarrow>
     (let H = length (pushed s); T = length (popped s); slots = rg_slots (th_ring s)
      in ring_rep (th_ring s) k H T \<and>
         popped s = take T (pushed s) \<and>
         (\<forall>i\<in>{taken_up_to s..<H}. slots ! (i mod 2 ^ k) = pushed s ! i) \<and>
         (case th_prod s of
            ProdIdle \<Rightarrow> True
          | ProdChecked v head \<Rightarrow> head = of_nat H \<and> H < T + 2 ^ k
          | ProdWritten v head \<Rightarrow> head = of_nat H \<and> H < T + 2 ^ k \<and> slots ! (H mod 2 ^ k) = v) \<and>
         (case th_cons s of
            ConsIdle \<Rightarrow> True
          | ConsChecked tail \<Rightarrow> tail = of_nat T \<and> T < H
          | ConsTaken tail out \<Rightarrow> tail = of_nat T \<and> T < H \<and> out = pushed s ! T))"

lemma nth_update_window:
  assumes "T \<le> i" "i < T + 2 ^ k" "T \<le> j" "j < T + 2 ^ k" "i \<noteq> j"
  shows "xs[j mod 2 ^ k := v] ! (i mod 2 ^ k) = xs ! (i mod 2 ^ k)"
  using mod_window_inj [of i "2 ^ k" j T] assms by (intro nth_list_update_neq) auto

lemma ring_rep_bounds:
  "ring_rep r k H T \<Longrightarrow> T \<le> H \<and> H \<le> T + 2 ^ k \<and> length (rg_slots r) = 2 ^ k \<and>
     rg_head r = of_nat H \<and> rg_tail r = of_nat T"
  by (simp add: ring_rep_def)

lemma spsc_inv_write:
  assumes inv: "spsc_inv k s" and pc: "th_prod s = ProdChecked v head"
  shows "spsc_inv k (s\<lparr>th_ring := write_slot (th_ring s) head v, th_prod := ProdWritten v head\<rparr>)"
proof -
  let ?H = "length (pushed s)" and ?T = "length (popped s)"
  have rep: "ring_rep (th_ring s) k ?H ?T" and head: "head = of_nat ?H" "?H < ?T + 2 ^ k"
    using inv pc by (auto simp: spsc_inv_def Let_def)
  have "(rg_slots (th_ring s))[?H mod 2 ^ k := v] ! (i mod 2 ^ k) = rg_slots (th_ring s) ! (i mod 2 ^ k)"
    if "taken_up_to s \<le> i" "i < ?H" for i
    using that head(2) by (intro nth_update_window [of ?T]) (auto simp: taken_up_to_def)
  then show ?thesis
    using inv pc head slot_rep(2,3) [OF rep, of ?H v] ring_rep_bounds [OF rep]
    by (cases "th_cons s") (auto simp: spsc_inv_def Let_def taken_up_to_def)
qed

lemma spsc_inv_take:
  assumes inv: "spsc_inv k s" and pc: "th_cons s = ConsChecked tail"
  shows "spsc_inv k (s\<lparr>th_ring := write_slot (th_ring s) tail x, th_cons := ConsTaken tail (read_slot (th_ring s) tail)\<rparr>)"
proof -
  let ?H = "length (pushed s)" and ?T = "length (popped s)"
  let ?slots = "rg_slots (th_ring s)"
  have rep: "ring_rep (th_ring s) k ?H ?T" and tail: "tail = of_nat ?T" "?T < ?H"
    using inv pc by (auto simp: spsc_inv_def Let_def)
  have keep: "?slots[?T mod 2 ^ k := x] ! (i mod 2 ^ k) = ?slots ! (i mod 2 ^ k)"
    if "Suc ?T \<le> i" "i < ?T + 2 ^ k" for i
    using that by (intro nth_update_window [of ?T]) auto
  have "?slots ! (?T mod 2 ^ k) = pushed s ! ?T"
    using inv pc tail(2) by (auto simp: spsc_inv_def Let_def taken_up_to_def)
  then show ?thesis
    using inv pc tail keep slot_rep [OF rep, of ?T] ring_rep_bounds [OF rep]
    by (auto simp: spsc_inv_def Let_def taken_up_to_def split: ProducerPc.splits)
qed

lemma spsc_inv_push_release:
  assumes inv: "spsc_inv k s" and pc: "th_prod s = ProdWritten v head"
  shows "spsc_inv k (s\<lparr>th_ring := (th_ring s)\<lparr>rg_head := head + 1\<rparr>, th_prod := ProdIdle, pushed := pushed s @ [v]\<rparr>)"
proof -
  let ?H = "length (pushed s)" and ?T = "length (popped s)"
  have rep: "ring_rep (th_ring s) k ?H ?T" and head: "head = of_nat ?H" "?H < ?T + 2 ^ k"
    using inv pc by (auto simp: spsc_inv_def Let_def)
  then have "ring_rep ((th_ring s)\<lparr>rg_head := head + 1\<rparr>) k (Suc ?H) ?T"
    by (auto simp: ring_rep_def add.commute)
  then show ?thesis
    using inv pc head ring_rep_bounds [OF rep]
    by (auto simp: spsc_inv_def Let_def taken_up_to_def nth_append less_Suc_eq split: ConsumerPc.splits)
qed

lemma spsc_inv_pop_release:
  assumes inv: "spsc_inv k s" and pc: "th_cons s = ConsTaken tail out"
  shows "spsc_inv k (s\<lparr>th_ring := (th_ring s)\<lparr>rg_tail := tail + 1\<rparr>, th_cons := ConsIdle, popped := popped s @ [out]\<rparr>)"
proof -
  let ?H = "length (pushed s)" and ?T = "length (popped s)"
  have rep: "ring_rep (th_ring s) k ?H ?T" and tail: "tail = of_nat ?T" "?T < ?H" "out = pushed s ! ?T"
    using inv pc by (auto simp: spsc_inv_def Let_def)
  then have "ring_rep ((th_ring s)\<lparr>rg_tail := tail + 1\<rparr>) k ?H (Suc ?T)"
    by (auto simp: ring_rep_def add.commute)
  then show ?thesis
    using inv pc tail
    by (auto simp: spsc_inv_def Let_def taken_up_to_def take_Suc_conv_app_nth split: ProducerPc.splits)
qed

lemma spsc_inv_step: "spsc_step moved s s' \<Longrightarrow> spsc_inv k s \<Longrightarrow> spsc_inv k s'"
proof (induction rule: spsc_step.induct)
  case (push_check s v)
  then have rep: "ring_rep (th_ring s) k (length (pushed s)) (length (popped s))"
    by (simp add: spsc_inv_def Let_def)
  with push_check full_iff(1) [OF rep] ring_rep_bounds [OF rep] show ?case
    by (cases "th_cons s") (auto simp: spsc_inv_def Let_def taken_up_to_def)
next
  case (pop_check s)
  then have rep: "ring_rep (th_ring s) k (length (pushed s)) (length (popped s))"
    by (simp add: spsc_inv_def Let_def)
  with pop_check full_iff(2) [OF rep] ring_rep_bounds [OF rep] show ?case
    by (cases "th_prod s") (auto simp: spsc_inv_def Let_def taken_up_to_def)
qed (auto intro: spsc_inv_write spsc_inv_take spsc_inv_push_release spsc_inv_pop_release)

lemma spsc_inv_reach:
  assumes "spsc_reach moved r0 s" "ring_rep r0 k 0 0"
  shows "spsc_inv k s"
  using assms(1)
proof induction
  case start
  from assms(2) show ?case by (simp add: spsc_inv_def taken_up_to_def)
qed (rule spsc_inv_step)

lemma new_ring_rep:
  assumes "new_ring dflt capacity = Some r"
  shows "\<exists>k. ring_rep r k 0 0"
proof -
  from assms obtain c where c: "RoundUpPow2 capacity = Some c" and r: "r = \<lparr>rg_capacity = c, rg_mask = c - 1,
      rg_slots = replicate (unat c) dflt, rg_head = 0, rg_tail = 0\<rparr>" by (auto simp: new_ring_def)
  have "c = 0 \<or> (\<exists>k\<le>63. c = 2 ^ k)" "capacity \<le> c"
    using round_up_result [of capacity 1 c] c exI [of "\<lambda>k. k \<le> 63 \<and> (1 :: u64) = 2 ^ k" 0]
    by (auto simp: RoundUpPow2_def)
  moreover have "c \<noteq> 0"
  proof
    assume "c = 0"
    with \<open>capacity \<le> c\<close> have "RoundUpPow2 capacity = Some 1"
      by (simp add: RoundUpPow2_def round_up_loop.simps)
    with c \<open>c = 0\<close> show False by simp
  qed
  ultimately show ?thesis by (auto simp: ring_rep_def r unat_pow)
qed

section \<open>Properties\<close>

text \<open>C40: the capacity computation returns the least power of two that is at least the request
  when the request is at most \<open>2 ^ 63\<close>; for a larger request the doubled value wraps to zero and
  the loop never ends.\<close>

theorem RoundUpPow2_least:
  "(v \<le> 2 ^ 63 \<longrightarrow> (\<exists>k\<le>63. RoundUpPow2 v = Some (2 ^ k) \<and> v \<le> 2 ^ k \<and> (k = 0 \<or> 2 ^ (k - 1) < v))) \<and>
   (2 ^ 63 < v \<longrightarrow> RoundUpPow2 v = None)"
proof (intro conjI impI)
  assume "v \<le> 2 ^ 63"
  from round_up_power [OF this, of 0]
  show "\<exists>k\<le>63. RoundUpPow2 v = Some (2 ^ k) \<and> v \<le> 2 ^ k \<and> (k = 0 \<or> 2 ^ (k - 1) < v)"
    by (simp add: RoundUpPow2_def)
next
  assume v: "2 ^ 63 < v"
  show "RoundUpPow2 v = None"
  proof (rule ccontr)
    assume "RoundUpPow2 v \<noteq> None"
    then obtain y where y: "round_up_loop v 1 = Some y" by (auto simp: RoundUpPow2_def)
    have "v \<le> y" "y = 0 \<or> (\<exists>k\<le>63. y = 2 ^ k)"
      using round_up_result [OF y] exI [of "\<lambda>k. k \<le> 63 \<and> (1 :: u64) = 2 ^ k" 0] by auto
    moreover have "k \<le> 63 \<Longrightarrow> (2 :: u64) ^ k \<le> 2 ^ 63" for k
      using power_increasing [of k 63 "2 :: nat"] unat_pow [of k] unat_pow [of 63] by (simp add: word_le_nat_alt)
    ultimately have "v \<le> 2 ^ 63" by (elim disjE exE conjE) (auto intro: order_trans)
    then show False using v by (simp add: not_less [symmetric])
  qed
qed

theorem RoundUpPow2_least_witness: "RoundUpPow2 1000 = Some 1024"
proof -
  have "(1000 :: u64) \<le> 2 ^ 63" by simp
  then obtain k where k: "k \<le> 63" "RoundUpPow2 1000 = Some (2 ^ k)" "1000 \<le> (2 ^ k :: u64)"
      "k = 0 \<or> 2 ^ (k - 1) < (1000 :: u64)" using RoundUpPow2_least [of 1000] by blast
  have "1000 \<le> (2 :: nat) ^ k" using k(1,3) by (simp add: word_le_nat_alt unat_pow)
  then have "\<not> k \<le> 9" using power_increasing [of k 9 "2 :: nat"] by auto
  moreover have "(2 :: nat) ^ (k - 1) < 1000"
    using k(1,4) \<open>\<not> k \<le> 9\<close> by (simp add: word_less_nat_alt unat_pow)
  then have "\<not> 10 \<le> k - 1" using power_increasing [of 10 "k - 1" "2 :: nat"] by auto
  ultimately have "k = 10" by simp
  with k(2) show ?thesis by simp
qed

text \<open>Whatever the sequence of \<open>Push\<close> and \<open>Pop\<close> calls on a new ring, and whatever moving
  out of a slot leaves there, the accepted values are the returned values followed by what the
  ring still holds: nothing accepted is lost, repeated or reordered, and the ring never holds more
  than its capacity.\<close>

theorem SpscRing_fifo:
  assumes "new_ring dflt capacity = Some r" "fifo_run Push (Pop moved) r ops = (r', accepted, returned)"
  shows "accepted = returned @ ring_contents r' \<and> length (ring_contents r') \<le> ring_cap r"
proof -
  obtain k where rep: "ring_rep r k 0 0" using new_ring_rep [OF assms(1)] by blast
  then have "ring_ok r" "ring_contents r = []" by (auto simp: ring_ok_def ring_contents_rep [OF rep])
  with ring.run_conserves [OF _ assms(2)] ring.bounded [of r'] show ?thesis by auto
qed

theorem SpscRing_fifo_witness:
  "\<exists>r r' accepted returned. new_ring (0 :: int) 2 = Some r \<and>
     fifo_run Push (Pop (\<lambda>_. 0)) r [PushOp 5, PushOp 6, PushOp 7, PopOp, PushOp 8, PopOp] =
       (r', accepted, returned) \<and>
     accepted = [5, 6, 8] \<and> returned = [5, 6] \<and> accepted = returned @ ring_contents r'"
proof -
  define r :: "int SpscRing" where "r = \<lparr>rg_capacity = 2, rg_mask = 1, rg_slots = [0, 0], rg_head = 0, rg_tail = 0\<rparr>"
  have "RoundUpPow2 2 = Some 2" by (simp add: RoundUpPow2_def round_up_loop.simps)
  then have new: "new_ring (0 :: int) 2 = Some r" by (simp add: new_ring_def r_def) code_simp
  moreover have "snd (fifo_run Push (Pop (\<lambda>_. 0)) r [PushOp 5, PushOp 6, PushOp 7, PopOp, PushOp 8, PopOp]) =
      ([5, 6, 8], [5, 6])" unfolding r_def by code_simp
  ultimately show ?thesis using SpscRing_fifo [OF new] by (metis prod.collapse)
qed

text \<open>C16: in every state that an interleaving of the producer's and the consumer's memory accesses
  reaches, the completed pops are an initial part of the completed pushes, in order; what is
  missing is exactly what the size reports and never more than the capacity; and the two threads are
  never about to access, or in the middle of accessing, the same slot.\<close>

theorem SpscRing_interleaved:
  assumes "new_ring dflt capacity = Some r0" "spsc_reach moved r0 s"
  shows "(\<exists>rest. pushed s = popped s @ rest \<and> length rest = unat (ring_size (th_ring s)) \<and>
            length rest \<le> ring_cap (th_ring s)) \<and>
         (\<forall>v head tail. th_prod s \<in> {ProdChecked v head, ProdWritten v head} \<and> th_cons s = ConsChecked tail \<longrightarrow>
            head AND rg_mask (th_ring s) \<noteq> tail AND rg_mask (th_ring s))"
proof -
  obtain k where "ring_rep r0 k 0 0" using new_ring_rep [OF assms(1)] by blast
  then have inv: "spsc_inv k s" using spsc_inv_reach [OF assms(2)] by simp
  let ?H = "length (pushed s)" and ?T = "length (popped s)"
  have rep: "ring_rep (th_ring s) k ?H ?T" and prefix: "popped s = take ?T (pushed s)"
    using inv by (simp_all add: spsc_inv_def Let_def)
  have "pushed s = popped s @ drop ?T (pushed s)" using prefix by (metis append_take_drop_id)
  moreover have "?H - ?T \<le> ring_cap (th_ring s)"
    using ring_rep_bounds [OF rep] ring_cap_rep [OF rep] by linarith
  moreover have "head AND rg_mask (th_ring s) \<noteq> tail AND rg_mask (th_ring s)"
    if pcs: "th_prod s \<in> {ProdChecked v head, ProdWritten v head}" "th_cons s = ConsChecked tail" for v head tail
  proof
    assume same: "head AND rg_mask (th_ring s) = tail AND rg_mask (th_ring s)"
    have pc: "head = of_nat ?H" "?H < ?T + 2 ^ k" "tail = of_nat ?T" "?T < ?H"
      using inv pcs by (auto simp: spsc_inv_def Let_def)
    have "k \<le> 63" "rg_mask (th_ring s) = 2 ^ k - 1" using rep by (auto simp: ring_rep_def)
    then have "?H mod 2 ^ k = ?T mod 2 ^ k" using same pc by (metis masked_index)
    then show False using mod_window_inj [of ?H "2 ^ k" ?T ?T] pc by simp
  qed
  ultimately show ?thesis using full_iff(3) [OF rep] by (intro conjI exI [of _ "drop ?T (pushed s)"]) auto
qed

theorem SpscRing_interleaved_witness:
  "\<exists>r0 s. new_ring (0 :: int) 1 = Some r0 \<and> spsc_reach (\<lambda>_. 0) r0 s \<and>
     th_prod s = ProdChecked 7 0 \<and> length (pushed s) = unat (ring_size (th_ring s))"
proof -
  define r0 :: "int SpscRing" where "r0 = \<lparr>rg_capacity = 1, rg_mask = 0, rg_slots = [0], rg_head = 0, rg_tail = 0\<rparr>"
  let ?init = "\<lparr>th_ring = r0, th_prod = ProdIdle, th_cons = ConsIdle, pushed = [], popped = []\<rparr>"
  let ?s = "?init\<lparr>th_prod := ProdChecked 7 0\<rparr>"
  have "RoundUpPow2 1 = Some 1" by (simp add: RoundUpPow2_def round_up_loop.simps)
  then have new: "new_ring (0 :: int) 1 = Some r0" by (simp add: new_ring_def r0_def)
  have reach: "spsc_reach (\<lambda>_. 0) r0 ?s"
  proof (rule spsc_reach.step)
    show "spsc_reach (\<lambda>_. 0) r0 ?init" by (rule spsc_reach.start)
    show "spsc_step (\<lambda>_. 0) ?init ?s" using spsc_step.push_check [where s = ?init and v = 7] by (simp add: r0_def)
  qed
  from SpscRing_interleaved [OF new reach] new reach show ?thesis by auto
qed

end
