(* ===== verification/Conflating_Slot.thy ===== *)
theory Conflating_Slot
  imports Md_Prelude "HOL-Library.Sublist"
begin

text \<open>
  The one-deep mailbox between the engine and one subscriber
  (\<^verbatim>\<open>src/core/conflating_slot.h\<close>): publishing replaces what is pending and counts it as
  conflated, reading takes the pending value. Every member function runs under the slot's mutex, so
  an execution is a sequence of whole operations. A shared pointer is an option, with \<open>None\<close> for
  \<^verbatim>\<open>nullptr\<close>.
\<close>

section \<open>Data and operations\<close>

record 'a ConflatingSlot =
  cs_pending :: "'a option"
  cs_stopped :: bool
  cs_conflated :: u64

definition new_slot :: "'a ConflatingSlot" where
  "new_slot = \<lparr>cs_pending = None, cs_stopped = False, cs_conflated = 0\<rparr>"

definition slot_publish :: "'a ConflatingSlot \<Rightarrow> 'a option \<Rightarrow> 'a ConflatingSlot \<times> bool" where
  "slot_publish s value =
     (if cs_stopped s then (s, False)
      else (s\<lparr>cs_conflated := (if cs_pending s \<noteq> None then cs_conflated s + 1 else cs_conflated s),
              cs_pending := value\<rparr>, True))"

text \<open>
  The wait predicate and what happens once the wait is over. \<open>None\<close>: the reader stays
  blocked. \<open>WaitNextFor\<close> also ends when its timeout has passed.
\<close>

definition slot_ready :: "'a ConflatingSlot \<Rightarrow> bool" where
  "slot_ready s \<longleftrightarrow> cs_pending s \<noteq> None \<or> cs_stopped s"

definition take_pending :: "'a ConflatingSlot \<Rightarrow> 'a ConflatingSlot \<times> 'a option" where
  "take_pending s =
     (if cs_pending s = None then (s, None) else (s\<lparr>cs_pending := None\<rparr>, cs_pending s))"

definition WaitNext :: "'a ConflatingSlot \<Rightarrow> ('a ConflatingSlot \<times> 'a option) option" where
  "WaitNext s = (if slot_ready s then Some (take_pending s) else None)"

definition WaitNextFor :: "bool \<Rightarrow> 'a ConflatingSlot \<Rightarrow> ('a ConflatingSlot \<times> 'a option) option" where
  "WaitNextFor timed_out s = (if slot_ready s \<or> timed_out then Some (take_pending s) else None)"

definition slot_stop :: "'a ConflatingSlot \<Rightarrow> 'a ConflatingSlot" where
  "slot_stop s = s\<lparr>cs_stopped := True\<rparr>"

section \<open>The mailbox contract\<close>

text \<open>
  An execution is a list of operations: a publication by the engine, a finished wait by the
  subscriber, a stop. \<open>slot_run\<close> collects what was accepted and what was delivered.
\<close>

datatype 'a SlotOp = OpPublish 'a | OpTake | OpStop

fun slot_run ::
  "('s \<Rightarrow> 'a option \<Rightarrow> 's \<times> bool) \<Rightarrow> ('s \<Rightarrow> 's \<times> 'a option) \<Rightarrow> ('s \<Rightarrow> 's) \<Rightarrow> 's \<Rightarrow> 'a SlotOp list
     \<Rightarrow> 's \<times> 'a list \<times> 'a list" where
  "slot_run pub tk stop s [] = (s, [], [])"
| "slot_run pub tk stop s (OpPublish v # ops) =
     (let (s1, ok) = pub s (Some v); (s2, acc, got) = slot_run pub tk stop s1 ops
      in (s2, (if ok then v # acc else acc), got))"
| "slot_run pub tk stop s (OpTake # ops) =
     (let (s1, r) = tk s; (s2, acc, got) = slot_run pub tk stop s1 ops
      in (s2, acc, (case r of None \<Rightarrow> got | Some v \<Rightarrow> v # got)))"
| "slot_run pub tk stop s (OpStop # ops) = slot_run pub tk stop (stop s) ops"

locale mailbox =
  fixes pub :: "'s \<Rightarrow> 'a option \<Rightarrow> 's \<times> bool" and tk :: "'s \<Rightarrow> 's \<times> 'a option" and stop :: "'s \<Rightarrow> 's"
    and held :: "'s \<Rightarrow> 'a option" and lost :: "'s \<Rightarrow> u64"
  assumes pub_rejected: "\<not> snd (pub s x) \<Longrightarrow> fst (pub s x) = s"
    and pub_accepted: "snd (pub s x) \<Longrightarrow>
      held (fst (pub s x)) = x \<and> lost (fst (pub s x)) = lost s + (if held s = None then 0 else 1)"
    and take_held: "snd (tk s) = held s"
    and take_clears: "held (fst (tk s)) = None \<and> lost (fst (tk s)) = lost s"
    and stop_keeps: "held (stop s) = held s \<and> lost (stop s) = lost s"
begin

abbreviation pending_list :: "'s \<Rightarrow> 'a list" where
  "pending_list s \<equiv> (case held s of None \<Rightarrow> [] | Some v \<Rightarrow> [v])"

text \<open>
  Delivered values with what is still pending are a subsequence of what was pending and accepted,
  they end with the newest value, and the counter accounts for the difference.
\<close>

lemma run_conflates:
  assumes "slot_run pub tk stop s ops = (s', accepted, delivered)"
  shows "subseq (delivered @ pending_list s') (pending_list s @ accepted) \<and>
         (pending_list s @ accepted \<noteq> [] \<longrightarrow>
            last (delivered @ pending_list s') = last (pending_list s @ accepted) \<and>
            delivered @ pending_list s' \<noteq> []) \<and>
         lost s' - lost s = of_nat (length (pending_list s @ accepted)) -
           of_nat (length (delivered @ pending_list s'))"
  using assms
proof (induction ops arbitrary: s accepted delivered)
  case Nil
  then show ?case by auto
next
  case (Cons op ops)
  show ?case
  proof (cases op)
    case (OpPublish v)
    obtain acc where run: "slot_run pub tk stop (fst (pub s (Some v))) ops = (s', acc, delivered)"
      "accepted = (if snd (pub s (Some v)) then v # acc else acc)"
      using Cons.prems OpPublish
      by (cases "slot_run pub tk stop (fst (pub s (Some v))) ops") (auto simp: split_beta Let_def)
    show ?thesis
    proof (cases "snd (pub s (Some v))")
      case True
      with Cons.IH [OF run(1)] run(2) pub_accepted [of s "Some v"] show ?thesis
        by (cases "held s") (auto intro: subseq_Cons' simp: algebra_simps)
    next
      case False
      with Cons.IH [OF run(1)] run(2) pub_rejected [of s "Some v"] show ?thesis by auto
    qed
  next
    case OpTake
    obtain got where run: "slot_run pub tk stop (fst (tk s)) ops = (s', accepted, got)"
      "delivered = (case held s of None \<Rightarrow> got | Some v \<Rightarrow> v # got)"
      using Cons.prems OpTake take_held [of s]
      by (cases "slot_run pub tk stop (fst (tk s)) ops") (auto simp: split_beta Let_def split: option.splits)
    with Cons.IH [OF run(1)] take_clears [of s] show ?thesis
      by (cases "held s") (auto simp: algebra_simps)
  next
    case OpStop
    with Cons.prems Cons.IH [of "stop s"] stop_keeps [of s] show ?thesis by auto
  qed
qed

end

interpretation slot: mailbox slot_publish take_pending slot_stop cs_pending cs_conflated
  by unfold_locales (auto simp: slot_publish_def take_pending_def slot_stop_def)

section \<open>Properties\<close>

text \<open>Over any sequence of publications, reads and stops on a new slot, what the subscriber
  received (with the value still pending) is a subsequence of the accepted publications that ends
  with the newest of them, and the conflation counter is the number of accepted publications
  that were never delivered.\<close>

theorem ConflatingSlot_newest:
  assumes "slot_run slot_publish take_pending slot_stop new_slot ops = (s, accepted, delivered)"
  shows "let seen = delivered @ (case cs_pending s of None \<Rightarrow> [] | Some v \<Rightarrow> [v])
         in subseq seen accepted \<and> (accepted \<noteq> [] \<longrightarrow> seen \<noteq> [] \<and> last seen = last accepted) \<and>
            cs_conflated s = of_nat (length accepted - length seen)"
proof -
  let ?seen = "delivered @ (case cs_pending s of None \<Rightarrow> [] | Some v \<Rightarrow> [v])"
  have run: "subseq ?seen accepted" "accepted \<noteq> [] \<longrightarrow> last ?seen = last accepted \<and> ?seen \<noteq> []"
    "cs_conflated s = of_nat (length accepted) - of_nat (length ?seen)"
    using slot.run_conflates [OF assms] by (simp_all add: new_slot_def)
  then show ?thesis
    using list_emb_length [OF run(1)] unfolding Let_def by (simp add: of_nat_diff)
qed

theorem ConflatingSlot_newest_witness:
  "\<exists>s accepted delivered.
     slot_run slot_publish take_pending slot_stop new_slot
       [OpPublish (1 :: int), OpPublish 2, OpTake, OpPublish 3, OpPublish 4, OpStop, OpPublish 5] =
       (s, accepted, delivered) \<and>
     accepted = [1, 2, 3, 4] \<and> delivered = [2] \<and> cs_pending s = Some 4 \<and> cs_conflated s = 2"
proof -
  let ?ops = "[OpPublish (1 :: int), OpPublish 2, OpTake, OpPublish 3, OpPublish 4, OpStop, OpPublish 5]"
  have run: "slot_run slot_publish take_pending slot_stop new_slot ?ops =
      (\<lparr>cs_pending = Some 4, cs_stopped = True, cs_conflated = 2\<rparr>, [1, 2, 3, 4], [2])" by code_simp
  from ConflatingSlot_newest [OF run] run show ?thesis by (simp add: Let_def)
qed

text \<open>A reader never misses a value and never hangs after a stop: \<open>WaitNext\<close> stays
  blocked exactly while nothing is pending and the slot runs; once stopped, it delivers the pending
  value first and \<^verbatim>\<open>nullptr\<close> from then on; the timed wait returns \<^verbatim>\<open>nullptr\<close> without a stop only
  when its time has passed, and it leaves the slot unchanged then.\<close>

theorem ConflatingSlot_wait:
  "(WaitNext s = None \<longleftrightarrow> cs_pending s = None \<and> \<not> cs_stopped s) \<and>
   (cs_stopped s \<longrightarrow> (\<exists>s'. WaitNext s = Some (s', cs_pending s) \<and> WaitNext s' = Some (s', None))) \<and>
   (WaitNextFor timed_out s = Some (s', None) \<longrightarrow> s' = s \<and> (cs_stopped s \<or> timed_out)) \<and>
   (WaitNextFor True s \<noteq> None) \<and>
   (WaitNextFor timed_out s = Some (s', Some v) \<longrightarrow> cs_pending s = Some v \<and> cs_pending s' = None)"
  by (auto simp: WaitNext_def WaitNextFor_def slot_ready_def take_pending_def split: if_splits)

theorem ConflatingSlot_wait_witness:
  "WaitNextFor True (new_slot :: int ConflatingSlot) = Some (new_slot, None) \<and> \<not> cs_stopped (new_slot :: int ConflatingSlot) \<and>
   WaitNextFor True (new_slot :: int ConflatingSlot) \<noteq> None"
proof -
  have "WaitNextFor True (new_slot :: int ConflatingSlot) = Some (new_slot, None)" by code_simp
  then show ?thesis using ConflatingSlot_wait [of new_slot True new_slot 0] by (simp add: new_slot_def)
qed

end
