(* ===== verification/Retry.thy ===== *)
theory Retry
  imports Md_Prelude
begin

text \<open>
  Reconnect delays and the request budget (\<^verbatim>\<open>src/core/retry.h\<close>). Durations are
  64-bit counts of milliseconds. The random generator is a parameter \<open>draw\<close> with its own state:
  \<open>draw g lo hi\<close> is one draw of \<^verbatim>\<open>std::uniform_int_distribution(lo, hi)\<close>, of which the
  theorems use only that it lies between its bounds.
\<close>

section \<open>Exponential backoff\<close>

record 'g ExponentialBackoff =
  bo_initial :: i64
  bo_max :: i64
  bo_current :: i64
  bo_rng :: 'g

definition new_backoff :: "i64 \<Rightarrow> i64 \<Rightarrow> 'g \<Rightarrow> 'g ExponentialBackoff" where
  "new_backoff initial maxi seed =
     \<lparr>bo_initial = initial, bo_max = maxi, bo_current = initial, bo_rng = seed\<rparr>"

definition Next :: "('g \<Rightarrow> int \<Rightarrow> int \<Rightarrow> int \<times> 'g) \<Rightarrow> 'g ExponentialBackoff \<Rightarrow> 'g ExponentialBackoff \<times> i64" where
  "Next draw b =
     (let window = bo_current b;
          (delay, rng) = draw (bo_rng b) (window sdiv 2) window
      in (b\<lparr>bo_current := min (bo_max b) (wrap64 (bo_current b * 2)), bo_rng := rng\<rparr>, delay))"

definition backoff_peek :: "'g ExponentialBackoff \<Rightarrow> i64" where
  "backoff_peek b = bo_current b"

definition Reset_backoff :: "'g ExponentialBackoff \<Rightarrow> 'g ExponentialBackoff" where
  "Reset_backoff b = b\<lparr>bo_current := bo_initial b\<rparr>"

fun delays :: "('g \<Rightarrow> int \<Rightarrow> int \<Rightarrow> int \<times> 'g) \<Rightarrow> 'g ExponentialBackoff \<Rightarrow> nat \<Rightarrow> 'g ExponentialBackoff \<times> i64 list" where
  "delays draw b 0 = (b, [])"
| "delays draw b (Suc n) =
     (let (b1, d) = Next draw b; (b2, ds) = delays draw b1 n in (b2, d # ds))"

definition draws_in_range :: "('g \<Rightarrow> int \<Rightarrow> int \<Rightarrow> int \<times> 'g) \<Rightarrow> bool" where
  "draws_in_range draw \<longleftrightarrow> (\<forall>g lo hi. lo \<le> hi \<longrightarrow> lo \<le> fst (draw g lo hi) \<and> fst (draw g lo hi) \<le> hi)"

definition backoff_ok :: "'g ExponentialBackoff \<Rightarrow> bool" where
  "backoff_ok b \<longleftrightarrow> 0 < bo_initial b \<and> bo_initial b \<le> bo_max b \<and> bo_max b * 2 \<le> INT64_MAX \<and>
     0 < bo_current b \<and> bo_current b \<le> bo_max b"

lemma Next_window:
  assumes "backoff_ok b"
  shows "bo_current (fst (Next draw b)) = min (bo_max b) (bo_current b * 2)"
proof -
  have "in_i64 (bo_current b * 2)" using assms by (simp add: backoff_ok_def i64_bounds)
  then show ?thesis by (simp add: Next_def split_beta Let_def)
qed

lemma Next_ok:
  assumes "backoff_ok b"
  shows "backoff_ok (fst (Next draw b))" "bo_max (fst (Next draw b)) = bo_max b"
proof -
  show "bo_max (fst (Next draw b)) = bo_max b" by (simp add: Next_def split_beta Let_def)
  then show "backoff_ok (fst (Next draw b))"
    using Next_window [OF assms, of draw] assms by (auto simp: backoff_ok_def Next_def split_beta Let_def)
qed

lemma delays_windows:
  assumes "draws_in_range draw" "backoff_ok b" "i < n"
  shows "let w = min (bo_max b) (bo_current b * 2 ^ i)
         in w div 2 \<le> snd (delays draw b n) ! i \<and> snd (delays draw b n) ! i \<le> w"
  using assms(2,3)
proof (induction n arbitrary: b i)
  case (Suc n)
  have step: "snd (delays draw b (Suc n)) = snd (Next draw b) # snd (delays draw (fst (Next draw b)) n)"
    by (simp add: split_beta Let_def)
  show ?case
  proof (cases i)
    case 0
    have "bo_current b div 2 \<le> bo_current b" "0 < bo_current b" using Suc.prems by (auto simp: backoff_ok_def)
    then have "bo_current b div 2 \<le> snd (Next draw b) \<and> snd (Next draw b) \<le> bo_current b"
      using assms(1) by (simp add: Next_def split_beta Let_def draws_in_range_def)
    with 0 Suc.prems step show ?thesis by (simp add: backoff_ok_def Let_def)
  next
    case (Suc j)
    have "min (bo_max b) (min (bo_max b) (bo_current b * 2) * 2 ^ j) = min (bo_max b) (bo_current b * 2 ^ i)"
    proof (cases "bo_max b \<le> bo_current b * 2")
      case True
      have "bo_max b \<le> bo_max b * 2 ^ j" "bo_current b * 2 \<le> bo_current b * 2 * 2 ^ j"
        using Suc.prems by (simp_all add: backoff_ok_def)
      with True Suc show ?thesis by (simp add: min_def mult.assoc)
    qed (simp add: Suc mult.assoc)
    with Suc.IH [OF Next_ok(1) [OF Suc.prems(1)], of j draw] Suc.prems Suc step
      Next_window [OF Suc.prems(1)] Next_ok(2) [OF Suc.prems(1)] show ?thesis by simp
  qed
qed simp

section \<open>Request budget\<close>

record RateBudget =
  rb_max_events :: int
  rb_window :: i64
  rb_events :: "i64 list"

definition new_budget :: "int \<Rightarrow> i64 \<Rightarrow> RateBudget" where
  "new_budget max_events window = \<lparr>rb_max_events = max_events, rb_window = window, rb_events = []\<rparr>"

definition TryConsume :: "RateBudget \<Rightarrow> i64 \<Rightarrow> RateBudget \<times> bool" where
  "TryConsume b now =
     (let events = dropWhile (\<lambda>front. now - front > rb_window b) (rb_events b)
      in if int (length events) \<ge> rb_max_events b then (b\<lparr>rb_events := events\<rparr>, False)
         else (b\<lparr>rb_events := events @ [now]\<rparr>, True))"

definition budget_used :: "RateBudget \<Rightarrow> int" where
  "budget_used b = int (length (rb_events b))"

text \<open>A run of requests at the times of a list; the granted times are collected.\<close>

fun consume_run :: "RateBudget \<Rightarrow> i64 list \<Rightarrow> RateBudget \<times> i64 list" where
  "consume_run b [] = (b, [])"
| "consume_run b (now # nows) =
     (let (b1, ok) = TryConsume b now; (b2, granted) = consume_run b1 nows
      in (b2, (if ok then now # granted else granted)))"

text \<open>
  The remembered events are the granted ones from some point on; the forgotten ones are older than
  the window at the time \<open>now\<close>.
\<close>

definition budget_inv :: "RateBudget \<Rightarrow> i64 list \<Rightarrow> i64 \<Rightarrow> bool" where
  "budget_inv b granted now \<longleftrightarrow>
     int (length (rb_events b)) \<le> max 0 (rb_max_events b) \<and>
     (\<exists>old. granted = old @ rb_events b \<and> (\<forall>t\<in>set old. now - t > rb_window b))"

definition spaced :: "nat \<Rightarrow> i64 \<Rightarrow> i64 list \<Rightarrow> bool" where
  "spaced n window ts \<longleftrightarrow> (\<forall>i. i + n < length ts \<longrightarrow> ts ! (i + n) - ts ! i > window)"

lemma TryConsume_inv:
  assumes inv: "budget_inv b granted before" and "before \<le> now" and sp: "spaced (nat (rb_max_events b)) (rb_window b) granted"
  defines "r \<equiv> TryConsume b now"
  defines "granted' \<equiv> (if snd r then granted @ [now] else granted)"
  shows "budget_inv (fst r) granted' now \<and> spaced (nat (rb_max_events b)) (rb_window b) granted' \<and>
         rb_max_events (fst r) = rb_max_events b \<and> rb_window (fst r) = rb_window b"
proof -
  obtain old where old: "granted = old @ rb_events b" "\<forall>t\<in>set old. before - t > rb_window b"
    and len: "int (length (rb_events b)) \<le> max 0 (rb_max_events b)" using inv by (auto simp: budget_inv_def)
  let ?P = "\<lambda>t. now - t > rb_window b"
  let ?old = "old @ takeWhile ?P (rb_events b)" and ?ev = "dropWhile ?P (rb_events b)"
  have split: "granted = ?old @ ?ev" using old(1) by simp
  have stale: "\<forall>t\<in>set ?old. now - t > rb_window b"
    using old(2) \<open>before \<le> now\<close> by (auto dest: set_takeWhileD)
  have "length ?ev \<le> length (rb_events b)" by (rule length_dropWhile_le)
  then have len': "int (length ?ev) \<le> max 0 (rb_max_events b)" using len by linarith
  show ?thesis
  proof (cases "int (length ?ev) \<ge> rb_max_events b")
    case True
    then have r: "r = (b\<lparr>rb_events := ?ev\<rparr>, False)" by (simp add: r_def TryConsume_def Let_def)
    have "budget_inv (fst r) granted now"
      unfolding budget_inv_def r using split stale len' by (auto intro!: exI [of _ ?old])
    with r sp show ?thesis by (simp add: granted'_def)
  next
    case False
    then have r: "r = (b\<lparr>rb_events := ?ev @ [now]\<rparr>, True)" by (simp add: r_def TryConsume_def Let_def)
    have inv': "budget_inv (fst r) (granted @ [now]) now"
      unfolding budget_inv_def r using split stale False by (auto intro!: exI [of _ ?old])
    have "(granted @ [now]) ! (i + nat (rb_max_events b)) - (granted @ [now]) ! i > rb_window b"
      if i: "i + nat (rb_max_events b) < length (granted @ [now])" for i
    proof (cases "i + nat (rb_max_events b) < length granted")
      case True
      with sp show ?thesis by (simp add: spaced_def nth_append)
    next
      case notl: False
      then have eq: "i + nat (rb_max_events b) = length granted" using i by simp
      moreover have "length ?ev < nat (rb_max_events b)" using False by simp
      moreover have "length granted = length ?old + length ?ev" using split by (metis length_append)
      ultimately have "i < length ?old" by linarith
      then have "granted ! i \<in> set ?old" using split by (metis nth_append nth_mem)
      moreover have "i < length granted" using \<open>i < length ?old\<close> split by (metis length_append trans_less_add1)
      ultimately show ?thesis using stale eq by (auto simp: nth_append)
    qed
    with inv' r show ?thesis by (simp add: granted'_def spaced_def)
  qed
qed

lemma consume_run_spaced:
  assumes "budget_inv b granted before" "sorted (before # nows)"
    and "spaced (nat (rb_max_events b)) (rb_window b) granted"
  shows "spaced (nat (rb_max_events b)) (rb_window b) (granted @ snd (consume_run b nows))"
  using assms
proof (induction nows arbitrary: b granted before)
  case (Cons now nows)
  let ?r = "TryConsume b now"
  let ?g = "if snd ?r then granted @ [now] else granted"
  have "before \<le> now" using Cons.prems(2) by simp
  note inv = TryConsume_inv [OF Cons.prems(1) this Cons.prems(3)]
  have "spaced (nat (rb_max_events (fst ?r))) (rb_window (fst ?r)) (?g @ snd (consume_run (fst ?r) nows))"
    using inv Cons.prems(2) by (intro Cons.IH [of "fst ?r" ?g now]) auto
  with inv show ?case by (auto simp: split_beta Let_def)
qed simp

section \<open>Properties\<close>

text \<open>The \<open>n\<close>-th delay since the last reset is drawn between one half and the whole of a
  window that doubles from the initial delay and stops at the maximum.\<close>

theorem backoff_doubles:
  assumes "draws_in_range draw" "0 < initial" "initial \<le> maxi" "maxi * 2 \<le> INT64_MAX" "i < n"
  shows "let w = min maxi (initial * 2 ^ i); ds = snd (delays draw (new_backoff initial maxi seed) n)
         in w div 2 \<le> ds ! i \<and> ds ! i \<le> w"
  using delays_windows [OF assms(1) _ assms(5), of "new_backoff initial maxi seed"] assms
  by (simp add: backoff_ok_def new_backoff_def)

theorem backoff_doubles_witness:
  "let ds = snd (delays (\<lambda>g lo hi. (hi, g)) (new_backoff 250 30000 ()) 9) in 15000 \<le> ds ! 8 \<and> ds ! 8 \<le> 30000"
  using backoff_doubles [of "\<lambda>g lo hi. (hi, g)" 250 30000 8 9 "()"]
  by (simp add: draws_in_range_def INT64_MAX_def Let_def)

text \<open>For requests made in the order of time, any \<open>max_events + 1\<close> consecutive grants span
  more than the window, so no window holds more than \<open>max_events\<close> grants.\<close>

theorem RateBudget_window:
  assumes "sorted nows"
  shows "spaced (nat max_events) window (snd (consume_run (new_budget max_events window) nows))"
proof (cases nows)
  case (Cons now rest)
  have "budget_inv (new_budget max_events window) [] now" by (simp add: budget_inv_def new_budget_def)
  from consume_run_spaced [OF this, of nows] assms Cons show ?thesis
    by (simp add: spaced_def new_budget_def)
qed (simp add: spaced_def)

theorem RateBudget_window_witness:
  "spaced 2 10 (snd (consume_run (new_budget 2 10) [0, 1, 5, 10, 11, 12])) \<and>
   snd (consume_run (new_budget 2 10) [0, 1, 5, 10, 11, 12]) = [0, 1, 11, 12]"
proof -
  have "snd (consume_run (new_budget 2 10) [0, 1, 5, 10, 11, 12]) = [0, 1, 11, 12]" by code_simp
  with RateBudget_window [of "[0, 1, 5, 10, 11, 12]" 2 10] show ?thesis by simp
qed

end
