(* ===== verification/Json.thy ===== *)
theory Json
  imports Book
begin

text \<open>
  Reading venue payloads (\<^verbatim>\<open>src/net/json.h\<close>). The DOM parser \<^verbatim>\<open>simdjson\<close> is outside the
  repository: it is the record \<open>'e Dom\<close> of the operations the sources call on it, and every
  function takes it as its first argument. A \<^verbatim>\<open>simdjson_result\<close> is an option.
\<close>

section \<open>The parser interface\<close>

record 'e Dom =
  dom_parse :: "string \<Rightarrow> 'e option"
  dom_at_key :: "'e \<Rightarrow> string \<Rightarrow> 'e option"
  dom_string :: "'e \<Rightarrow> string option"
  dom_int64 :: "'e \<Rightarrow> i64 option"
  dom_bool :: "'e \<Rightarrow> bool option"
  dom_array :: "'e \<Rightarrow> 'e list option"

text \<open>The documented range of \<^verbatim>\<open>get_int64\<close>.\<close>

definition dom_ok :: "'e Dom \<Rightarrow> bool" where
  "dom_ok js \<longleftrightarrow> (\<forall>e v. dom_int64 js e = Some v \<longrightarrow> in_i64 v)"

definition Parse :: "'e Dom \<Rightarrow> string \<Rightarrow> 'e option" where
  "Parse js frame = dom_parse js frame"

text \<open>\<open>root[key]\<close> on a result: a failed lookup stays failed.\<close>

definition at_key :: "'e Dom \<Rightarrow> 'e option \<Rightarrow> string \<Rightarrow> 'e option" where
  "at_key js value key = Option.bind value (\<lambda>e. dom_at_key js e key)"

section \<open>Accessors\<close>

definition GetFixed_element :: "'e Dom \<Rightarrow> 'e \<Rightarrow> i64 option" where
  "GetFixed_element js element =
     (case dom_string js element of None \<Rightarrow> None | Some text \<Rightarrow> ParseFixed text)"

definition GetFixed :: "'e Dom \<Rightarrow> 'e option \<Rightarrow> i64 option" where
  "GetFixed js value =
     (case value of
        None \<Rightarrow> None
      | Some element \<Rightarrow> (case dom_string js element of None \<Rightarrow> None | Some text \<Rightarrow> ParseFixed text))"

definition GetString :: "'e Dom \<Rightarrow> 'e option \<Rightarrow> string option" where
  "GetString js value = (case value of None \<Rightarrow> None | Some element \<Rightarrow> dom_string js element)"

definition GetBool :: "'e Dom \<Rightarrow> 'e option \<Rightarrow> bool option" where
  "GetBool js value = (case value of None \<Rightarrow> None | Some element \<Rightarrow> dom_bool js element)"

definition GetArray :: "'e Dom \<Rightarrow> 'e option \<Rightarrow> 'e list option" where
  "GetArray js value = (case value of None \<Rightarrow> None | Some element \<Rightarrow> dom_array js element)"

text \<open>The inner loop over one entry: the flds after the second are only counted.\<close>

fun parse_level_fields :: "'e Dom \<Rightarrow> 'e list \<Rightarrow> int \<Rightarrow> Px \<Rightarrow> Qty \<Rightarrow> (int \<times> Px \<times> Qty) option" where
  "parse_level_fields js [] index px qty = Some (index, px, qty)"
| "parse_level_fields js (field # flds) index px qty =
     (if index = 0 then
        (case GetFixed_element js field of
           None \<Rightarrow> None
         | Some px' \<Rightarrow> parse_level_fields js flds (index + 1) px' qty)
      else if index = 1 then
        (case GetFixed_element js field of
           None \<Rightarrow> None
         | Some qty' \<Rightarrow> parse_level_fields js flds (index + 1) px qty')
      else parse_level_fields js flds (index + 1) px qty)"

definition parse_level :: "'e Dom \<Rightarrow> 'e \<Rightarrow> Level option" where
  "parse_level js entry =
     (case dom_array js entry of
        None \<Rightarrow> None
      | Some pair \<Rightarrow>
          (case parse_level_fields js pair 0 0 0 of
             None \<Rightarrow> None
           | Some (index, px, qty) \<Rightarrow>
               if index < 2 then None
               else if px \<le> 0 \<or> qty < 0 then None
               else Some \<lparr>lpx = px, lqty = qty\<rparr>))"

text \<open>
  Every caller passes an empty vector and discards it on failure, so the result is the parsed
  vector or nothing.
\<close>

fun parse_levels :: "'e Dom \<Rightarrow> 'e list \<Rightarrow> Level list option" where
  "parse_levels js [] = Some []"
| "parse_levels js (entry # entries) =
     (case parse_level js entry of
        None \<Rightarrow> None
      | Some level \<Rightarrow> map_option (\<lambda>levels. level # levels) (parse_levels js entries))"

definition ParseLevelArray :: "'e Dom \<Rightarrow> 'e option \<Rightarrow> Level list option" where
  "ParseLevelArray js value =
     (case GetArray js value of None \<Rightarrow> None | Some array \<Rightarrow> parse_levels js array)"

text \<open>The digit loop of \<^verbatim>\<open>GetI64\<close> on the text that follows the sign.\<close>

fun parse_i64_digits :: "bool \<Rightarrow> string \<Rightarrow> i64 \<Rightarrow> i64 option" where
  "parse_i64_digits negative [] parsed = Some (if negative then - parsed else parsed)"
| "parse_i64_digits negative (c # cs) parsed =
     (if \<not> is_digit c then None
      else let digit = digit_val c
           in if parsed > (INT64_MAX - digit) sdiv 10 then
                (if negative \<and> cs = [] \<and> parsed = INT64_MAX sdiv 10 \<and> digit = 8 \<and> INT64_MAX smod 10 = 7
                 then Some INT64_MIN else None)
              else parse_i64_digits negative cs (parsed * 10 + digit))"

definition parse_i64_text :: "string \<Rightarrow> i64 option" where
  "parse_i64_text text =
     (case text of
        [] \<Rightarrow> None
      | c # cs \<Rightarrow>
          if c = CHR ''-'' then (if cs = [] then None else parse_i64_digits True cs 0)
          else parse_i64_digits False text 0)"

definition GetI64 :: "'e Dom \<Rightarrow> 'e option \<Rightarrow> i64 option" where
  "GetI64 js value =
     (case value of
        None \<Rightarrow> None
      | Some element \<Rightarrow>
          (case dom_int64 js element of
             Some v \<Rightarrow> Some v
           | None \<Rightarrow>
               (case dom_string js element of None \<Rightarrow> None | Some text \<Rightarrow> parse_i64_text text)))"

section \<open>Levels\<close>

lemma parse_level_valid: "parse_level js entry = Some l \<Longrightarrow> valid_level l"
  by (auto simp: parse_level_def valid_level_def split: option.splits if_splits)

lemma parse_levels_valid: "parse_levels js entries = Some ls \<Longrightarrow> list_all valid_level ls"
proof (induction entries arbitrary: ls)
  case (Cons e es)
  then show ?case by (auto dest: parse_level_valid split: option.splits)
qed simp

lemma ParseLevelArray_valid: "ParseLevelArray js value = Some ls \<Longrightarrow> list_all valid_level ls"
  by (auto simp: ParseLevelArray_def dest: parse_levels_valid split: option.splits)

lemma parse_level_fields_rest:
  "2 \<le> i \<Longrightarrow> parse_level_fields js fs i px qty = Some (i + int (length fs), px, qty)"
  by (induction fs arbitrary: i) auto

lemma parse_level_fields_two:
  "parse_level_fields js (f # g # fs) 0 px qty =
     (case GetFixed_element js f of
        None \<Rightarrow> None
      | Some p \<Rightarrow> (case GetFixed_element js g of
                     None \<Rightarrow> None | Some q \<Rightarrow> Some (2 + int (length fs), p, q)))"
  by (simp add: parse_level_fields_rest split: option.split)

lemma parse_level_iff:
  "parse_level js entry = Some l \<longleftrightarrow>
     (\<exists>f g fs. dom_array js entry = Some (f # g # fs) \<and> GetFixed_element js f = Some (lpx l) \<and>
        GetFixed_element js g = Some (lqty l) \<and> 0 < lpx l \<and> 0 \<le> lqty l)"
proof
  assume l: "parse_level js entry = Some l"
  then obtain flds where a: "dom_array js entry = Some flds"
    by (auto simp: parse_level_def split: option.splits)
  consider "length flds < 2" | f g fs where "flds = f # g # fs"
    by (metis One_nat_def Suc_1 length_Cons less_Suc_eq_0_disj list.exhaust list.size(3) less_2_cases_iff)
  then show "\<exists>f g fs. dom_array js entry = Some (f # g # fs) \<and> GetFixed_element js f = Some (lpx l) \<and>
        GetFixed_element js g = Some (lqty l) \<and> 0 < lpx l \<and> 0 \<le> lqty l"
  proof cases
    case 1
    then have "flds = [] \<or> (\<exists>f. flds = [f])" by (auto simp: less_2_cases_iff length_Suc_conv)
    with l a show ?thesis by (auto simp: parse_level_def split: option.splits if_splits)
  next
    case 2
    with l a show ?thesis
      by (auto simp: parse_level_def parse_level_fields_two simp del: parse_level_fields.simps split: option.splits if_splits)
  qed
next
  assume "\<exists>f g fs. dom_array js entry = Some (f # g # fs) \<and> GetFixed_element js f = Some (lpx l) \<and>
        GetFixed_element js g = Some (lqty l) \<and> 0 < lpx l \<and> 0 \<le> lqty l"
  then show "parse_level js entry = Some l"
    by (auto simp: parse_level_def parse_level_fields_two simp del: parse_level_fields.simps)
qed

section \<open>Integers in strings\<close>

lemma dec_val_Suc_bound:
  "list_all is_digit (c # cs) \<Longrightarrow> 0 \<le> n \<Longrightarrow> n * 10 + digit_val c \<le> dec_val n (c # cs)"
  using dec_val_ge [of cs "n * 10 + digit_val c"] digit_val_bounds [of c] by simp

lemma parse_i64_digits_eq:
  assumes "0 \<le> parsed" "parsed \<le> INT64_MAX"
  shows "parse_i64_digits neg ds parsed =
           (if list_all is_digit ds \<and> in_i64 (if neg then - dec_val parsed ds else dec_val parsed ds)
            then Some (if neg then - dec_val parsed ds else dec_val parsed ds) else None)"
  using assms
proof (induction ds arbitrary: parsed)
  case Nil
  then show ?case by (auto simp: i64_bounds)
next
  case (Cons c cs)
  show ?case
  proof (cases "is_digit c")
    case True
    let ?d = "digit_val c"
    have d: "0 \<le> ?d" "?d \<le> 9" using True digit_val_bounds by auto
    have guard: "parsed > (INT64_MAX - ?d) sdiv 10 \<longleftrightarrow> parsed * 10 + ?d > INT64_MAX"
      using d le_div_iff_mult_le [of 10 parsed "INT64_MAX - ?d"] by (auto simp: INT64_MAX_def)
    show ?thesis
    proof (cases "parsed * 10 + ?d > INT64_MAX")
      case False
      with Cons.IH [of "parsed * 10 + ?d"] True guard d Cons.prems show ?thesis by (simp add: Let_def)
    next
      case big: True
      have ge: "parsed * 10 + ?d \<le> dec_val parsed (c # cs)" if "list_all is_digit cs"
        using dec_val_Suc_bound [of c cs parsed] True that Cons.prems by simp
      have more: "INT64_MAX + 2 \<le> dec_val parsed (c # cs)" if "list_all is_digit cs" "cs \<noteq> []"
      proof -
        obtain e es where cs: "cs = e # es" using \<open>cs \<noteq> []\<close> by (cases cs) auto
        have "(parsed * 10 + ?d) * 10 + digit_val e \<le> dec_val (parsed * 10 + ?d) (e # es)"
          using that(1) cs d Cons.prems by (intro dec_val_Suc_bound) simp_all
        moreover have "0 \<le> digit_val e" using that(1) cs digit_val_bounds by auto
        ultimately show ?thesis using big cs by (simp add: INT64_MAX_def)
      qed
      have exact: "parsed = INT64_MAX sdiv 10 \<and> ?d = 8 \<longleftrightarrow> parsed * 10 + ?d = INT64_MAX + 1"
        using d unfolding INT64_MAX_def by (auto; presburger)
      have m: "INT64_MAX smod 10 = 7" by (simp add: INT64_MAX_def signed_modulo_int_def)
      show ?thesis
        using big guard True exact m ge more d
        by (cases "cs = []"; cases "list_all is_digit cs") (auto simp: Let_def i64_bounds)
    qed
  qed simp
qed

section \<open>A concrete document model\<close>

text \<open>
  An implementation of the parser interface on document trees, with a finite table as the text
  parser. It shows that the interface has instances and lets examples be evaluated.
\<close>

datatype JsonTree = JStr string | JInt int | JBool bool | JArr "JsonTree list" | JObj "(string \<times> JsonTree) list"

definition tree_js :: "(string \<times> JsonTree) list \<Rightarrow> JsonTree Dom" where
  "tree_js table =
     \<lparr>dom_parse = map_of table,
      dom_at_key = (\<lambda>e k. case e of JObj kvs \<Rightarrow> map_of kvs k | _ \<Rightarrow> None),
      dom_string = (\<lambda>e. case e of JStr s \<Rightarrow> Some s | _ \<Rightarrow> None),
      dom_int64 = (\<lambda>e. case e of JInt i \<Rightarrow> if in_i64 i then Some i else None | _ \<Rightarrow> None),
      dom_bool = (\<lambda>e. case e of JBool b \<Rightarrow> Some b | _ \<Rightarrow> None),
      dom_array = (\<lambda>e. case e of JArr xs \<Rightarrow> Some xs | _ \<Rightarrow> None)\<rparr>"

lemma tree_js_ok: "dom_ok (tree_js table)"
  by (auto simp: dom_ok_def tree_js_def split: JsonTree.splits if_splits)

definition level_tree :: "string \<Rightarrow> string \<Rightarrow> JsonTree" where
  "level_tree px qty = JArr [JStr px, JStr qty]"

section \<open>Properties\<close>

text \<open>Integers that venues send as text: the accepted strings are an optional minus sign and
  at least one digit whose signed value fits 64 bits, the most negative value included, and the
  result is that value; every other string is rejected, so a sequence number never wraps.\<close>

theorem parse_i64_text_iff:
  "parse_i64_text s = Some v \<longleftrightarrow>
     (\<exists>neg ds. s = (if neg then ''-'' else []) @ ds \<and> ds \<noteq> [] \<and> list_all is_digit ds \<and>
        v = (if neg then - dec_val 0 ds else dec_val 0 ds) \<and> in_i64 v)"
proof -
  have eq: "parse_i64_digits neg ds 0 = Some v \<longleftrightarrow>
      list_all is_digit ds \<and> v = (if neg then - dec_val 0 ds else dec_val 0 ds) \<and> in_i64 v" for neg ds
    using parse_i64_digits_eq [of 0 neg ds] by (auto simp: INT64_MAX_def)
  show ?thesis
  proof (cases s)
    case (Cons c cs)
    show ?thesis
    proof (cases "c = CHR ''-''")
      case True
      have "\<not> is_digit CHR ''-''" by code_simp
      with True Cons eq [of True cs] show ?thesis
        by (auto simp: parse_i64_text_def split: if_splits)
    next
      case False
      with Cons eq [of False s] show ?thesis
        by (auto simp: parse_i64_text_def split: if_splits)
    qed
  qed (auto simp: parse_i64_text_def split: if_splits)
qed

text \<open>C33: a level array parses if and only if it is an array of entries that each start with a
  positive price and a non-negative quantity in decimal notation; the parsed levels are those pairs
  in order, and one malformed entry rejects the whole array.\<close>

theorem ParseLevelArray_iff:
  "ParseLevelArray js value = Some levels \<longleftrightarrow>
     (\<exists>e entries. value = Some e \<and> dom_array js e = Some entries \<and>
        list_all2 (\<lambda>entry l. \<exists>f g fs. dom_array js entry = Some (f # g # fs) \<and>
            GetFixed_element js f = Some (lpx l) \<and> GetFixed_element js g = Some (lqty l) \<and>
            0 < lpx l \<and> 0 \<le> lqty l) entries levels)"
proof -
  have "parse_levels js entries = Some levels \<longleftrightarrow>
      list_all2 (\<lambda>entry l. parse_level js entry = Some l) entries levels" for entries
    by (induction entries arbitrary: levels) (auto simp: list_all2_Cons1 split: option.splits)
  then show ?thesis
    by (auto simp: ParseLevelArray_def GetArray_def parse_level_iff split: option.splits)
qed

end
