(* ===== verification/Venue.thy ===== *)
theory Venue
  imports Json
begin

text \<open>
  The venue protocol interface (\<^verbatim>\<open>src/venues/venue.h\<close>). The abstract class is a record of its
  virtual functions on a state \<open>'s\<close>; an adapter is a value of that record. The output vector of a
  handler is the list of updates it appends. The locale \<open>venue_protocol\<close> is the contract of
  the class's comments that the runner and the engine rely on.
\<close>

section \<open>Data\<close>

record FeedUpdate = FeedUpdateLevels +
  exchange_ts_ns :: i64
  recv_ts_ns :: i64

definition default_update :: FeedUpdate where
  "default_update =
     \<lparr>is_snapshot = False, fu_bids = [], fu_asks = [], exchange_ts_ns = 0, recv_ts_ns = 0\<rparr>"

datatype FrameVerdict = kOk | kNeedsResync | kParseError | kFatal

record 's VenueProtocol =
  vp_name :: string
  vp_venue_symbol :: string
  vp_stream_url :: string
  vp_SubscribeFrames :: "string list"
  vp_KeepaliveFrame :: string
  vp_keepalive_interval :: int
  vp_needs_rest_snapshot :: bool
  vp_RestSnapshotUrl :: string
  vp_OnRestSnapshot :: "'s \<Rightarrow> string \<Rightarrow> i64 \<Rightarrow> 's \<times> FrameVerdict \<times> FeedUpdate list"
  vp_synced :: "'s \<Rightarrow> bool"
  vp_OnFrame :: "'s \<Rightarrow> string \<Rightarrow> i64 \<Rightarrow> 's \<times> FrameVerdict \<times> FeedUpdate list"
  vp_Reset :: "'s \<Rightarrow> 's"
  vp_fatal_reason :: "'s \<Rightarrow> string"

text \<open>The default implementation of \<^verbatim>\<open>OnRestSnapshot\<close>.\<close>

definition default_OnRestSnapshot :: "'s \<Rightarrow> string \<Rightarrow> i64 \<Rightarrow> 's \<times> FrameVerdict \<times> FeedUpdate list" where
  "default_OnRestSnapshot s body recv = (s, kOk, [])"

definition dquote :: string where
  "dquote = [CHR 0x22]"

definition int_to_string :: "int \<Rightarrow> string" where
  "int_to_string n = (if n < 0 then ''-'' @ to_string (- n) else to_string n)"

text \<open>Milliseconds of a venue clock as nanoseconds, in 64 bits.\<close>

definition ms_to_ns :: "i64 \<Rightarrow> i64" where
  "ms_to_ns ms = wrap64 (ms * 1000000)"

section \<open>A session\<close>

text \<open>
  A session is what happens between two resets: frames and snapshot bodies, all accepted. It ends
  at the first verdict that is not \<open>kOk\<close> (the result is then \<open>None\<close>, and the caller
  resets).
\<close>

datatype VenueInput = WsFrame string i64 | RestBody string i64

fun venue_input ::
  "'s VenueProtocol \<Rightarrow> 's \<Rightarrow> VenueInput \<Rightarrow> 's \<times> FrameVerdict \<times> FeedUpdate list" where
  "venue_input p s (WsFrame frame recv) = vp_OnFrame p s frame recv"
| "venue_input p s (RestBody body recv) = vp_OnRestSnapshot p s body recv"

fun session :: "'s VenueProtocol \<Rightarrow> 's \<Rightarrow> VenueInput list \<Rightarrow> ('s \<times> FeedUpdate list) option" where
  "session p s [] = Some (s, [])"
| "session p s (i # is) =
     (let (s', verdict, us) = venue_input p s i
      in if verdict \<noteq> kOk then None
         else map_option (\<lambda>(s'', us'). (s'', us @ us')) (session p s' is))"

section \<open>The contract\<close>

text \<open>
  \<open>ready\<close> says that the session has produced a baseline snapshot. A handler that fails
  appends nothing, what it appends has positive prices and non-negative quantities, and the first
  thing a session appends is a snapshot.
\<close>

locale venue_protocol =
  fixes p :: "'s VenueProtocol" and ready :: "'s \<Rightarrow> bool" and inv :: "'s \<Rightarrow> bool"
  assumes reset_fresh: "inv (vp_Reset p s) \<and> \<not> ready (vp_Reset p s) \<and> \<not> vp_synced p (vp_Reset p s)"
    and ready_synced: "inv s \<Longrightarrow> ready s \<Longrightarrow> vp_synced p s"
    and input_synced: "venue_input p s i = (s', v, us) \<Longrightarrow> vp_synced p s \<Longrightarrow> vp_synced p s'"
    and input_inv: "inv s \<Longrightarrow> venue_input p s i = (s', v, us) \<Longrightarrow> inv s'"
    and input_fail: "venue_input p s i = (s', v, us) \<Longrightarrow> v \<noteq> kOk \<Longrightarrow> us = []"
    and input_valid: "inv s \<Longrightarrow> venue_input p s i = (s', v, us) \<Longrightarrow> list_all update_ok us"
    and input_baseline: "inv s \<Longrightarrow> venue_input p s i = (s', kOk, us) \<Longrightarrow>
      (ready s' \<longleftrightarrow> ready s \<or> us \<noteq> []) \<and> (us \<noteq> [] \<longrightarrow> ready s \<or> is_snapshot (hd us))"
begin

lemma session_baseline:
  assumes "inv s" "session p s is = Some (s', us)"
  shows "inv s' \<and> list_all update_ok us \<and> (ready s' \<longleftrightarrow> ready s \<or> us \<noteq> []) \<and>
         (us \<noteq> [] \<longrightarrow> ready s \<or> is_snapshot (hd us))"
  using assms
proof (induction "is" arbitrary: s us)
  case (Cons i "is")
  obtain s1 v us1 where step: "venue_input p s i = (s1, v, us1)" by (cases "venue_input p s i")
  with Cons.prems obtain us2 where rest: "v = kOk" "session p s1 is = Some (s', us2)" "us = us1 @ us2"
    by (auto simp: Let_def split: if_splits)
  have inv1: "inv s1" using input_inv [OF Cons.prems(1) step] .
  from Cons.IH [OF inv1 rest(2)] input_valid [OF Cons.prems(1) step] input_baseline [OF Cons.prems(1), of i s1 us1] step rest
  show ?case by (cases us1) auto
qed auto

text \<open>After a reset the first update replaces the book, whatever it held.\<close>

lemma session_forgets:
  assumes "session p (vp_Reset p s) is = Some (s', us)" "us \<noteq> []"
    and "book_ok b" "book_ok b'"
  shows "book_depth (foldl ApplyFeedUpdate b us) = book_depth (foldl ApplyFeedUpdate b' us)"
proof -
  have fresh: "inv (vp_Reset p s)" "\<not> ready (vp_Reset p s)" using reset_fresh by auto
  with session_baseline [OF fresh(1) assms(1)] assms(2)
  obtain u rest where us: "us = u # rest" "is_snapshot u" and ok: "list_all update_ok us" by (cases us) auto
  have "foldl depth_step m us = foldl depth_step m' us" for m m'
    using us by (simp add: depth_step_def view_step_def)
  with feed_run_refines [OF assms(3) ok] feed_run_refines [OF assms(4) ok] show ?thesis by metis
qed

end

section \<open>Following a venue's book\<close>

text \<open>
  The venue's own book is a function \<open>B\<close> from its sequence numbers to the two sides.
  \<open>side_change m m' ls\<close>: the absolute quantities in \<open>ls\<close> turn \<open>m\<close> into \<open>m'\<close>.
\<close>

type_synonym TrueBook = "int \<Rightarrow> (Px \<rightharpoonup> Qty) \<times> (Px \<rightharpoonup> Qty)"

definition describes_change ::
  "(Px \<rightharpoonup> Qty) \<times> (Px \<rightharpoonup> Qty) \<Rightarrow> (Px \<rightharpoonup> Qty) \<times> (Px \<rightharpoonup> Qty) \<Rightarrow> Level list \<Rightarrow> Level list \<Rightarrow> bool" where
  "describes_change m m' bids asks \<longleftrightarrow>
     m' = (amend (fst m) (last_at bids), amend (snd m) (last_at asks))"

definition describes_book :: "(Px \<rightharpoonup> Qty) \<times> (Px \<rightharpoonup> Qty) \<Rightarrow> Level list \<Rightarrow> Level list \<Rightarrow> bool" where
  "describes_book m bids asks \<longleftrightarrow>
     m = (amend Map.empty (last_at bids), amend Map.empty (last_at asks))"

lemma depth_step_cases:
  "is_snapshot u \<Longrightarrow> describes_book m (fu_bids u) (fu_asks u) \<Longrightarrow> depth_step x u = m"
  "\<not> is_snapshot u \<Longrightarrow> describes_change x m (fu_bids u) (fu_asks u) \<Longrightarrow> depth_step x u = m"
  by (simp_all add: depth_step_def view_step_def describes_book_def describes_change_def)

end
