(* ===== verification/Binance.thy ===== *)
theory Binance
  imports Venue
begin

text \<open>
  The Binance adapter (\<^verbatim>\<open>src/venues/binance.h\<close>, \<^verbatim>\<open>src/venues/binance.cc\<close>): the diff stream
  is buffered until a REST snapshot arrives, then the two are reconciled by update ids, and every
  later event must continue the last one.
\<close>

section \<open>Data\<close>

record BinanceConfig =
  bnc_symbol :: string
  bnc_stream_url :: string
  bnc_rest_url :: string
  bnc_snapshot_limit :: int
  bnc_max_buffered_events :: nat

record PendingEvent =
  first_id :: i64
  final_id :: i64
  pe_exchange_ts_ns :: i64
  pe_bids :: "Level list"
  pe_asks :: "Level list"

record Binance =
  bn_staging :: "FeedUpdate list"
  bn_buffered :: "PendingEvent list"
  bn_last_update_id :: i64
  bn_synced :: bool

definition default_binance_config :: BinanceConfig where
  "default_binance_config =
     \<lparr>bnc_symbol = ''BTCUSDT'', bnc_stream_url = ''wss://stream.binance.com:9443/ws'',
      bnc_rest_url = ''https://api.binance.com/api/v3/depth'', bnc_snapshot_limit = 5000,
      bnc_max_buffered_events = 4096\<rparr>"

definition new_binance :: Binance where
  "new_binance = \<lparr>bn_staging = [], bn_buffered = [], bn_last_update_id = 0, bn_synced = False\<rparr>"

section \<open>Operations\<close>

definition lower_char :: "char \<Rightarrow> char" where
  "lower_char c =
     (let n = (of_char c :: nat) in if 65 \<le> n \<and> n \<le> 90 then char_of (n + 32) else c)"

definition Lowercase :: "string \<Rightarrow> string" where
  "Lowercase s = map lower_char s"

definition binance_stream_url :: "BinanceConfig \<Rightarrow> string" where
  "binance_stream_url config =
     bnc_stream_url config @ ''/'' @ Lowercase (bnc_symbol config) @ ''@depth@100ms''"

definition binance_RestSnapshotUrl :: "BinanceConfig \<Rightarrow> string" where
  "binance_RestSnapshotUrl config =
     bnc_rest_url config @ ''?symbol='' @ bnc_symbol config @ ''&limit='' @
     int_to_string (bnc_snapshot_limit config)"

definition binance_Reset :: "Binance \<Rightarrow> Binance" where
  "binance_Reset s =
     s\<lparr>bn_staging := [], bn_buffered := [], bn_last_update_id := 0, bn_synced := False\<rparr>"

definition ParseDepthEvent :: "'e Dom \<Rightarrow> 'e \<Rightarrow> PendingEvent option" where
  "ParseDepthEvent js root =
     (let r = Some root;
          ts = (case GetI64 js (at_key js r ''E'') of None \<Rightarrow> 0 | Some event_ms \<Rightarrow> ms_to_ns event_ms)
      in case GetI64 js (at_key js r ''U'') of
           None \<Rightarrow> None
         | Some fst_id \<Rightarrow>
             (case GetI64 js (at_key js r ''u'') of
                None \<Rightarrow> None
              | Some fin_id \<Rightarrow>
                  (case ParseLevelArray js (at_key js r ''b'') of
                     None \<Rightarrow> None
                   | Some bids \<Rightarrow>
                       (case ParseLevelArray js (at_key js r ''a'') of
                          None \<Rightarrow> None
                        | Some asks \<Rightarrow>
                            Some \<lparr>first_id = fst_id, final_id = fin_id, pe_exchange_ts_ns = ts,
                                  pe_bids = bids, pe_asks = asks\<rparr>))))"

definition event_update :: "PendingEvent \<Rightarrow> i64 \<Rightarrow> FeedUpdate" where
  "event_update event recv =
     \<lparr>is_snapshot = False, fu_bids = pe_bids event, fu_asks = pe_asks event,
      exchange_ts_ns = pe_exchange_ts_ns event, recv_ts_ns = recv\<rparr>"

text \<open>The part of \<^verbatim>\<open>OnFrame\<close> after the event has been parsed.\<close>

definition binance_on_event ::
  "BinanceConfig \<Rightarrow> Binance \<Rightarrow> PendingEvent \<Rightarrow> i64 \<Rightarrow> Binance \<times> FrameVerdict \<times> FeedUpdate list" where
  "binance_on_event config s event recv =
     (if \<not> bn_synced s then
        (if length (bn_buffered s) \<ge> bnc_max_buffered_events config
         then (s\<lparr>bn_buffered := []\<rparr>, kNeedsResync, [])
         else (s\<lparr>bn_buffered := bn_buffered s @ [event]\<rparr>, kOk, []))
      else if first_id event \<noteq> wrap64 (bn_last_update_id s + 1) then (s, kNeedsResync, [])
      else (s\<lparr>bn_last_update_id := final_id event\<rparr>, kOk, [event_update event recv]))"

definition binance_OnFrame ::
  "'e Dom \<Rightarrow> BinanceConfig \<Rightarrow> Binance \<Rightarrow> string \<Rightarrow> i64 \<Rightarrow> Binance \<times> FrameVerdict \<times> FeedUpdate list" where
  "binance_OnFrame js config s frame recv =
     (case Parse js frame of
        None \<Rightarrow> (s, kParseError, [])
      | Some root \<Rightarrow>
          (case GetString js (at_key js (Some root) ''e'') of
             None \<Rightarrow> (s, kOk, [])
           | Some event_type \<Rightarrow>
               if event_type \<noteq> ''depthUpdate'' then (s, kOk, [])
               else if (case GetString js (at_key js (Some root) ''s'') of
                          None \<Rightarrow> False | Some symbol \<Rightarrow> symbol \<noteq> bnc_symbol config)
                    then (s, kOk, [])
               else (case ParseDepthEvent js root of
                       None \<Rightarrow> (s, kParseError, [])
                     | Some event \<Rightarrow> binance_on_event config s event recv)))"

text \<open>
  The replay of the buffered events: \<open>Inl\<close> is a gap inside the buffer, with the staging vector
  as it is left; \<open>Inr\<close> the last id applied with the staged updates.
\<close>

fun replay_buffered ::
  "i64 \<Rightarrow> PendingEvent list \<Rightarrow> bool \<Rightarrow> i64 \<Rightarrow> FeedUpdate list \<Rightarrow> FeedUpdate list + (i64 \<times> FeedUpdate list)" where
  "replay_buffered recv [] first applied_through staging = Inr (applied_through, staging)"
| "replay_buffered recv (event # events) first applied_through staging =
     (if \<not> first \<and> first_id event \<noteq> wrap64 (applied_through + 1) then Inl staging
      else replay_buffered recv events False (final_id event) (staging @ [event_update event recv]))"

text \<open>The part of \<^verbatim>\<open>OnRestSnapshot\<close> after the body has been parsed.\<close>

definition binance_reconcile ::
  "Binance \<Rightarrow> i64 \<Rightarrow> Level list \<Rightarrow> Level list \<Rightarrow> i64 \<Rightarrow> Binance \<times> FrameVerdict \<times> FeedUpdate list" where
  "binance_reconcile s snapshot_id bids asks recv =
     (let snapshot = default_update\<lparr>is_snapshot := True, recv_ts_ns := recv, fu_bids := bids, fu_asks := asks\<rparr>;
          staging = [snapshot];
          buffered = dropWhile (\<lambda>e. final_id e \<le> snapshot_id) (bn_buffered s);
          straddles = (buffered \<noteq> [] \<longrightarrow>
             (let first = hd buffered
              in first_id first \<le> wrap64 (snapshot_id + 1) \<and> wrap64 (snapshot_id + 1) \<le> final_id first))
      in if \<not> straddles then (s\<lparr>bn_staging := staging, bn_buffered := []\<rparr>, kNeedsResync, [])
         else (case replay_buffered recv buffered True snapshot_id staging of
                 Inl staged \<Rightarrow> (s\<lparr>bn_staging := staged, bn_buffered := []\<rparr>, kNeedsResync, [])
               | Inr (applied_through, staged) \<Rightarrow>
                   (s\<lparr>bn_staging := [], bn_buffered := [], bn_last_update_id := applied_through,
                      bn_synced := True\<rparr>, kOk, staged)))"

definition binance_OnRestSnapshot ::
  "'e Dom \<Rightarrow> Binance \<Rightarrow> string \<Rightarrow> i64 \<Rightarrow> Binance \<times> FrameVerdict \<times> FeedUpdate list" where
  "binance_OnRestSnapshot js s body recv =
     (case Parse js body of
        None \<Rightarrow> (s, kParseError, [])
      | Some root \<Rightarrow>
          (case GetI64 js (at_key js (Some root) ''lastUpdateId'') of
             None \<Rightarrow> (s, kParseError, [])
           | Some snapshot_id \<Rightarrow>
               (case ParseLevelArray js (at_key js (Some root) ''bids'') of
                  None \<Rightarrow> (s\<lparr>bn_staging := []\<rparr>, kParseError, [])
                | Some bids \<Rightarrow>
                    (case ParseLevelArray js (at_key js (Some root) ''asks'') of
                       None \<Rightarrow> (s\<lparr>bn_staging := []\<rparr>, kParseError, [])
                     | Some asks \<Rightarrow> binance_reconcile s snapshot_id bids asks recv))))"

definition binance_protocol :: "'e Dom \<Rightarrow> BinanceConfig \<Rightarrow> Binance VenueProtocol" where
  "binance_protocol js config =
     \<lparr>vp_name = ''binance'', vp_venue_symbol = bnc_symbol config,
      vp_stream_url = binance_stream_url config, vp_SubscribeFrames = [],
      vp_KeepaliveFrame = [], vp_keepalive_interval = 0,
      vp_needs_rest_snapshot = True, vp_RestSnapshotUrl = binance_RestSnapshotUrl config,
      vp_OnRestSnapshot = binance_OnRestSnapshot js, vp_synced = bn_synced,
      vp_OnFrame = binance_OnFrame js config, vp_Reset = binance_Reset,
      vp_fatal_reason = (\<lambda>_. [])\<rparr>"

section \<open>The contract\<close>

lemma replay_buffered_updates:
  "replay_buffered recv events first applied staging = Inr (through, staged) \<Longrightarrow>
     staged = staging @ map (\<lambda>e. event_update e recv) events"
  by (induction recv events first applied staging rule: replay_buffered.induct) (auto split: if_splits)

definition binance_inv :: "Binance \<Rightarrow> bool" where
  "binance_inv s \<longleftrightarrow> (\<forall>e\<in>set (bn_buffered s). list_all valid_level (pe_bids e) \<and> list_all valid_level (pe_asks e))"

lemma ParseDepthEvent_valid:
  "ParseDepthEvent js root = Some e \<Longrightarrow> list_all valid_level (pe_bids e) \<and> list_all valid_level (pe_asks e)"
  by (auto simp: ParseDepthEvent_def Let_def split: option.splits dest: ParseLevelArray_valid)


lemma binance_on_event_cases:
  assumes "binance_on_event config s event recv = (s', v, us)"
  shows "bn_synced s' = bn_synced s"
    and "v \<noteq> kOk \<Longrightarrow> us = []"
    and "us \<noteq> [] \<Longrightarrow> bn_synced s \<and> us = [event_update event recv]"
    and "set (bn_buffered s') \<subseteq> insert event (set (bn_buffered s))"
  using assms by (auto simp: binance_on_event_def split: if_splits)

lemma binance_reconcile_cases:
  assumes "binance_reconcile s snapshot_id bids asks recv = (s', v, us)"
  shows "bn_buffered s' = []"
    and "v \<noteq> kOk \<Longrightarrow> us = [] \<and> bn_synced s' = bn_synced s"
    and "v = kOk \<Longrightarrow> bn_synced s' \<and> (\<exists>events. set events \<subseteq> set (bn_buffered s) \<and>
           us = default_update\<lparr>is_snapshot := True, recv_ts_ns := recv, fu_bids := bids, fu_asks := asks\<rparr> #
                map (\<lambda>e. event_update e recv) events)"
proof -
  let ?buffered = "dropWhile (\<lambda>e. final_id e \<le> snapshot_id) (bn_buffered s)"
  show "bn_buffered s' = []" "v \<noteq> kOk \<Longrightarrow> us = [] \<and> bn_synced s' = bn_synced s"
    using assms by (auto simp: binance_reconcile_def Let_def split: if_splits sum.splits prod.splits)
  assume "v = kOk"
  with assms obtain through where "bn_synced s'"
    and r: "replay_buffered recv ?buffered True snapshot_id
      [default_update\<lparr>is_snapshot := True, recv_ts_ns := recv, fu_bids := bids, fu_asks := asks\<rparr>] = Inr (through, us)"
    by (auto simp: binance_reconcile_def Let_def split: if_splits sum.splits prod.splits)
  then show "bn_synced s' \<and> (\<exists>events. set events \<subseteq> set (bn_buffered s) \<and>
           us = default_update\<lparr>is_snapshot := True, recv_ts_ns := recv, fu_bids := bids, fu_asks := asks\<rparr> #
                map (\<lambda>e. event_update e recv) events)"
    using replay_buffered_updates [OF r] by (auto dest: set_dropWhileD intro!: exI [of _ ?buffered])
qed

text \<open>A handler either leaves the protocol state alone (up to staging) or acts on a parsed event or body.\<close>

lemma binance_OnFrame_cases:
  assumes "binance_OnFrame js config s frame recv = (s', v, us)"
  obtains "s' = s" "us = []"
  | root event where "Parse js frame = Some root" "ParseDepthEvent js root = Some event"
      "binance_on_event config s event recv = (s', v, us)"
  using assms by (auto simp: binance_OnFrame_def split: option.splits if_splits)

lemma binance_OnRestSnapshot_cases:
  assumes "binance_OnRestSnapshot js s body recv = (s', v, us)"
  obtains "v \<noteq> kOk" "us = []" "s' = s \<or> s' = s\<lparr>bn_staging := []\<rparr>"
  | root id bids asks where "Parse js body = Some root"
      "GetI64 js (at_key js (Some root) ''lastUpdateId'') = Some id"
      "ParseLevelArray js (at_key js (Some root) ''bids'') = Some bids"
      "ParseLevelArray js (at_key js (Some root) ''asks'') = Some asks"
      "binance_reconcile s id bids asks recv = (s', v, us)"
  using assms by (auto simp: binance_OnRestSnapshot_def split: option.splits if_splits)

lemma event_update_ok:
  "list_all valid_level (pe_bids e) \<and> list_all valid_level (pe_asks e) \<Longrightarrow> update_ok (event_update e recv)"
  by (simp add: update_ok_def event_update_def)

lemma binance_frame_contract:
  assumes "binance_OnFrame js config s frame recv = (s', v, us)"
  shows "binance_inv s \<Longrightarrow> binance_inv s' \<and> list_all update_ok us"
    and "v \<noteq> kOk \<Longrightarrow> us = []"
    and "bn_synced s' = bn_synced s \<and> (us \<noteq> [] \<longrightarrow> bn_synced s)"
proof -
  from assms show "binance_inv s \<Longrightarrow> binance_inv s' \<and> list_all update_ok us"
  proof (rule binance_OnFrame_cases)
    fix root event
    assume "binance_inv s" and ev: "ParseDepthEvent js root = Some event"
      and on: "binance_on_event config s event recv = (s', v, us)"
    with ParseDepthEvent_valid [OF ev] binance_on_event_cases [OF on] show ?thesis
      by (cases "us = []") (auto simp: binance_inv_def event_update_ok)
  qed simp
  from assms show "v \<noteq> kOk \<Longrightarrow> us = []"
    by (rule binance_OnFrame_cases) (auto dest: binance_on_event_cases)
  from assms show "bn_synced s' = bn_synced s \<and> (us \<noteq> [] \<longrightarrow> bn_synced s)"
    by (rule binance_OnFrame_cases) (auto dest: binance_on_event_cases)
qed

lemma binance_rest_contract:
  assumes "binance_OnRestSnapshot js s body recv = (s', v, us)"
  shows "binance_inv s \<Longrightarrow> binance_inv s' \<and> list_all update_ok us"
    and "v \<noteq> kOk \<Longrightarrow> us = []"
    and "v = kOk \<Longrightarrow> bn_synced s' \<and> us \<noteq> [] \<and> is_snapshot (hd us)"
    and "bn_synced s \<Longrightarrow> bn_synced s'"
proof -
  from assms show "bn_synced s \<Longrightarrow> bn_synced s'"
    by (rule binance_OnRestSnapshot_cases)
      (auto dest: binance_reconcile_cases(2,3))
  from assms show "binance_inv s \<Longrightarrow> binance_inv s' \<and> list_all update_ok us"
  proof (rule binance_OnRestSnapshot_cases)
    fix root id bids asks
    assume inv: "binance_inv s" and on: "binance_reconcile s id bids asks recv = (s', v, us)"
      and "ParseLevelArray js (at_key js (Some root) ''bids'') = Some bids"
        "ParseLevelArray js (at_key js (Some root) ''asks'') = Some asks"
    then have levels: "list_all valid_level bids" "list_all valid_level asks" by (auto dest: ParseLevelArray_valid)
    have "list_all update_ok us"
    proof (cases "v = kOk")
      case True
      with binance_reconcile_cases(3) [OF on] obtain events where events: "set events \<subseteq> set (bn_buffered s)"
        and us: "us = default_update\<lparr>is_snapshot := True, recv_ts_ns := recv, fu_bids := bids, fu_asks := asks\<rparr> #
          map (\<lambda>e. event_update e recv) events" by blast
      have "update_ok (event_update e recv)" if "e \<in> set events" for e
        using that events inv by (intro event_update_ok) (auto simp: binance_inv_def)
      with levels show ?thesis by (simp add: us list_all_iff update_ok_def [of "default_update\<lparr>is_snapshot := _, recv_ts_ns := _, fu_bids := _, fu_asks := _\<rparr>"])
    qed (use binance_reconcile_cases(2) [OF on] in simp)
    with binance_reconcile_cases(1) [OF on] show ?thesis by (simp add: binance_inv_def)
  qed (auto simp: binance_inv_def)
  from assms show "v \<noteq> kOk \<Longrightarrow> us = []"
    by (rule binance_OnRestSnapshot_cases) (auto dest: binance_reconcile_cases)
  from assms show "v = kOk \<Longrightarrow> bn_synced s' \<and> us \<noteq> [] \<and> is_snapshot (hd us)"
    by (rule binance_OnRestSnapshot_cases) (auto dest: binance_reconcile_cases(3))
qed

interpretation binance: venue_protocol "binance_protocol js config" bn_synced binance_inv for js config
proof
  fix s i s' v us
  show "binance_inv (vp_Reset (binance_protocol js config) s) \<and> \<not> bn_synced (vp_Reset (binance_protocol js config) s) \<and>
      \<not> vp_synced (binance_protocol js config) (vp_Reset (binance_protocol js config) s)"
    by (simp add: binance_protocol_def binance_Reset_def binance_inv_def)
  show "vp_synced (binance_protocol js config) s" if "bn_synced s"
    using that by (simp add: binance_protocol_def)
  note contract = binance_frame_contract [of js config s _ _ s'] binance_rest_contract [of js s _ _ s']
  show "vp_synced (binance_protocol js config) s'"
    if "venue_input (binance_protocol js config) s i = (s', v, us)" "vp_synced (binance_protocol js config) s"
    using that contract by (cases i) (auto simp: binance_protocol_def)
  show "binance_inv s'" if "binance_inv s" "venue_input (binance_protocol js config) s i = (s', v, us)"
    using that contract by (cases i) (auto simp: binance_protocol_def)
  show "us = []" if "venue_input (binance_protocol js config) s i = (s', v, us)" "v \<noteq> kOk"
    using that contract by (cases i) (auto simp: binance_protocol_def)
  show "list_all update_ok us" if "binance_inv s" "venue_input (binance_protocol js config) s i = (s', v, us)"
    using that contract by (cases i) (auto simp: binance_protocol_def)
  show "(bn_synced s' \<longleftrightarrow> bn_synced s \<or> us \<noteq> []) \<and> (us \<noteq> [] \<longrightarrow> bn_synced s \<or> is_snapshot (hd us))"
    if "venue_input (binance_protocol js config) s i = (s', kOk, us)"
    using that contract by (cases i) (auto simp: binance_protocol_def)
qed

section \<open>Following the venue's book\<close>

text \<open>
  What Binance documents of its events: an event with ids \<open>U\<close> to \<open>u\<close> lists, for every price
  that changed from \<open>U - 1\<close> to \<open>u\<close>, the absolute quantity after \<open>u\<close>, and no other price
  changed in between. A snapshot with id \<open>i\<close> lists the book after \<open>i\<close>.
\<close>

definition side_event :: "(int \<Rightarrow> (Px \<rightharpoonup> Qty)) \<Rightarrow> i64 \<Rightarrow> i64 \<Rightarrow> Level list \<Rightarrow> bool" where
  "side_event S first final ls \<longleftrightarrow>
     (\<forall>px. case last_at ls px of
             None \<Rightarrow> (\<forall>j. first - 1 \<le> j \<and> j \<le> final \<longrightarrow> S j px = S final px)
           | Some q \<Rightarrow> S final px = (if q = 0 then None else Some q))"

definition event_of :: "TrueBook \<Rightarrow> PendingEvent \<Rightarrow> bool" where
  "event_of B e \<longleftrightarrow>
     first_id e \<le> final_id e \<and> INT64_MIN \<le> first_id e \<and> final_id e < INT64_MAX \<and>
     side_event (\<lambda>j. fst (B j)) (first_id e) (final_id e) (pe_bids e) \<and>
     side_event (\<lambda>j. snd (B j)) (first_id e) (final_id e) (pe_asks e)"

fun binance_faithful :: "'e Dom \<Rightarrow> TrueBook \<Rightarrow> VenueInput \<Rightarrow> bool" where
  "binance_faithful js B (WsFrame frame recv) =
     (\<forall>root e. Parse js frame = Some root \<longrightarrow> ParseDepthEvent js root = Some e \<longrightarrow> event_of B e)"
| "binance_faithful js B (RestBody body recv) =
     (\<forall>root id bids asks. Parse js body = Some root \<longrightarrow>
        GetI64 js (at_key js (Some root) ''lastUpdateId'') = Some id \<longrightarrow>
        ParseLevelArray js (at_key js (Some root) ''bids'') = Some bids \<longrightarrow>
        ParseLevelArray js (at_key js (Some root) ''asks'') = Some asks \<longrightarrow>
        INT64_MIN \<le> id \<and> id < INT64_MAX \<and> describes_book (B id) bids asks)"

lemma side_event_amend:
  assumes "side_event S first final ls" "first - 1 \<le> j" "j \<le> final"
  shows "amend (S j) (last_at ls) = S final"
proof
  fix px
  have px: "case last_at ls px of
             None \<Rightarrow> (\<forall>j. first - 1 \<le> j \<and> j \<le> final \<longrightarrow> S j px = S final px)
           | Some q \<Rightarrow> S final px = (if q = 0 then None else Some q)"
    using assms(1) unfolding side_event_def by (rule spec)
  show "amend (S j) (last_at ls) px = S final px"
  proof (cases "last_at ls px")
    case None
    with px have "S j px = S final px" using assms(2,3) by (auto simp only: option.case)
    with None show ?thesis by (simp add: amend_def)
  qed (use px in \<open>simp add: amend_def\<close>)
qed

lemma event_step:
  assumes "event_of B e" "first_id e - 1 \<le> j" "j \<le> final_id e"
  shows "depth_step (B j) (event_update e recv) = B (final_id e)"
proof (rule depth_step_cases(2))
  have "amend (fst (B j)) (last_at (pe_bids e)) = fst (B (final_id e))"
    "amend (snd (B j)) (last_at (pe_asks e)) = snd (B (final_id e))"
    using assms side_event_amend [of "\<lambda>j. fst (B j)"] side_event_amend [of "\<lambda>j. snd (B j)"]
    by (auto simp: event_of_def)
  then show "describes_change (B j) (B (final_id e)) (fu_bids (event_update e recv)) (fu_asks (event_update e recv))"
    by (simp add: describes_change_def event_update_def)
qed (simp add: event_update_def)

lemma wrap_next: "INT64_MIN \<le> i \<Longrightarrow> i < INT64_MAX \<Longrightarrow> wrap64 (i + 1) = i + 1"
  by (rule wrap64_id) (simp add: i64_bounds)

lemma replay_tracks:
  assumes "replay_buffered recv events first applied staging = Inr (through, staged)"
    and "\<forall>e\<in>set events. event_of B e" "INT64_MIN \<le> applied" "applied < INT64_MAX"
    and "first \<and> events \<noteq> [] \<longrightarrow> first_id (hd events) \<le> applied + 1 \<and> applied + 1 \<le> final_id (hd events)"
  shows "foldl depth_step (B applied) (map (\<lambda>e. event_update e recv) events) = B through \<and>
         INT64_MIN \<le> through \<and> through < INT64_MAX"
  using assms
proof (induction recv events first applied staging rule: replay_buffered.induct)
  case (2 recv e es first applied staging)
  have e: "event_of B e" using "2.prems"(2) by simp
  have cont: "\<not> (\<not> first \<and> first_id e \<noteq> wrap64 (applied + 1))"
    and rest: "replay_buffered recv es False (final_id e) (staging @ [event_update e recv]) = Inr (through, staged)"
    using "2.prems"(1) by (auto split: if_splits)
  have range: "first_id e - 1 \<le> applied" "applied \<le> final_id e"
    using cont wrap_next [OF "2.prems"(3,4)] "2.prems"(5) e by (cases first; auto simp: event_of_def)+
  have "INT64_MIN \<le> final_id e" "final_id e < INT64_MAX" using e by (auto simp: event_of_def)
  with "2.IH" [OF cont rest] "2.prems"(2) event_step [OF e range] show ?case by simp
qed simp

definition binance_tracks :: "TrueBook \<Rightarrow> Binance \<Rightarrow> (Px \<rightharpoonup> Qty) \<times> (Px \<rightharpoonup> Qty) \<Rightarrow> bool" where
  "binance_tracks B s m \<longleftrightarrow>
     (\<forall>e\<in>set (bn_buffered s). event_of B e) \<and>
     (bn_synced s \<longrightarrow> m = B (bn_last_update_id s) \<and>
        INT64_MIN \<le> bn_last_update_id s \<and> bn_last_update_id s < INT64_MAX)"

lemma on_event_tracks:
  assumes "binance_on_event config s event recv = (s', kOk, us)" "binance_tracks B s m" "event_of B event"
  shows "binance_tracks B s' (foldl depth_step m us)"
proof (cases "bn_synced s")
  case True
  then have last: "INT64_MIN \<le> bn_last_update_id s" "bn_last_update_id s < INT64_MAX" "m = B (bn_last_update_id s)"
    using assms(2) by (auto simp: binance_tracks_def)
  have "first_id event = bn_last_update_id s + 1" and s': "s' = s\<lparr>bn_last_update_id := final_id event\<rparr>"
    and us: "us = [event_update event recv]"
    using assms(1) True wrap_next [OF last(1,2)] by (auto simp: binance_on_event_def split: if_splits)
  then have "depth_step m (event_update event recv) = B (final_id event)"
    using assms(3) last(3) by (intro event_step [of B event "bn_last_update_id s", folded last(3)]) (auto simp: event_of_def)
  with assms(2,3) s' us show ?thesis by (simp add: binance_tracks_def event_of_def)
next
  case False
  with assms show ?thesis by (auto simp: binance_on_event_def binance_tracks_def split: if_splits)
qed

lemma reconcile_tracks:
  assumes "binance_reconcile s sid bids asks recv = (s', kOk, us)" "binance_tracks B s m"
    and "INT64_MIN \<le> sid" "sid < INT64_MAX" "describes_book (B sid) bids asks"
  shows "binance_tracks B s' (foldl depth_step m us)"
proof -
  let ?buffered = "dropWhile (\<lambda>e. final_id e \<le> sid) (bn_buffered s)"
  let ?snap = "default_update\<lparr>is_snapshot := True, recv_ts_ns := recv, fu_bids := bids, fu_asks := asks\<rparr>"
  obtain through where r: "replay_buffered recv ?buffered True sid [?snap] = Inr (through, us)"
    and s': "s' = s\<lparr>bn_staging := [], bn_buffered := [], bn_last_update_id := through, bn_synced := True\<rparr>"
    and straddle: "?buffered \<noteq> [] \<longrightarrow> first_id (hd ?buffered) \<le> sid + 1 \<and> sid + 1 \<le> final_id (hd ?buffered)"
    using assms(1) wrap_next [OF assms(3,4)]
    by (auto simp: binance_reconcile_def Let_def split: if_splits sum.splits prod.splits)
  have "\<forall>e\<in>set ?buffered. event_of B e"
    using assms(2) by (auto simp: binance_tracks_def dest: set_dropWhileD)
  from replay_tracks [OF r this assms(3,4)] straddle
  have "foldl depth_step (B sid) (map (\<lambda>e. event_update e recv) ?buffered) = B through"
    "INT64_MIN \<le> through" "through < INT64_MAX" by auto
  moreover have "depth_step m ?snap = B sid"
    using assms(5) by (intro depth_step_cases(1)) simp_all
  ultimately show ?thesis
    using replay_buffered_updates [OF r] s' by (simp add: binance_tracks_def)
qed

lemma binance_session_tracks:
  assumes "session (binance_protocol js config) s is = Some (s', us)" "binance_tracks B s m"
    and "list_all (binance_faithful js B) is"
  shows "binance_tracks B s' (foldl depth_step m us)"
  using assms
proof (induction "is" arbitrary: s us m)
  case (Cons i "is")
  obtain s1 v us1 where step: "venue_input (binance_protocol js config) s i = (s1, v, us1)"
    by (cases "venue_input (binance_protocol js config) s i")
  with Cons.prems(1) obtain us2 where rest: "v = kOk" "session (binance_protocol js config) s1 is = Some (s', us2)"
    "us = us1 @ us2" by (auto simp: Let_def split: if_splits)
  have "binance_tracks B s1 (foldl depth_step m us1)"
  proof (cases i)
    case (WsFrame frame recv)
    then have "binance_OnFrame js config s frame recv = (s1, v, us1)" using step by (simp add: binance_protocol_def)
    then show ?thesis
      by (rule binance_OnFrame_cases)
        (use Cons.prems(2,3) WsFrame rest(1) on_event_tracks [of config s _ recv s1 us1 B m] in auto)
  next
    case (RestBody body recv)
    then have "binance_OnRestSnapshot js s body recv = (s1, v, us1)" using step by (simp add: binance_protocol_def)
    then show ?thesis
      by (rule binance_OnRestSnapshot_cases)
        (use Cons.prems(2,3) RestBody rest(1) reconcile_tracks [of s _ _ _ recv s1 us1 B m] in auto)
  qed
  from Cons.IH [OF rest(2) this] Cons.prems(3) rest(3) show ?case by simp
qed simp

text \<open>Whatever frames and snapshot bodies arrive after a reset, in whatever order, and
  whatever the book held before: if they say what Binance's book \<open>B\<close> does and the session is
  accepted and synchronised, then the book built from the emitted updates is exactly Binance's book
  at the last applied update id. The buffered events, the event that straddles the snapshot and
  the live events all end in the right state.\<close>

lemma binance_session_book:
  assumes "session (binance_protocol js config) (binance_Reset s) is = Some (s', us)"
    and "list_all (binance_faithful js B) is" "bn_synced s'" "book_ok b"
  shows "book_depth (foldl ApplyFeedUpdate b us) = B (bn_last_update_id s')"
proof -
  have "binance_inv (binance_Reset s)" by (simp add: binance_inv_def binance_Reset_def)
  then have "list_all update_ok us" using binance.session_baseline [OF _ assms(1)] by blast
  then have "book_depth (foldl ApplyFeedUpdate b us) = foldl depth_step (book_depth b) us"
    using feed_run_refines [OF assms(4)] by blast
  moreover have "binance_tracks B (binance_Reset s) (book_depth b)"
    by (simp add: binance_tracks_def binance_Reset_def)
  ultimately show ?thesis
    using binance_session_tracks [OF assms(1) _ assms(2)] assms(3) by (simp add: binance_tracks_def)
qed

section \<open>An example\<close>

definition example_js :: "JsonTree Dom" where
  "example_js = tree_js
     [(''e1'', JObj [(''e'', JStr ''depthUpdate''), (''U'', JInt 3), (''u'', JInt 5),
                     (''b'', JArr [level_tree ''100'' ''2'']), (''a'', JArr [])]),
      (''snap'', JObj [(''lastUpdateId'', JInt 3), (''bids'', JArr [level_tree ''100'' ''1'']),
                       (''asks'', JArr [level_tree ''200'' ''1''])]),
      (''e2'', JObj [(''e'', JStr ''depthUpdate''), (''U'', JInt 6), (''u'', JInt 6),
                     (''b'', JArr [level_tree ''99'' ''4'']), (''a'', JArr [])])]"

definition example_book :: TrueBook where
  "example_book j =
     (if j \<le> 3 then [10000000000 \<mapsto> 100000000]
      else if j \<le> 5 then [10000000000 \<mapsto> 200000000]
      else [10000000000 \<mapsto> 200000000, 9900000000 \<mapsto> 400000000],
      [20000000000 \<mapsto> 100000000])"

definition example_binance_inputs :: "VenueInput list" where
  "example_binance_inputs = [WsFrame ''e1'' 10, RestBody ''snap'' 20, WsFrame ''e2'' 30]"

lemma example_binance_parse:
  "Parse example_js ''e1'' = Some r \<Longrightarrow> ParseDepthEvent example_js r =
     Some \<lparr>first_id = 3, final_id = 5, pe_exchange_ts_ns = 0,
           pe_bids = [\<lparr>lpx = 10000000000, lqty = 200000000\<rparr>], pe_asks = []\<rparr>"
  "Parse example_js ''e2'' = Some r \<Longrightarrow> ParseDepthEvent example_js r =
     Some \<lparr>first_id = 6, final_id = 6, pe_exchange_ts_ns = 0,
           pe_bids = [\<lparr>lpx = 9900000000, lqty = 400000000\<rparr>], pe_asks = []\<rparr>"
  "Parse example_js ''snap'' = Some r \<Longrightarrow>
     GetI64 example_js (at_key example_js (Some r) ''lastUpdateId'') = Some 3 \<and>
     ParseLevelArray example_js (at_key example_js (Some r) ''bids'') = Some [\<lparr>lpx = 10000000000, lqty = 100000000\<rparr>] \<and>
     ParseLevelArray example_js (at_key example_js (Some r) ''asks'') = Some [\<lparr>lpx = 20000000000, lqty = 100000000\<rparr>]"
proof -
  have "ParseDepthEvent example_js (the (Parse example_js ''e1'')) =
     Some \<lparr>first_id = 3, final_id = 5, pe_exchange_ts_ns = 0,
           pe_bids = [\<lparr>lpx = 10000000000, lqty = 200000000\<rparr>], pe_asks = []\<rparr>" by code_simp
  then show "Parse example_js ''e1'' = Some r \<Longrightarrow> ParseDepthEvent example_js r =
     Some \<lparr>first_id = 3, final_id = 5, pe_exchange_ts_ns = 0,
           pe_bids = [\<lparr>lpx = 10000000000, lqty = 200000000\<rparr>], pe_asks = []\<rparr>" by simp
  have "ParseDepthEvent example_js (the (Parse example_js ''e2'')) =
     Some \<lparr>first_id = 6, final_id = 6, pe_exchange_ts_ns = 0,
           pe_bids = [\<lparr>lpx = 9900000000, lqty = 400000000\<rparr>], pe_asks = []\<rparr>" by code_simp
  then show "Parse example_js ''e2'' = Some r \<Longrightarrow> ParseDepthEvent example_js r =
     Some \<lparr>first_id = 6, final_id = 6, pe_exchange_ts_ns = 0,
           pe_bids = [\<lparr>lpx = 9900000000, lqty = 400000000\<rparr>], pe_asks = []\<rparr>" by simp
  let ?r = "the (Parse example_js ''snap'')"
  have "GetI64 example_js (at_key example_js (Some ?r) ''lastUpdateId'') = Some 3 \<and>
     ParseLevelArray example_js (at_key example_js (Some ?r) ''bids'') = Some [\<lparr>lpx = 10000000000, lqty = 100000000\<rparr>] \<and>
     ParseLevelArray example_js (at_key example_js (Some ?r) ''asks'') = Some [\<lparr>lpx = 20000000000, lqty = 100000000\<rparr>]"
    by code_simp
  then show "Parse example_js ''snap'' = Some r \<Longrightarrow>
     GetI64 example_js (at_key example_js (Some r) ''lastUpdateId'') = Some 3 \<and>
     ParseLevelArray example_js (at_key example_js (Some r) ''bids'') = Some [\<lparr>lpx = 10000000000, lqty = 100000000\<rparr>] \<and>
     ParseLevelArray example_js (at_key example_js (Some r) ''asks'') = Some [\<lparr>lpx = 20000000000, lqty = 100000000\<rparr>]"
    by simp
qed

lemma example_binance_faithful: "list_all (binance_faithful example_js example_book) example_binance_inputs"
proof -
  have "binance_faithful example_js example_book (WsFrame ''e1'' 10)"
    by (auto dest!: example_binance_parse(1) simp: event_of_def side_event_def example_book_def i64_bounds last_at_def)
  moreover have "binance_faithful example_js example_book (WsFrame ''e2'' 30)"
    by (auto dest!: example_binance_parse(2) simp: event_of_def side_event_def example_book_def i64_bounds last_at_def)
  moreover have "binance_faithful example_js example_book (RestBody ''snap'' 20)"
    by (auto dest!: example_binance_parse(3)
        simp: describes_book_def example_book_def i64_bounds last_at_def amend_def fun_eq_iff)
  ultimately show ?thesis by (simp add: example_binance_inputs_def)
qed

end
