(* ===== verification/Okx.thy ===== *)
theory Okx
  imports Venue
begin

text \<open>
  The OKX adapter (\<^verbatim>\<open>src/venues/okx.h\<close>, \<^verbatim>\<open>src/venues/okx.cc\<close>): a snapshot over the
  websocket, then updates that name the sequence number they follow. A frame may carry several
  entries; they are staged and appended together.
\<close>

section \<open>Data and operations\<close>

record OkxConfig =
  okc_symbol :: string
  okc_stream_url :: string
  okc_channel :: string

record Okx =
  ok_staging :: "FeedUpdate list"
  ok_last_seq_id :: i64
  ok_has_seq :: bool
  ok_synced :: bool
  ok_fatal_reason :: string

definition default_okx_config :: OkxConfig where
  "default_okx_config =
     \<lparr>okc_symbol = ''BTC-USDT'', okc_stream_url = ''wss://ws.okx.com:8443/ws/v5/public'',
      okc_channel = ''books''\<rparr>"

definition new_okx :: Okx where
  "new_okx = \<lparr>ok_staging = [], ok_last_seq_id = 0, ok_has_seq = False, ok_synced = False, ok_fatal_reason = []\<rparr>"

definition okx_SubscribeFrames :: "OkxConfig \<Rightarrow> string list" where
  "okx_SubscribeFrames config =
     [''{'' @ dquote @ ''op'' @ dquote @ '':'' @ dquote @ ''subscribe'' @ dquote @ '','' @ dquote @ ''args'' @ dquote @
      '':[{'' @ dquote @ ''channel'' @ dquote @ '':'' @ dquote @ okc_channel config @ dquote @ '','' @ dquote @
      ''instId'' @ dquote @ '':'' @ dquote @ okc_symbol config @ dquote @ ''}]}'']"

definition okx_Reset :: "Okx \<Rightarrow> Okx" where
  "okx_Reset s = s\<lparr>ok_staging := [], ok_last_seq_id := 0, ok_has_seq := False, ok_synced := False\<rparr>"

text \<open>
  The loop over the entries of a frame. \<open>Inl\<close> is an early return with its verdict and the staging
  vector as it is left; \<open>Inr\<close> is the new sequence number, whether one is known, and the staged
  updates.
\<close>

definition okx_entry_update :: "'e Dom \<Rightarrow> bool \<Rightarrow> i64 \<Rightarrow> 'e \<Rightarrow> FeedUpdate option" where
  "okx_entry_update js is_snap recv entry =
     (let ts = (case GetI64 js (at_key js (Some entry) ''ts'') of None \<Rightarrow> 0 | Some ts_ms \<Rightarrow> ms_to_ns ts_ms)
      in case ParseLevelArray js (at_key js (Some entry) ''bids'') of
           None \<Rightarrow> None
         | Some bids \<Rightarrow>
             (case ParseLevelArray js (at_key js (Some entry) ''asks'') of
                None \<Rightarrow> None
              | Some asks \<Rightarrow> Some \<lparr>is_snapshot = is_snap, fu_bids = bids, fu_asks = asks,
                                    exchange_ts_ns = ts, recv_ts_ns = recv\<rparr>))"

fun okx_entries ::
  "'e Dom \<Rightarrow> bool \<Rightarrow> bool \<Rightarrow> i64 \<Rightarrow> 'e list \<Rightarrow> i64 \<Rightarrow> bool \<Rightarrow> FeedUpdate list
     \<Rightarrow> (FrameVerdict \<times> FeedUpdate list) + (i64 \<times> bool \<times> FeedUpdate list)" where
  "okx_entries js is_snap synced recv [] next_seq next_has staging = Inr (next_seq, next_has, staging)"
| "okx_entries js is_snap synced recv (entry # entries) next_seq next_has staging =
     (case GetI64 js (at_key js (Some entry) ''seqId'') of
        None \<Rightarrow> Inl (kParseError, staging)
      | Some seq_id \<Rightarrow>
          (let append_update =
             (case okx_entry_update js is_snap recv entry of
                None \<Rightarrow> Inl (kParseError, staging)
              | Some update \<Rightarrow>
                  okx_entries js is_snap synced recv entries seq_id True (staging @ [update]))
           in if is_snap then append_update
              else (case GetI64 js (at_key js (Some entry) ''prevSeqId'') of
                      None \<Rightarrow> Inl (kParseError, staging)
                    | Some prev_seq_id \<Rightarrow>
                        if \<not> synced \<or> \<not> next_has then Inl (kNeedsResync, staging)
                        else if prev_seq_id \<noteq> next_seq then Inl (kNeedsResync, staging)
                        else if prev_seq_id = seq_id
                             then okx_entries js is_snap synced recv entries next_seq next_has staging
                        else append_update)))"

definition okx_on_data ::
  "'e Dom \<Rightarrow> Okx \<Rightarrow> bool \<Rightarrow> 'e list \<Rightarrow> i64 \<Rightarrow> Okx \<times> FrameVerdict \<times> FeedUpdate list" where
  "okx_on_data js s is_snap entries recv =
     (case okx_entries js is_snap (ok_synced s) recv entries (ok_last_seq_id s) (ok_has_seq s) [] of
        Inl (verdict, staging) \<Rightarrow> (s\<lparr>ok_staging := staging\<rparr>, verdict, [])
      | Inr (next_seq, next_has, staging) \<Rightarrow>
          (s\<lparr>ok_staging := [], ok_last_seq_id := next_seq, ok_has_seq := next_has,
             ok_synced := (if is_snap then True else ok_synced s)\<rparr>, kOk, staging))"

definition okx_OnFrame ::
  "'e Dom \<Rightarrow> OkxConfig \<Rightarrow> Okx \<Rightarrow> string \<Rightarrow> i64 \<Rightarrow> Okx \<times> FrameVerdict \<times> FeedUpdate list" where
  "okx_OnFrame js config s frame recv =
     (if frame = ''pong'' then (s, kOk, [])
      else case Parse js frame of
        None \<Rightarrow> (s, kParseError, [])
      | Some root \<Rightarrow>
          (case GetString js (at_key js (Some root) ''event'') of
             Some event \<Rightarrow>
               if event \<noteq> ''error'' then (s, kOk, [])
               else (s\<lparr>ok_fatal_reason :=
                       (case GetString js (at_key js (Some root) ''msg'') of
                          Some message \<Rightarrow> message | None \<Rightarrow> ''okx rejected the subscription'')\<rparr>, kFatal, [])
           | None \<Rightarrow>
               (case GetString js (at_key js (Some root) ''action'') of
                  None \<Rightarrow> (s, kOk, [])
                | Some action \<Rightarrow>
                    (let is_snap = (action = ''snapshot'')
                     in if \<not> is_snap \<and> action \<noteq> ''update'' then (s, kOk, [])
                        else if (case GetString js (at_key js (at_key js (Some root) ''arg'') ''instId'') of
                                   None \<Rightarrow> False | Some instrument \<Rightarrow> instrument \<noteq> okc_symbol config)
                             then (s, kOk, [])
                        else (case GetArray js (at_key js (Some root) ''data'') of
                                None \<Rightarrow> (s, kParseError, [])
                              | Some entries \<Rightarrow> okx_on_data js s is_snap entries recv)))))"

definition okx_protocol :: "'e Dom \<Rightarrow> OkxConfig \<Rightarrow> Okx VenueProtocol" where
  "okx_protocol js config =
     \<lparr>vp_name = ''okx'', vp_venue_symbol = okc_symbol config, vp_stream_url = okc_stream_url config,
      vp_SubscribeFrames = okx_SubscribeFrames config,
      vp_KeepaliveFrame = ''ping'', vp_keepalive_interval = 20,
      vp_needs_rest_snapshot = False, vp_RestSnapshotUrl = [],
      vp_OnRestSnapshot = default_OnRestSnapshot, vp_synced = ok_synced,
      vp_OnFrame = okx_OnFrame js config, vp_Reset = okx_Reset, vp_fatal_reason = ok_fatal_reason\<rparr>"

section \<open>The contract\<close>

text \<open>A sequence number is only known after a snapshot.\<close>

definition okx_inv :: "Okx \<Rightarrow> bool" where
  "okx_inv s \<longleftrightarrow> (ok_has_seq s \<longrightarrow> ok_synced s)"

lemma okx_entry_update_ok:
  "okx_entry_update js is_snap recv entry = Some u \<Longrightarrow> update_ok u \<and> is_snapshot u = is_snap"
  by (auto simp: okx_entry_update_def update_ok_def Let_def dest: ParseLevelArray_valid split: option.splits)

lemma okx_entries_Cons:
  assumes "okx_entries js is_snap synced recv (entry # entries) next_seq next_has staging = Inr r"
  obtains (skip) "\<not> is_snap" "synced" "next_has"
      "okx_entries js is_snap synced recv entries next_seq next_has staging = Inr r"
  | (append) seq u where "GetI64 js (at_key js (Some entry) ''seqId'') = Some seq"
      "okx_entry_update js is_snap recv entry = Some u"
      "is_snap \<or> synced \<and> next_has \<and> GetI64 js (at_key js (Some entry) ''prevSeqId'') = Some next_seq"
      "okx_entries js is_snap synced recv entries seq True (staging @ [u]) = Inr r"
  using assms by (auto simp: Let_def split: option.splits if_splits)

lemma okx_entries_ok:
  assumes "okx_entries js is_snap synced recv entries next_seq next_has staging = Inr (seq, has, staged)"
  shows "\<exists>us. staged = staging @ us \<and> list_all update_ok us \<and> (\<forall>u\<in>set us. is_snapshot u = is_snap) \<and>
           (has \<longleftrightarrow> next_has \<or> us \<noteq> []) \<and> (us \<noteq> [] \<longrightarrow> is_snap \<or> synced \<and> next_has)"
  using assms
proof (induction entries arbitrary: next_seq next_has staging)
  case (Cons entry entries)
  from Cons.prems show ?case
  proof (cases rule: okx_entries_Cons)
    case skip
    from Cons.IH [OF skip(4)] show ?thesis .
  next
    case (append seq u)
    from Cons.IH [OF append(4)] obtain us where us: "staged = (staging @ [u]) @ us" "list_all update_ok us"
      "\<forall>u\<in>set us. is_snapshot u = is_snap" "has" by auto
    with okx_entry_update_ok [OF append(2)] append(3) show ?thesis
      by (intro exI [of _ "u # us"]) auto
  qed
qed simp

lemma okx_entries_fail:
  "okx_entries js is_snap synced recv entries next_seq next_has staging = Inl (v, st) \<Longrightarrow> v \<noteq> kOk"
proof (induction entries arbitrary: next_seq next_has staging)
  case (Cons entry entries)
  then show ?case by (auto simp: Let_def split: option.splits if_splits)
qed simp

lemma okx_on_data_cases:
  assumes "okx_on_data js s is_snap entries recv = (s', v, us)"
  obtains (fail) st where "v \<noteq> kOk" "us = []" "s' = s\<lparr>ok_staging := st\<rparr>"
  | (accept) seq has where "v = kOk"
      "okx_entries js is_snap (ok_synced s) recv entries (ok_last_seq_id s) (ok_has_seq s) [] = Inr (seq, has, us)"
      "s' = s\<lparr>ok_staging := [], ok_last_seq_id := seq, ok_has_seq := has, ok_synced := (is_snap \<or> ok_synced s)\<rparr>"
proof (cases "okx_entries js is_snap (ok_synced s) recv entries (ok_last_seq_id s) (ok_has_seq s) []")
  case (Inr r)
  obtain seq has staged where r: "r = (seq, has, staged)" by (cases r)
  show ?thesis
    by (rule accept [of seq has]) (use assms Inr r in \<open>auto simp: okx_on_data_def\<close>)
next
  case (Inl r)
  obtain verdict st where r: "r = (verdict, st)" by fastforce
  have "verdict \<noteq> kOk" using okx_entries_fail Inl r by blast
  then show ?thesis
    by (intro fail [of st]) (use assms Inl r in \<open>auto simp: okx_on_data_def\<close>)
qed

lemma okx_OnFrame_cases:
  assumes "okx_OnFrame js config s frame recv = (s', v, us)"
  obtains "s' = s \<or> (\<exists>r. s' = s\<lparr>ok_fatal_reason := r\<rparr>)" "us = []"
  | root is_snap entries where "Parse js frame = Some root"
      "is_snap \<longleftrightarrow> GetString js (at_key js (Some root) ''action'') = Some ''snapshot''"
      "GetArray js (at_key js (Some root) ''data'') = Some entries"
      "okx_on_data js s is_snap entries recv = (s', v, us)"
  using assms
  by (auto simp: okx_OnFrame_def Let_def split: option.splits if_splits)

lemma okx_frame_contract:
  assumes "okx_OnFrame js config s frame recv = (s', v, us)" "okx_inv s"
  shows "okx_inv s' \<and> list_all update_ok us \<and> (v \<noteq> kOk \<longrightarrow> us = []) \<and>
         (v = kOk \<longrightarrow> (ok_has_seq s' \<longleftrightarrow> ok_has_seq s \<or> us \<noteq> []) \<and>
            (us \<noteq> [] \<longrightarrow> ok_has_seq s \<or> is_snapshot (hd us)))"
  using assms(1)
proof (cases rule: okx_OnFrame_cases)
  case 1
  with assms(2) show ?thesis by (auto simp: okx_inv_def)
next
  case (2 root is_snap entries)
  from 2(4) show ?thesis
  proof (cases rule: okx_on_data_cases)
    case fail
    with assms(2) show ?thesis by (auto simp: okx_inv_def)
  next
    case (accept seq has)
    from okx_entries_ok [OF accept(2)] have "list_all update_ok us" "\<forall>u\<in>set us. is_snapshot u = is_snap"
      "has \<longleftrightarrow> ok_has_seq s \<or> us \<noteq> []" "us \<noteq> [] \<longrightarrow> is_snap \<or> ok_synced s \<and> ok_has_seq s" by auto
    with accept(1,3) assms(2) show ?thesis by (cases us) (auto simp: okx_inv_def)
  qed
qed

lemma okx_OnFrame_fail:
  "okx_OnFrame js config s frame recv = (s', v, us) \<Longrightarrow> v \<noteq> kOk \<Longrightarrow> us = []"
  by (erule okx_OnFrame_cases) (auto elim: okx_on_data_cases)

lemma okx_OnFrame_synced:
  "okx_OnFrame js config s frame recv = (s', v, us) \<Longrightarrow> ok_synced s \<Longrightarrow> ok_synced s'"
  by (erule okx_OnFrame_cases) (auto elim: okx_on_data_cases)

interpretation okx: venue_protocol "okx_protocol js config" ok_has_seq okx_inv for js config
proof
  fix s i s' v us
  let ?p = "okx_protocol js config"
  show "okx_inv (vp_Reset ?p s) \<and> \<not> ok_has_seq (vp_Reset ?p s) \<and> \<not> vp_synced ?p (vp_Reset ?p s)"
    by (simp add: okx_protocol_def okx_Reset_def okx_inv_def)
  show "vp_synced ?p s" if "okx_inv s" "ok_has_seq s"
    using that by (simp add: okx_protocol_def okx_inv_def)
  show "us = []" if "venue_input ?p s i = (s', v, us)" "v \<noteq> kOk"
    using that okx_OnFrame_fail [of js config s _ _ s' v us]
    by (cases i) (auto simp: okx_protocol_def default_OnRestSnapshot_def)
  show "vp_synced ?p s'" if "venue_input ?p s i = (s', v, us)" "vp_synced ?p s"
    using that okx_OnFrame_synced [of js config s _ _ s' v us]
    by (cases i) (auto simp: okx_protocol_def default_OnRestSnapshot_def)
  note contract = okx_frame_contract [of js config s _ _ s']
  show "okx_inv s'" if "okx_inv s" "venue_input ?p s i = (s', v, us)"
    using that contract by (cases i) (auto simp: okx_protocol_def default_OnRestSnapshot_def)
  show "list_all update_ok us" if "okx_inv s" "venue_input ?p s i = (s', v, us)"
    using that contract by (cases i) (auto simp: okx_protocol_def default_OnRestSnapshot_def)
  show "(ok_has_seq s' \<longleftrightarrow> ok_has_seq s \<or> us \<noteq> []) \<and> (us \<noteq> [] \<longrightarrow> ok_has_seq s \<or> is_snapshot (hd us))"
    if "okx_inv s" "venue_input ?p s i = (s', kOk, us)"
    using that contract by (cases i) (auto simp: okx_protocol_def default_OnRestSnapshot_def)
qed

section \<open>Following the venue's book\<close>

text \<open>
  What OKX documents: a snapshot entry lists the book at its \<open>seqId\<close>; an update entry lists what
  turns the book at \<open>prevSeqId\<close> into the book at \<open>seqId\<close>.
\<close>

definition okx_entry_faithful :: "'e Dom \<Rightarrow> TrueBook \<Rightarrow> bool \<Rightarrow> 'e \<Rightarrow> bool" where
  "okx_entry_faithful js B is_snap entry \<longleftrightarrow>
     (\<forall>seq prev bids asks.
        GetI64 js (at_key js (Some entry) ''seqId'') = Some seq \<longrightarrow>
        ParseLevelArray js (at_key js (Some entry) ''bids'') = Some bids \<longrightarrow>
        ParseLevelArray js (at_key js (Some entry) ''asks'') = Some asks \<longrightarrow>
        (is_snap \<longrightarrow> describes_book (B seq) bids asks) \<and>
        (\<not> is_snap \<longrightarrow> GetI64 js (at_key js (Some entry) ''prevSeqId'') = Some prev \<longrightarrow>
           describes_change (B prev) (B seq) bids asks))"

fun okx_faithful :: "'e Dom \<Rightarrow> TrueBook \<Rightarrow> VenueInput \<Rightarrow> bool" where
  "okx_faithful js B (WsFrame frame recv) =
     (\<forall>root entries. Parse js frame = Some root \<longrightarrow>
        GetArray js (at_key js (Some root) ''data'') = Some entries \<longrightarrow>
        list_all (okx_entry_faithful js B (GetString js (at_key js (Some root) ''action'') = Some ''snapshot'')) entries)"
| "okx_faithful js B (RestBody body recv) = True"

lemma okx_entry_step:
  assumes "okx_entry_faithful js B is_snap entry" "GetI64 js (at_key js (Some entry) ''seqId'') = Some seq"
    and "okx_entry_update js is_snap recv entry = Some u"
    and "is_snap \<or> m = B prev \<and> GetI64 js (at_key js (Some entry) ''prevSeqId'') = Some prev"
  shows "depth_step m u = B seq"
proof -
  obtain bids asks where u: "ParseLevelArray js (at_key js (Some entry) ''bids'') = Some bids"
    "ParseLevelArray js (at_key js (Some entry) ''asks'') = Some asks"
    "fu_bids u = bids" "fu_asks u = asks" "is_snapshot u = is_snap"
    using assms(3) by (auto simp: okx_entry_update_def Let_def split: option.splits)
  show ?thesis
  proof (cases is_snap)
    case True
    with assms(1,2) u show ?thesis by (intro depth_step_cases(1)) (auto simp: okx_entry_faithful_def)
  next
    case False
    with assms u show ?thesis by (intro depth_step_cases(2)) (auto simp: okx_entry_faithful_def)
  qed
qed

lemma okx_entries_track:
  assumes "okx_entries js is_snap synced recv entries next_seq next_has staging = Inr (seq, has, staged)"
    and "list_all (okx_entry_faithful js B is_snap) entries" "next_has \<longrightarrow> m = B next_seq"
  shows "\<exists>us. staged = staging @ us \<and> (has \<longrightarrow> foldl depth_step m us = B seq)"
  using assms
proof (induction entries arbitrary: next_seq next_has staging m)
  case (Cons entry entries)
  from Cons.prems(1) show ?case
  proof (cases rule: okx_entries_Cons)
    case skip
    from Cons.IH [OF skip(4)] Cons.prems(2,3) show ?thesis by simp
  next
    case (append seq' u)
    have "depth_step m u = B seq'"
      using Cons.prems(2,3) append(3) by (intro okx_entry_step [OF _ append(1,2)]) auto
    with Cons.IH [OF append(4), of "depth_step m u"] Cons.prems(2)
    obtain us where "staged = (staging @ [u]) @ us" "has \<longrightarrow> foldl depth_step (depth_step m u) us = B seq" by auto
    then show ?thesis by (intro exI [of _ "u # us"]) simp
  qed
qed auto

lemma okx_session_tracks:
  assumes "session (okx_protocol js config) s is = Some (s', us)" "ok_has_seq s \<longrightarrow> m = B (ok_last_seq_id s)"
    and "list_all (okx_faithful js B) is"
  shows "ok_has_seq s' \<longrightarrow> foldl depth_step m us = B (ok_last_seq_id s')"
  using assms
proof (induction "is" arbitrary: s us m)
  case (Cons i "is")
  obtain s1 v us1 where step: "venue_input (okx_protocol js config) s i = (s1, v, us1)"
    by (cases "venue_input (okx_protocol js config) s i")
  with Cons.prems(1) obtain us2 where rest: "v = kOk" "session (okx_protocol js config) s1 is = Some (s', us2)"
    "us = us1 @ us2" by (auto simp: Let_def split: if_splits)
  have "ok_has_seq s1 \<longrightarrow> foldl depth_step m us1 = B (ok_last_seq_id s1)"
  proof (cases i)
    case (WsFrame frame recv)
    then have "okx_OnFrame js config s frame recv = (s1, v, us1)" using step by (simp add: okx_protocol_def)
    then show ?thesis
    proof (cases rule: okx_OnFrame_cases)
      case 1
      with Cons.prems(2) show ?thesis by auto
    next
      case (2 root is_snap entries)
      then have "list_all (okx_entry_faithful js B is_snap) entries" using Cons.prems(3) WsFrame by auto
      with 2(4) rest(1) Cons.prems(2) show ?thesis
        by (elim okx_on_data_cases) (auto dest!: okx_entries_track [where m = m])
    qed
  next
    case (RestBody body recv)
    with step Cons.prems(2) show ?thesis by (auto simp: okx_protocol_def default_OnRestSnapshot_def)
  qed
  from Cons.IH [OF rest(2) this] Cons.prems(3) rest(3) show ?case by simp
qed simp

text \<open>After a reset, if the OKX frames say what OKX's book \<open>B\<close> does and the session is
  accepted, then once a sequence number is known the book built from the emitted updates is
  OKX's book at that number, whatever the book held before; frames that repeat a sequence number
  included.\<close>

lemma okx_session_book:
  assumes "session (okx_protocol js config) (okx_Reset s) is = Some (s', us)"
    and "list_all (okx_faithful js B) is" "ok_has_seq s'" "book_ok b"
  shows "book_depth (foldl ApplyFeedUpdate b us) = B (ok_last_seq_id s')"
proof -
  have "okx_inv (okx_Reset s)" by (simp add: okx_inv_def okx_Reset_def)
  then have "list_all update_ok us" using okx.session_baseline [OF _ assms(1)] by blast
  then have "book_depth (foldl ApplyFeedUpdate b us) = foldl depth_step (book_depth b) us"
    using feed_run_refines [OF assms(4)] by blast
  moreover have "ok_has_seq (okx_Reset s) \<longrightarrow> book_depth b = B (ok_last_seq_id (okx_Reset s))"
    by (simp add: okx_Reset_def)
  ultimately show ?thesis using okx_session_tracks [OF assms(1) _ assms(2)] assms(3) by simp
qed

section \<open>An example\<close>

definition okx_snap_entry :: JsonTree where
  "okx_snap_entry = JObj [(''seqId'', JInt 10), (''bids'', JArr [level_tree ''100'' ''1'']), (''asks'', JArr [])]"

definition okx_same_entry :: JsonTree where
  "okx_same_entry =
     JObj [(''prevSeqId'', JInt 10), (''seqId'', JInt 10), (''bids'', JArr []), (''asks'', JArr [])]"

definition okx_next_entry :: JsonTree where
  "okx_next_entry =
     JObj [(''prevSeqId'', JInt 10), (''seqId'', JInt 14),
           (''bids'', JArr [level_tree ''100'' ''0'', level_tree ''99'' ''5'']), (''asks'', JArr [])]"

definition example_okx_js :: "JsonTree Dom" where
  "example_okx_js = tree_js
     [(''s'', JObj [(''action'', JStr ''snapshot''), (''data'', JArr [okx_snap_entry])]),
      (''u'', JObj [(''action'', JStr ''update''), (''data'', JArr [okx_same_entry, okx_next_entry])])]"

definition example_okx_book :: TrueBook where
  "example_okx_book j = (if j = 10 then [10000000000 \<mapsto> 100000000] else [9900000000 \<mapsto> 500000000], Map.empty)"

lemma example_okx_entries:
  "okx_entry_faithful example_okx_js example_okx_book True okx_snap_entry"
  "okx_entry_faithful example_okx_js example_okx_book False okx_same_entry"
  "okx_entry_faithful example_okx_js example_okx_book False okx_next_entry"
proof -
  let ?js = example_okx_js
  let ?seq = "\<lambda>e. GetI64 ?js (at_key ?js (Some e) ''seqId'')"
  let ?prev = "\<lambda>e. GetI64 ?js (at_key ?js (Some e) ''prevSeqId'')"
  let ?bids = "\<lambda>e. ParseLevelArray ?js (at_key ?js (Some e) ''bids'')"
  let ?asks = "\<lambda>e. ParseLevelArray ?js (at_key ?js (Some e) ''asks'')"
  note defs = okx_entry_faithful_def describes_book_def describes_change_def example_okx_book_def
    last_at_def amend_def fun_eq_iff
  have "?seq okx_snap_entry = Some 10" "?bids okx_snap_entry = Some [\<lparr>lpx = 10000000000, lqty = 100000000\<rparr>]"
    "?asks okx_snap_entry = Some []" by code_simp+
  then show "okx_entry_faithful ?js example_okx_book True okx_snap_entry" by (auto simp: defs)
  have "?seq okx_same_entry = Some 10" "?prev okx_same_entry = Some 10" "?bids okx_same_entry = Some []"
    "?asks okx_same_entry = Some []" by code_simp+
  then show "okx_entry_faithful ?js example_okx_book False okx_same_entry" by (auto simp: defs)
  have "?seq okx_next_entry = Some 14" "?prev okx_next_entry = Some 10" "?asks okx_next_entry = Some []"
    "?bids okx_next_entry = Some [\<lparr>lpx = 10000000000, lqty = 0\<rparr>, \<lparr>lpx = 9900000000, lqty = 500000000\<rparr>]"
    by code_simp+
  then show "okx_entry_faithful ?js example_okx_book False okx_next_entry" by (auto simp: defs)
qed

lemma example_okx_faithful:
  "list_all (okx_faithful example_okx_js example_okx_book) [WsFrame ''s'' 1, WsFrame ''pong'' 2, WsFrame ''u'' 3]"
proof -
  let ?js = example_okx_js
  let ?data = "\<lambda>f. GetArray ?js (at_key ?js (Parse ?js f) ''data'')"
  let ?snap = "\<lambda>f. GetString ?js (at_key ?js (Parse ?js f) ''action'') = Some ''snapshot''"
  have "?data ''s'' = Some [okx_snap_entry]" "?snap ''s''"
    "?data ''u'' = Some [okx_same_entry, okx_next_entry]" "\<not> ?snap ''u''" "?data ''pong'' = None"
    by code_simp+
  with example_okx_entries show ?thesis by auto
qed

end
