(* ===== verification/Bybit.thy ===== *)
theory Bybit
  imports Venue
begin

text \<open>
  The Bybit adapter (\<^verbatim>\<open>src/venues/bybit.h\<close>, \<^verbatim>\<open>src/venues/bybit.cc\<close>): a snapshot over the
  websocket, then deltas numbered consecutively. The venue may send a new snapshot at any time; it
  replaces the book and restarts the numbering.
\<close>

section \<open>Data and operations\<close>

record BybitConfig =
  byc_symbol :: string
  byc_stream_url :: string
  byc_depth :: int

record Bybit =
  by_staging :: "FeedUpdate list"
  by_last_update_id :: i64
  by_synced :: bool
  by_fatal_reason :: string

definition default_bybit_config :: BybitConfig where
  "default_bybit_config =
     \<lparr>byc_symbol = ''BTCUSDT'', byc_stream_url = ''wss://stream.bybit.com/v5/public/spot'', byc_depth = 200\<rparr>"

definition new_bybit :: Bybit where
  "new_bybit = \<lparr>by_staging = [], by_last_update_id = 0, by_synced = False, by_fatal_reason = []\<rparr>"

definition Topic :: "BybitConfig \<Rightarrow> string" where
  "Topic config = ''orderbook.'' @ int_to_string (byc_depth config) @ ''.'' @ byc_symbol config"

definition bybit_SubscribeFrames :: "BybitConfig \<Rightarrow> string list" where
  "bybit_SubscribeFrames config =
     [''{'' @ dquote @ ''op'' @ dquote @ '':'' @ dquote @ ''subscribe'' @ dquote @ '','' @ dquote @ ''args'' @ dquote @
      '':['' @ dquote @ Topic config @ dquote @ '']}'']"

definition bybit_KeepaliveFrame :: string where
  "bybit_KeepaliveFrame = ''{'' @ dquote @ ''op'' @ dquote @ '':'' @ dquote @ ''ping'' @ dquote @ ''}''"

definition bybit_Reset :: "Bybit \<Rightarrow> Bybit" where
  "bybit_Reset s = s\<lparr>by_staging := [], by_last_update_id := 0, by_synced := False\<rparr>"

text \<open>The part of \<^verbatim>\<open>OnFrame\<close> for a message of the subscribed topic.\<close>

definition bybit_on_data ::
  "'e Dom \<Rightarrow> Bybit \<Rightarrow> bool \<Rightarrow> 'e \<Rightarrow> 'e \<Rightarrow> i64 \<Rightarrow> Bybit \<times> FrameVerdict \<times> FeedUpdate list" where
  "bybit_on_data js s is_snap root payload recv =
     (case GetI64 js (at_key js (Some payload) ''u'') of
        None \<Rightarrow> (s, kParseError, [])
      | Some update_id \<Rightarrow>
          if \<not> is_snap \<and> \<not> by_synced s then (s, kNeedsResync, [])
          else if \<not> is_snap \<and> update_id \<noteq> wrap64 (by_last_update_id s + 1) then (s, kNeedsResync, [])
          else
            (let ts = (case GetI64 js (at_key js (Some root) ''ts'') of None \<Rightarrow> 0 | Some ts_ms \<Rightarrow> ms_to_ns ts_ms)
             in case ParseLevelArray js (at_key js (Some payload) ''b'') of
                  None \<Rightarrow> (s, kParseError, [])
                | Some bids \<Rightarrow>
                    (case ParseLevelArray js (at_key js (Some payload) ''a'') of
                       None \<Rightarrow> (s, kParseError, [])
                     | Some asks \<Rightarrow>
                         (s\<lparr>by_last_update_id := update_id, by_synced := (if is_snap then True else by_synced s)\<rparr>,
                          kOk,
                          [\<lparr>is_snapshot = is_snap, fu_bids = bids, fu_asks = asks,
                            exchange_ts_ns = ts, recv_ts_ns = recv\<rparr>]))))"

definition bybit_OnFrame ::
  "'e Dom \<Rightarrow> BybitConfig \<Rightarrow> Bybit \<Rightarrow> string \<Rightarrow> i64 \<Rightarrow> Bybit \<times> FrameVerdict \<times> FeedUpdate list" where
  "bybit_OnFrame js config s frame recv =
     (case Parse js frame of
        None \<Rightarrow> (s, kParseError, [])
      | Some root \<Rightarrow>
          (case GetString js (at_key js (Some root) ''topic'') of
             None \<Rightarrow>
               if GetBool js (at_key js (Some root) ''success'') = Some False
               then (s\<lparr>by_fatal_reason :=
                        (case GetString js (at_key js (Some root) ''ret_msg'') of
                           Some message \<Rightarrow> message | None \<Rightarrow> ''bybit rejected the subscription'')\<rparr>, kFatal, [])
               else (s, kOk, [])
           | Some topic \<Rightarrow>
               if topic \<noteq> Topic config then (s, kOk, [])
               else (case GetString js (at_key js (Some root) ''type'') of
                       None \<Rightarrow> (s, kParseError, [])
                     | Some msg_type \<Rightarrow>
                         (let is_snap = (msg_type = ''snapshot'')
                          in if \<not> is_snap \<and> msg_type \<noteq> ''delta'' then (s, kOk, [])
                             else (case at_key js (Some root) ''data'' of
                                     None \<Rightarrow> (s, kParseError, [])
                                   | Some payload \<Rightarrow> bybit_on_data js s is_snap root payload recv)))))"

definition bybit_protocol :: "'e Dom \<Rightarrow> BybitConfig \<Rightarrow> Bybit VenueProtocol" where
  "bybit_protocol js config =
     \<lparr>vp_name = ''bybit'', vp_venue_symbol = byc_symbol config, vp_stream_url = byc_stream_url config,
      vp_SubscribeFrames = bybit_SubscribeFrames config,
      vp_KeepaliveFrame = bybit_KeepaliveFrame, vp_keepalive_interval = 20,
      vp_needs_rest_snapshot = False, vp_RestSnapshotUrl = [],
      vp_OnRestSnapshot = default_OnRestSnapshot, vp_synced = by_synced,
      vp_OnFrame = bybit_OnFrame js config, vp_Reset = bybit_Reset, vp_fatal_reason = by_fatal_reason\<rparr>"

section \<open>The contract\<close>

lemma bybit_on_data_cases:
  assumes "bybit_on_data js s is_snap root payload recv = (s', v, us)"
  obtains (fail) "v \<noteq> kOk" "us = []" "s' = s"
  | (accept) u bids asks ts where "v = kOk" "GetI64 js (at_key js (Some payload) ''u'') = Some u"
      "is_snap \<or> by_synced s \<and> u = wrap64 (by_last_update_id s + 1)"
      "ParseLevelArray js (at_key js (Some payload) ''b'') = Some bids"
      "ParseLevelArray js (at_key js (Some payload) ''a'') = Some asks"
      "s' = s\<lparr>by_last_update_id := u, by_synced := True\<rparr>"
      "us = [\<lparr>is_snapshot = is_snap, fu_bids = bids, fu_asks = asks, exchange_ts_ns = ts, recv_ts_ns = recv\<rparr>]"
  using assms by (auto simp: bybit_on_data_def Let_def split: option.splits if_splits)

lemma bybit_OnFrame_cases:
  assumes "bybit_OnFrame js config s frame recv = (s', v, us)"
  obtains (other) "s' = s \<or> (\<exists>r. s' = s\<lparr>by_fatal_reason := r\<rparr>)" "us = []"
  | (data) root is_snap payload where "Parse js frame = Some root"
      "is_snap \<longleftrightarrow> GetString js (at_key js (Some root) ''type'') = Some ''snapshot''"
      "at_key js (Some root) ''data'' = Some payload"
      "bybit_on_data js s is_snap root payload recv = (s', v, us)"
  using assms by (auto simp: bybit_OnFrame_def Let_def split: option.splits if_splits)

lemma bybit_frame_contract:
  assumes "bybit_OnFrame js config s frame recv = (s', v, us)"
  shows "list_all update_ok us \<and> (v \<noteq> kOk \<longrightarrow> us = []) \<and>
         (v = kOk \<longrightarrow> (by_synced s' \<longleftrightarrow> by_synced s \<or> us \<noteq> []) \<and>
            (us \<noteq> [] \<longrightarrow> by_synced s \<or> is_snapshot (hd us)))"
  using assms
proof (cases rule: bybit_OnFrame_cases)
  case (data root is_snap payload)
  from data(4) show ?thesis
    by (cases rule: bybit_on_data_cases) (auto simp: update_ok_def dest: ParseLevelArray_valid)
qed auto

lemma bybit_OnFrame_synced:
  "bybit_OnFrame js config s frame recv = (s', v, us) \<Longrightarrow> by_synced s \<Longrightarrow> by_synced s'"
  by (erule bybit_OnFrame_cases) (auto elim: bybit_on_data_cases)

interpretation bybit: venue_protocol "bybit_protocol js config" by_synced "\<lambda>_. True" for js config
proof
  fix s i s' v us
  let ?p = "bybit_protocol js config"
  show "True \<and> \<not> by_synced (vp_Reset ?p s) \<and> \<not> vp_synced ?p (vp_Reset ?p s)"
    by (simp add: bybit_protocol_def bybit_Reset_def)
  show "vp_synced ?p s" if "by_synced s" using that by (simp add: bybit_protocol_def)
  show "vp_synced ?p s'" if "venue_input ?p s i = (s', v, us)" "vp_synced ?p s"
    using that bybit_OnFrame_synced [of js config s _ _ s' v us]
    by (cases i) (auto simp: bybit_protocol_def default_OnRestSnapshot_def)
  note contract = bybit_frame_contract [of js config s _ _ s']
  show "us = []" if "venue_input ?p s i = (s', v, us)" "v \<noteq> kOk"
    using that contract by (cases i) (auto simp: bybit_protocol_def default_OnRestSnapshot_def)
  show "list_all update_ok us" if "venue_input ?p s i = (s', v, us)"
    using that contract by (cases i) (auto simp: bybit_protocol_def default_OnRestSnapshot_def)
  show "(by_synced s' \<longleftrightarrow> by_synced s \<or> us \<noteq> []) \<and> (us \<noteq> [] \<longrightarrow> by_synced s \<or> is_snapshot (hd us))"
    if "venue_input ?p s i = (s', kOk, us)"
    using that contract by (cases i) (auto simp: bybit_protocol_def default_OnRestSnapshot_def)
qed simp_all

section \<open>Following the venue's book\<close>

text \<open>
  What Bybit documents: a snapshot lists the book at its \<open>u\<close>, a delta lists what turns the book
  at \<open>u - 1\<close> into the book at \<open>u\<close>.
\<close>

fun bybit_faithful :: "'e Dom \<Rightarrow> TrueBook \<Rightarrow> VenueInput \<Rightarrow> bool" where
  "bybit_faithful js B (WsFrame frame recv) =
     (\<forall>root payload u bids asks. Parse js frame = Some root \<longrightarrow> at_key js (Some root) ''data'' = Some payload \<longrightarrow>
        GetI64 js (at_key js (Some payload) ''u'') = Some u \<longrightarrow>
        ParseLevelArray js (at_key js (Some payload) ''b'') = Some bids \<longrightarrow>
        ParseLevelArray js (at_key js (Some payload) ''a'') = Some asks \<longrightarrow>
        INT64_MIN \<le> u \<and> u < INT64_MAX \<and>
        (if GetString js (at_key js (Some root) ''type'') = Some ''snapshot'' then describes_book (B u) bids asks
         else describes_change (B (u - 1)) (B u) bids asks))"
| "bybit_faithful js B (RestBody body recv) = True"

definition bybit_tracks :: "TrueBook \<Rightarrow> Bybit \<Rightarrow> (Px \<rightharpoonup> Qty) \<times> (Px \<rightharpoonup> Qty) \<Rightarrow> bool" where
  "bybit_tracks B s m \<longleftrightarrow> (by_synced s \<longrightarrow>
     m = B (by_last_update_id s) \<and> INT64_MIN \<le> by_last_update_id s \<and> by_last_update_id s < INT64_MAX)"

lemma bybit_frame_tracks:
  assumes "bybit_OnFrame js config s frame recv = (s', kOk, us)" "bybit_tracks B s m"
    and "bybit_faithful js B (WsFrame frame recv)"
  shows "bybit_tracks B s' (foldl depth_step m us)"
  using assms(1)
proof (cases rule: bybit_OnFrame_cases)
  case other
  with assms(2) show ?thesis by (auto simp: bybit_tracks_def)
next
  case (data root is_snap payload)
  from data(4) show ?thesis
  proof (cases rule: bybit_on_data_cases)
    case (accept u bids asks ts)
    have f: "INT64_MIN \<le> u" "u < INT64_MAX" "is_snap \<Longrightarrow> describes_book (B u) bids asks"
      "\<not> is_snap \<Longrightarrow> describes_change (B (u - 1)) (B u) bids asks"
      using assms(3) data(1,2,3) accept(2,4,5) by auto
    have "depth_step m (hd us) = B u"
    proof (cases is_snap)
      case True
      with f accept(7) show ?thesis by (intro depth_step_cases(1)) simp_all
    next
      case False
      with accept(3) assms(2) have "m = B (by_last_update_id s)" "u = by_last_update_id s + 1"
        using wrap64_id [of "by_last_update_id s + 1"] by (auto simp: bybit_tracks_def i64_bounds)
      with False f accept(7) show ?thesis by (intro depth_step_cases(2)) simp_all
    qed
    with accept(6,7) f show ?thesis by (simp add: bybit_tracks_def)
  qed simp
qed

lemma bybit_session_tracks:
  assumes "session (bybit_protocol js config) s is = Some (s', us)" "bybit_tracks B s m"
    and "list_all (bybit_faithful js B) is"
  shows "bybit_tracks B s' (foldl depth_step m us)"
  using assms
proof (induction "is" arbitrary: s us m)
  case (Cons i "is")
  obtain s1 v us1 where step: "venue_input (bybit_protocol js config) s i = (s1, v, us1)"
    by (cases "venue_input (bybit_protocol js config) s i")
  with Cons.prems(1) obtain us2 where rest: "v = kOk" "session (bybit_protocol js config) s1 is = Some (s', us2)"
    "us = us1 @ us2" by (auto simp: Let_def split: if_splits)
  have "bybit_tracks B s1 (foldl depth_step m us1)"
  proof (cases i)
    case (WsFrame frame recv)
    then have "bybit_OnFrame js config s frame recv = (s1, kOk, us1)"
      using step rest(1) by (simp add: bybit_protocol_def)
    from bybit_frame_tracks [OF this Cons.prems(2)] Cons.prems(3) WsFrame show ?thesis by simp
  next
    case (RestBody body recv)
    with step Cons.prems(2) show ?thesis by (auto simp: bybit_protocol_def default_OnRestSnapshot_def)
  qed
  from Cons.IH [OF rest(2) this] Cons.prems(3) rest(3) show ?case by simp
qed simp

text \<open>After a reset, if the Bybit frames say what Bybit's book \<open>B\<close> does and the session
  is accepted, then once synchronised the book built from the emitted updates is Bybit's book at
  the last update id, whatever the book held before and however many snapshots arrive.\<close>

lemma bybit_session_book:
  assumes "session (bybit_protocol js config) (bybit_Reset s) is = Some (s', us)"
    and "list_all (bybit_faithful js B) is" "by_synced s'" "book_ok b"
  shows "book_depth (foldl ApplyFeedUpdate b us) = B (by_last_update_id s')"
proof -
  have "list_all update_ok us" using bybit.session_baseline [OF _ assms(1)] by blast
  then have "book_depth (foldl ApplyFeedUpdate b us) = foldl depth_step (book_depth b) us"
    using feed_run_refines [OF assms(4)] by blast
  moreover have "bybit_tracks B (bybit_Reset s) (book_depth b)" by (simp add: bybit_tracks_def bybit_Reset_def)
  ultimately show ?thesis
    using bybit_session_tracks [OF assms(1) _ assms(2)] assms(3) by (simp add: bybit_tracks_def)
qed

section \<open>An example\<close>

definition example_bybit_js :: "JsonTree Dom" where
  "example_bybit_js = tree_js
     [(''s'', JObj [(''topic'', JStr ''orderbook.200.BTCUSDT''), (''type'', JStr ''snapshot''),
          (''data'', JObj [(''u'', JInt 7), (''b'', JArr [level_tree ''100'' ''1'']), (''a'', JArr [])])]),
      (''d'', JObj [(''topic'', JStr ''orderbook.200.BTCUSDT''), (''type'', JStr ''delta''),
          (''data'', JObj [(''u'', JInt 8), (''b'', JArr []), (''a'', JArr [level_tree ''101'' ''3''])])])]"

definition example_bybit_book :: TrueBook where
  "example_bybit_book j =
     ([10000000000 \<mapsto> 100000000], if j \<le> 7 then Map.empty else [10100000000 \<mapsto> 300000000])"

lemma example_bybit_faithful:
  "list_all (bybit_faithful example_bybit_js example_bybit_book) [WsFrame ''s'' 1, WsFrame ''d'' 2]"
proof -
  let ?js = example_bybit_js
  let ?data = "\<lambda>f. at_key ?js (Parse ?js f) ''data''"
  let ?snap = "\<lambda>f. GetString ?js (at_key ?js (Parse ?js f) ''type'') = Some ''snapshot''"
  have "GetI64 ?js (at_key ?js (?data ''s'') ''u'') = Some 7" "?snap ''s''"
    "ParseLevelArray ?js (at_key ?js (?data ''s'') ''b'') = Some [\<lparr>lpx = 10000000000, lqty = 100000000\<rparr>]"
    "ParseLevelArray ?js (at_key ?js (?data ''s'') ''a'') = Some []"
    "GetI64 ?js (at_key ?js (?data ''d'') ''u'') = Some 8" "\<not> ?snap ''d''"
    "ParseLevelArray ?js (at_key ?js (?data ''d'') ''b'') = Some []"
    "ParseLevelArray ?js (at_key ?js (?data ''d'') ''a'') = Some [\<lparr>lpx = 10100000000, lqty = 300000000\<rparr>]"
    by code_simp+
  then show ?thesis
    by (auto simp: describes_book_def describes_change_def example_bybit_book_def last_at_def amend_def
        fun_eq_iff i64_bounds)
qed

end
