(* ===== verification/Feed.thy ===== *)
theory Feed
  imports Venue Spsc_Ring
begin

text \<open>
  What a venue thread shares with the engine (\<^verbatim>\<open>src/venues/runner.h\<close>): the connection state
  and counters it publishes, and the batches it pushes into its ring.
\<close>

datatype VenueState = kDisconnected | kConnecting | kSyncing | kLive | kStale

record VenueStats =
  vs_state :: VenueState
  vs_messages :: u64
  vs_resyncs :: u64
  vs_sequence_gaps :: u64
  vs_ring_overflows :: u64
  vs_parse_errors :: u64
  vs_last_recv_ts_ns :: i64
  vs_last_exchange_ts_ns :: i64
  vs_fatal :: bool

definition default_stats :: VenueStats where
  "default_stats =
     \<lparr>vs_state = kDisconnected, vs_messages = 0, vs_resyncs = 0, vs_sequence_gaps = 0,
      vs_ring_overflows = 0, vs_parse_errors = 0, vs_last_recv_ts_ns = 0,
      vs_last_exchange_ts_ns = 0, vs_fatal = False\<rparr>"

record FeedBatch =
  fb_venue_index :: nat
  fb_updates :: "FeedUpdate list"

type_synonym FeedRing = "FeedBatch SpscRing"

end
