(* ===== verification/Engine.thy ===== *)
theory Engine
  imports Feed Analytics Conflating_Slot
begin

text \<open>
  The aggregation engine (\<^verbatim>\<open>src/aggregator/engine.h\<close>, \<^verbatim>\<open>src/aggregator/engine.cc\<close>): one
  thread drains the venues' rings into the venue books, selects the venues that are live and
  fresh, merges their sides and publishes the result to every subscriber's slot.

  The clocks are arguments. The venues' connection states and rings, which other threads own, are
  lists aligned with the venues. The subscribers' slots are objects shared with the service, so
  they live in a store addressed by numbers. An access outside a vector, which is undefined in
  C++, and a failed assertion are the result \<open>None\<close>.
\<close>

section \<open>Data\<close>

type_synonym BookSlot = "ConsolidatedBook ConflatingSlot"

record LatencySummary =
  ls_p50_ns :: i64
  ls_p99_ns :: i64
  ls_max_ns :: i64
  ls_count :: u64

record VenueFeed =
  vf_name :: string
  vf_venue_symbol :: string

record EngineConfig =
  ec_instrument :: string
  ec_max_publish_bps :: int
  ec_max_publish_levels :: int
  ec_staleness_timeout_ms :: i64
  ec_idle_poll_us :: i64
  ec_heartbeat_interval_ms :: i64

definition default_engine_config :: EngineConfig where
  "default_engine_config =
     \<lparr>ec_instrument = ''BTCUSDT'', ec_max_publish_bps = 500, ec_max_publish_levels = 8192,
      ec_staleness_timeout_ms = 5000, ec_idle_poll_us = 200, ec_heartbeat_interval_ms = 1000\<rparr>"

record Engine =
  en_config :: EngineConfig
  en_venues :: "VenueFeed list"
  en_books :: "VenueBook list"
  en_last_recv_ns :: "i64 list"
  en_last_exchange_ns :: "i64 list"
  en_newest_recv_ns :: i64
  en_last_publish :: i64
  en_stopping :: bool
  en_published :: u64
  en_start_wall_ns :: i64
  en_store :: "BookSlot list"
  en_subscribers :: "nat list"
  en_latest :: "ConsolidatedBook option"
  en_latency_samples :: "i64 list"
  en_latency_cursor :: nat
  en_latency_max :: i64
  en_latency_count :: u64

definition kLatencySamples :: nat where
  "kLatencySamples = 4096"

definition kMaxBatchesPerPass :: nat where
  "kMaxBatchesPerPass = 256"

definition new_engine :: "EngineConfig \<Rightarrow> VenueFeed list \<Rightarrow> Engine" where
  "new_engine config venues =
     \<lparr>en_config = config, en_venues = venues, en_books = replicate (length venues) empty_book,
      en_last_recv_ns = replicate (length venues) 0, en_last_exchange_ns = replicate (length venues) 0,
      en_newest_recv_ns = 0, en_last_publish = 0, en_stopping = False, en_published = 0,
      en_start_wall_ns = 0, en_store = [], en_subscribers = [], en_latest = None,
      en_latency_samples = replicate kLatencySamples 0, en_latency_cursor = 0, en_latency_max = 0,
      en_latency_count = 0\<rparr>"

section \<open>Life cycle and subscribers\<close>

definition engine_Start :: "i64 \<Rightarrow> Engine \<Rightarrow> Engine" where
  "engine_Start now_wall e = e\<lparr>en_start_wall_ns := now_wall\<rparr>"

definition slots_stop :: "nat list \<Rightarrow> BookSlot list \<Rightarrow> BookSlot list" where
  "slots_stop ids store = foldl (\<lambda>st i. st[i := slot_stop (st ! i)]) store ids"

definition engine_Stop :: "Engine \<Rightarrow> Engine" where
  "engine_Stop e =
     (if en_stopping e then e
      else e\<lparr>en_stopping := True, en_store := slots_stop (en_subscribers e) (en_store e),
             en_subscribers := []\<rparr>)"

definition AddSubscriber :: "Engine \<Rightarrow> Engine \<times> nat" where
  "AddSubscriber e =
     (let slot = length (en_store e)
      in (e\<lparr>en_store := en_store e @ [new_slot], en_subscribers := en_subscribers e @ [slot]\<rparr>, slot))"

definition RemoveSubscriber :: "Engine \<Rightarrow> nat \<Rightarrow> Engine" where
  "RemoveSubscriber e slot =
     e\<lparr>en_store := slots_stop [slot] (en_store e),
       en_subscribers := filter (\<lambda>i. i \<noteq> slot) (en_subscribers e)\<rparr>"

definition Latest :: "Engine \<Rightarrow> ConsolidatedBook option" where
  "Latest e = en_latest e"

section \<open>Applying a batch\<close>

definition apply_update :: "nat \<Rightarrow> Engine \<Rightarrow> FeedUpdate \<Rightarrow> Engine" where
  "apply_update venue e update =
     e\<lparr>en_books := (en_books e)[venue := ApplyFeedUpdate (en_books e ! venue) update],
       en_last_recv_ns := (en_last_recv_ns e)[venue := recv_ts_ns update],
       en_last_exchange_ns :=
         (if exchange_ts_ns update \<noteq> 0 then (en_last_exchange_ns e)[venue := exchange_ts_ns update]
          else en_last_exchange_ns e),
       en_newest_recv_ns := max (en_newest_recv_ns e) (recv_ts_ns update)\<rparr>"

definition engine_Apply :: "Engine \<Rightarrow> FeedBatch \<Rightarrow> Engine option" where
  "engine_Apply e batch =
     (let venue = fb_venue_index batch
      in if venue < length (en_books e) then Some (foldl (apply_update venue) e (fb_updates batch)) else None)"

section \<open>Publishing\<close>

definition staleness_ns :: "EngineConfig \<Rightarrow> i64" where
  "staleness_ns config = wrap64 (ec_staleness_timeout_ms config * 1000000)"

definition venue_contributes :: "Engine \<Rightarrow> VenueState list \<Rightarrow> i64 \<Rightarrow> nat \<Rightarrow> bool" where
  "venue_contributes e states now_steady i =
     (let live = (states ! i = kLive);
          fresh = (en_last_recv_ns e ! i \<noteq> 0 \<and>
                   wrap64 (now_steady - en_last_recv_ns e ! i) < staleness_ns (en_config e))
      in live \<and> fresh)"

definition venue_clock :: "Engine \<Rightarrow> nat \<Rightarrow> VenueClockInfo" where
  "venue_clock e i =
     \<lparr>vc_name = vf_name (en_venues e ! i), vc_last_recv_ts_ns = en_last_recv_ns e ! i,
      vc_last_exchange_ts_ns = en_last_exchange_ns e ! i,
      vc_bid_levels = length (sb_levels (vb_bids (en_books e ! i))),
      vc_ask_levels = length (sb_levels (vb_asks (en_books e ! i))),
      vc_best_bid = BestPx (vb_bids (en_books e ! i)), vc_best_ask = BestPx (vb_asks (en_books e ! i))\<rparr>"

fun select_venues ::
  "Engine \<Rightarrow> VenueState list \<Rightarrow> i64 \<Rightarrow> nat list \<Rightarrow> ConsolidatedBook \<times> VenueSideInput list \<times> VenueSideInput list
     \<Rightarrow> ConsolidatedBook \<times> VenueSideInput list \<times> VenueSideInput list" where
  "select_venues e states now_steady [] acc = acc"
| "select_venues e states now_steady (i # is) (book, bid_inputs, ask_inputs) =
     (let name = vf_name (en_venues e ! i);
          (book1, bid_inputs1, ask_inputs1) =
            (if venue_contributes e states now_steady i then
               (book\<lparr>cb_contributing := cb_contributing book @ [name]\<rparr>,
                bid_inputs @ [\<lparr>venue_index = i, in_levels = sb_levels (vb_bids (en_books e ! i))\<rparr>],
                ask_inputs @ [\<lparr>venue_index = i, in_levels = sb_levels (vb_asks (en_books e ! i))\<rparr>])
             else (book\<lparr>cb_stale := cb_stale book @ [name]\<rparr>, bid_inputs, ask_inputs));
          book2 = book1\<lparr>cb_clocks := cb_clocks book1 @ [venue_clock e i]\<rparr>
      in select_venues e states now_steady is (book2, bid_inputs1, ask_inputs1))"

definition SelectContributingVenues ::
  "Engine \<Rightarrow> VenueState list \<Rightarrow> i64 \<Rightarrow> ConsolidatedBook \<Rightarrow> ConsolidatedBook \<times> VenueSideInput list \<times> VenueSideInput list" where
  "SelectContributingVenues e states now_steady book =
     select_venues e states now_steady [0..<length (en_venues e)] (book, [], [])"

definition bid_touches :: "Engine \<Rightarrow> Px \<Rightarrow> VenueSideInput list \<Rightarrow> VenueTouch list" where
  "bid_touches e best inputs =
     map (\<lambda>input. \<lparr>vt_venue = vf_name (en_venues e ! venue_index input),
                   vt_qty = BestQty (vb_bids (en_books e ! venue_index input))\<rparr>)
       (filter (\<lambda>input. best \<noteq> 0 \<and> BestPx (vb_bids (en_books e ! venue_index input)) = best) inputs)"

definition ask_touches :: "Engine \<Rightarrow> Px \<Rightarrow> VenueSideInput list \<Rightarrow> VenueTouch list" where
  "ask_touches e best inputs =
     map (\<lambda>input. \<lparr>vt_venue = vf_name (en_venues e ! venue_index input),
                   vt_qty = BestQty (vb_asks (en_books e ! venue_index input))\<rparr>)
       (filter (\<lambda>input. best \<noteq> 0 \<and> BestPx (vb_asks (en_books e ! venue_index input)) = best) inputs)"

definition RecordLatency :: "i64 \<Rightarrow> Engine \<Rightarrow> Engine" where
  "RecordLatency nanos e =
     e\<lparr>en_latency_samples := (en_latency_samples e)[en_latency_cursor e := nanos],
       en_latency_cursor := (en_latency_cursor e + 1) mod length (en_latency_samples e),
       en_latency_max := max (en_latency_max e) nanos,
       en_latency_count := en_latency_count e + 1\<rparr>"

definition publish_slots :: "ConsolidatedBook \<Rightarrow> nat list \<Rightarrow> BookSlot list \<Rightarrow> BookSlot list" where
  "publish_slots book ids store =
     foldl (\<lambda>st i. st[i := fst (slot_publish (st ! i) (Some book))]) store ids"

definition publish_limits :: "EngineConfig \<Rightarrow> MergeLimits" where
  "publish_limits config =
     default_limits\<lparr>max_levels := ec_max_publish_levels config,
                    max_bps_from_touch_e8 := ec_max_publish_bps config * kScale\<rparr>"

text \<open>The book that \<^verbatim>\<open>Publish\<close> builds, before it is handed out.\<close>

definition build_book :: "Engine \<Rightarrow> VenueState list \<Rightarrow> i64 \<Rightarrow> i64 \<Rightarrow> ConsolidatedBook option" where
  "build_book e states now_steady now_wall =
     (let book0 = empty_consolidated
            \<lparr>cb_instrument := ec_instrument (en_config e), cb_sequence := en_published e + 1,
             cb_publish_ts_ns := now_wall, cb_ingest_recv_ts_ns := en_newest_recv_ns e\<rparr>;
          (book1, bid_inputs, ask_inputs) = SelectContributingVenues e states now_steady book0;
          limits = publish_limits (en_config e)
      in case MergeSide True bid_inputs limits of
           None \<Rightarrow> None
         | Some (bids, bids_trunc) \<Rightarrow>
             (case MergeSide False ask_inputs limits of
                None \<Rightarrow> None
              | Some (asks, asks_trunc) \<Rightarrow>
                  (let best_bid = (case bids of [] \<Rightarrow> 0 | l # _ \<Rightarrow> mpx l);
                       best_ask = (case asks of [] \<Rightarrow> 0 | l # _ \<Rightarrow> mpx l)
                   in Some (book1\<lparr>cb_bids := bids, cb_bids_truncated := bids_trunc,
                                  cb_asks := asks, cb_asks_truncated := asks_trunc,
                                  cb_bid_touch := bid_touches e best_bid bid_inputs,
                                  cb_ask_touch := ask_touches e best_ask ask_inputs\<rparr>))))"

definition engine_Publish :: "VenueState list \<Rightarrow> i64 \<Rightarrow> i64 \<Rightarrow> Engine \<Rightarrow> Engine option" where
  "engine_Publish states now_steady now_wall e =
     (case build_book e states now_steady now_wall of
        None \<Rightarrow> None
      | Some book \<Rightarrow>
          (let e1 = e\<lparr>en_published := en_published e + 1\<rparr>;
               e2 = (if en_newest_recv_ns e1 \<noteq> 0
                     then RecordLatency (wrap64 (now_steady - en_newest_recv_ns e1)) e1 else e1)
           in Some (e2\<lparr>en_latest := Some book,
                       en_store := publish_slots book (en_subscribers e2) (en_store e2)\<rparr>)))"

section \<open>The loop\<close>

text \<open>
  One venue's drain: pop and apply while the pass has batches left. Then one pass of the loop, with
  the time of each clock reading as an argument; \<open>Idle\<close> is the pass that only sleeps.
\<close>

fun drain_ring :: "(FeedBatch \<Rightarrow> FeedBatch) \<Rightarrow> nat \<Rightarrow> FeedRing \<Rightarrow> Engine \<Rightarrow> (nat \<times> FeedRing \<times> Engine) option" where
  "drain_ring moved 0 ring e = Some (0, ring, e)"
| "drain_ring moved (Suc left) ring e =
     (case Pop moved ring of
        (ring', None) \<Rightarrow> Some (Suc left, ring', e)
      | (ring', Some batch) \<Rightarrow>
          (case engine_Apply e batch of None \<Rightarrow> None | Some e' \<Rightarrow> drain_ring moved left ring' e'))"

fun drain_rings ::
  "(FeedBatch \<Rightarrow> FeedBatch) \<Rightarrow> nat \<Rightarrow> FeedRing list \<Rightarrow> Engine \<Rightarrow> (nat \<times> FeedRing list \<times> Engine) option" where
  "drain_rings moved left [] e = Some (left, [], e)"
| "drain_rings moved left (ring # rings) e =
     (case drain_ring moved left ring e of
        None \<Rightarrow> None
      | Some (left1, ring1, e1) \<Rightarrow>
          (case drain_rings moved left1 rings e1 of
             None \<Rightarrow> None
           | Some (left2, rings2, e2) \<Rightarrow> Some (left2, ring1 # rings2, e2)))"

datatype PassOutcome = Published | Heartbeat | Idle

definition engine_pass ::
  "(FeedBatch \<Rightarrow> FeedBatch) \<Rightarrow> VenueState list \<Rightarrow> i64 \<Rightarrow> i64 \<Rightarrow> i64 \<Rightarrow> FeedRing list \<Rightarrow> Engine
     \<Rightarrow> (FeedRing list \<times> Engine \<times> PassOutcome) option" where
  "engine_pass moved states now now_steady now_wall rings e =
     (case drain_rings moved kMaxBatchesPerPass rings e of
        None \<Rightarrow> None
      | Some (left, rings', e1) \<Rightarrow>
          if left < kMaxBatchesPerPass then
            map_option (\<lambda>e2. (rings', e2\<lparr>en_last_publish := now\<rparr>, Published))
              (engine_Publish states now_steady now_wall e1)
          else if now - en_last_publish e1 \<ge> ec_heartbeat_interval_ms (en_config e1) * 1000000 then
            map_option (\<lambda>e2. (rings', e2\<lparr>en_last_publish := now\<rparr>, Heartbeat))
              (engine_Publish states now_steady now_wall e1)
          else Some (rings', e1, Idle))"

text \<open>Percentiles of the retained samples.\<close>

definition Latency :: "Engine \<Rightarrow> LatencySummary" where
  "Latency e =
     (let summary = \<lparr>ls_p50_ns = 0, ls_p99_ns = 0, ls_max_ns = en_latency_max e, ls_count = en_latency_count e\<rparr>
      in if en_latency_count e = 0 then summary
         else let filled = min (unat (en_latency_count e)) (length (en_latency_samples e));
                  sorted = sort (take filled (en_latency_samples e))
              in summary\<lparr>ls_p50_ns := sorted ! (filled div 2),
                         ls_p99_ns := sorted ! (min (filled - 1) (filled * 99 div 100))\<rparr>)"


section \<open>Well-formed engines\<close>

definition engine_ok :: "Engine \<Rightarrow> bool" where
  "engine_ok e \<longleftrightarrow>
     length (en_venues e) \<le> kMaxVenues \<and> length (en_books e) = length (en_venues e) \<and>
     length (en_last_recv_ns e) = length (en_venues e) \<and> length (en_last_exchange_ns e) = length (en_venues e) \<and>
     (\<forall>b\<in>set (en_books e). book_ok b) \<and>
     distinct (en_subscribers e) \<and> (\<forall>i\<in>set (en_subscribers e). i < length (en_store e)) \<and>
     length (en_latency_samples e) = kLatencySamples \<and> en_latency_cursor e < kLatencySamples"

definition batch_ok :: "nat \<Rightarrow> FeedBatch \<Rightarrow> bool" where
  "batch_ok n b \<longleftrightarrow> fb_venue_index b < n \<and> list_all update_ok (fb_updates b)"

lemma new_engine_ok: "length venues \<le> kMaxVenues \<Longrightarrow> engine_ok (new_engine config venues)"
  by (simp add: engine_ok_def new_engine_def kLatencySamples_def)

lemma engine_ok_book: "engine_ok e \<Longrightarrow> i < length (en_venues e) \<Longrightarrow> book_ok (en_books e ! i)"
  by (simp add: engine_ok_def)

lemma book_ok_best_first:
  "book_ok b \<Longrightarrow> best_first True (sb_levels (vb_bids b)) \<and> best_first False (sb_levels (vb_asks b))"
  by (simp add: book_ok_def Invariant_iff)

lemma apply_update_ok:
  assumes "engine_ok e" "venue < length (en_venues e)" "update_ok u"
  shows "engine_ok (apply_update venue e u)"
proof -
  have "book_ok (ApplyFeedUpdate (en_books e ! venue) u)"
    using ApplyFeedUpdate_refines [OF engine_ok_book [OF assms(1,2)] assms(3)] by simp
  with assms(1) show ?thesis
    by (auto simp: engine_ok_def apply_update_def dest!: set_update_subset_insert [THEN subsetD])
qed

lemma apply_update_frame [simp]:
  "en_venues (apply_update venue e u) = en_venues e" "en_config (apply_update venue e u) = en_config e"
  "en_subscribers (apply_update venue e u) = en_subscribers e" "en_store (apply_update venue e u) = en_store e"
  "en_published (apply_update venue e u) = en_published e" "en_last_publish (apply_update venue e u) = en_last_publish e"
  by (simp_all add: apply_update_def)

lemma apply_updates_ok:
  "engine_ok e \<Longrightarrow> venue < length (en_venues e) \<Longrightarrow> list_all update_ok us \<Longrightarrow>
     engine_ok (foldl (apply_update venue) e us) \<and> en_venues (foldl (apply_update venue) e us) = en_venues e \<and>
     en_config (foldl (apply_update venue) e us) = en_config e \<and>
     en_last_publish (foldl (apply_update venue) e us) = en_last_publish e"
proof (induction us arbitrary: e)
  case (Cons u us)
  from Cons.prems Cons.IH [OF apply_update_ok, of e venue u] show ?case by simp
qed simp

text \<open>Only the batch's own venue changes, by its updates in order.\<close>

lemma apply_updates_books:
  "venue < length (en_books e) \<Longrightarrow>
     en_books (foldl (apply_update venue) e us) =
     (en_books e)[venue := foldl ApplyFeedUpdate (en_books e ! venue) us]"
proof (induction us arbitrary: e)
  case (Cons u us)
  from Cons.prems Cons.IH [of "apply_update venue e u"] show ?case by (simp add: apply_update_def)
qed simp

lemma apply_updates_recv:
  "j \<noteq> venue \<Longrightarrow> en_last_recv_ns (foldl (apply_update venue) e us) ! j = en_last_recv_ns e ! j"
  by (induction us arbitrary: e) (simp_all add: apply_update_def)

lemma engine_Apply_ok:
  assumes "engine_ok e" "batch_ok (length (en_venues e)) b"
  obtains e' where "engine_Apply e b = Some e'" "engine_ok e'" "en_venues e' = en_venues e"
    "en_config e' = en_config e" "en_last_publish e' = en_last_publish e"
    "en_books e' = (en_books e)[fb_venue_index b := foldl ApplyFeedUpdate (en_books e ! fb_venue_index b) (fb_updates b)]"
    "\<And>j. j \<noteq> fb_venue_index b \<Longrightarrow> en_last_recv_ns e' ! j = en_last_recv_ns e ! j"
proof -
  have i: "fb_venue_index b < length (en_venues e)" "fb_venue_index b < length (en_books e)"
    "list_all update_ok (fb_updates b)" using assms by (auto simp: batch_ok_def engine_ok_def)
  let ?e = "foldl (apply_update (fb_venue_index b)) e (fb_updates b)"
  show ?thesis
    by (rule that [of ?e]) (use i apply_updates_ok [OF assms(1) i(1,3)] apply_updates_books [OF i(2), of "fb_updates b"]
        in \<open>simp_all add: engine_Apply_def Let_def apply_updates_recv\<close>)
qed

section \<open>Selection\<close>

lemma select_venues_spec:
  fixes e states now_steady
  defines "c \<equiv> venue_contributes e states now_steady" and "nm \<equiv> (\<lambda>i. vf_name (en_venues e ! i))"
  shows "select_venues e states now_steady is (book, bi, ai) =
     (book\<lparr>cb_contributing := cb_contributing book @ map nm (filter c is),
           cb_stale := cb_stale book @ map nm (filter (\<lambda>i. \<not> c i) is),
           cb_clocks := cb_clocks book @ map (venue_clock e) is\<rparr>,
      bi @ map (\<lambda>i. \<lparr>venue_index = i, in_levels = sb_levels (vb_bids (en_books e ! i))\<rparr>) (filter c is),
      ai @ map (\<lambda>i. \<lparr>venue_index = i, in_levels = sb_levels (vb_asks (en_books e ! i))\<rparr>) (filter c is))"
  by (induction "is" arbitrary: book bi ai) (simp_all add: Let_def c_def nm_def)

definition chosen :: "Engine \<Rightarrow> VenueState list \<Rightarrow> i64 \<Rightarrow> nat list" where
  "chosen e states now_steady = filter (venue_contributes e states now_steady) [0..<length (en_venues e)]"

definition chosen_bids :: "Engine \<Rightarrow> VenueState list \<Rightarrow> i64 \<Rightarrow> Level list list" where
  "chosen_bids e states now_steady = map (\<lambda>i. sb_levels (vb_bids (en_books e ! i))) (chosen e states now_steady)"

definition chosen_asks :: "Engine \<Rightarrow> VenueState list \<Rightarrow> i64 \<Rightarrow> Level list list" where
  "chosen_asks e states now_steady = map (\<lambda>i. sb_levels (vb_asks (en_books e ! i))) (chosen e states now_steady)"

lemma length_chosen: "length (chosen e states now_steady) \<le> length (en_venues e)"
  unfolding chosen_def by (rule order_trans [OF length_filter_le]) simp

lemma build_book_spec:
  fixes e states now_steady now_wall
  assumes "engine_ok e"
  defines "LB \<equiv> full_ladder True (chosen_bids e states now_steady)"
    and "LA \<equiv> full_ladder False (chosen_asks e states now_steady)"
    and "lim \<equiv> publish_limits (en_config e)"
  obtains book where "build_book e states now_steady now_wall = Some book"
    "cb_sequence book = en_published e + 1" "cb_instrument book = ec_instrument (en_config e)"
    "cb_contributing book = map (\<lambda>i. vf_name (en_venues e ! i)) (chosen e states now_steady)"
    "cb_stale book = map (\<lambda>i. vf_name (en_venues e ! i))
       (filter (\<lambda>i. \<not> venue_contributes e states now_steady i) [0..<length (en_venues e)])"
    "cb_clocks book = map (venue_clock e) [0..<length (en_venues e)]"
    "cb_bids book = publish_cut True lim 0 0 None LB"
    "cb_bids_truncated book = (length (cb_bids book) < length LB)"
    "cb_asks book = publish_cut False lim 0 0 None LA"
    "cb_asks_truncated book = (length (cb_asks book) < length LA)"
    "cb_bid_touch book = bid_touches e (case cb_bids book of [] \<Rightarrow> 0 | l # _ \<Rightarrow> mpx l)
       (map (\<lambda>i. \<lparr>venue_index = i, in_levels = sb_levels (vb_bids (en_books e ! i))\<rparr>) (chosen e states now_steady))"
    "cb_ask_touch book = ask_touches e (case cb_asks book of [] \<Rightarrow> 0 | l # _ \<Rightarrow> mpx l)
       (map (\<lambda>i. \<lparr>venue_index = i, in_levels = sb_levels (vb_asks (en_books e ! i))\<rparr>) (chosen e states now_steady))"
proof -
  let ?C = "chosen e states now_steady"
  let ?bi = "map (\<lambda>i. \<lparr>venue_index = i, in_levels = sb_levels (vb_bids (en_books e ! i))\<rparr>) ?C"
  let ?ai = "map (\<lambda>i. \<lparr>venue_index = i, in_levels = sb_levels (vb_asks (en_books e ! i))\<rparr>) ?C"
  have "length ?C \<le> kMaxVenues" using length_chosen assms(1) by (metis engine_ok_def order_trans)
  moreover have "best_first True (sb_levels (vb_bids (en_books e ! i)))" "best_first False (sb_levels (vb_asks (en_books e ! i)))"
    if "i \<in> set ?C" for i
    using that book_ok_best_first [OF engine_ok_book [OF assms(1)]] by (auto simp: chosen_def)
  ultimately have merge: "MergeSide True ?bi lim = Some (publish_cut True lim 0 0 None LB,
      length (publish_cut True lim 0 0 None LB) < length LB)"
    "MergeSide False ?ai lim = Some (publish_cut False lim 0 0 None LA,
      length (publish_cut False lim 0 0 None LA) < length LA)"
    using MergeSide_cut [of ?bi True lim] MergeSide_cut [of ?ai False lim]
    by (simp_all add: Let_def comp_def LB_def LA_def chosen_bids_def chosen_asks_def)
  have select: "SelectContributingVenues e states now_steady book =
     (book\<lparr>cb_contributing := cb_contributing book @ map (\<lambda>i. vf_name (en_venues e ! i)) ?C,
           cb_stale := cb_stale book @ map (\<lambda>i. vf_name (en_venues e ! i))
             (filter (\<lambda>i. \<not> venue_contributes e states now_steady i) [0..<length (en_venues e)]),
           cb_clocks := cb_clocks book @ map (venue_clock e) [0..<length (en_venues e)]\<rparr>, ?bi, ?ai)" for book
    by (simp add: SelectContributingVenues_def select_venues_spec chosen_def)
  note build = build_book_def [of e states now_steady now_wall, folded lim_def,
      unfolded select Let_def prod.case merge option.case]
  show ?thesis
    by (rule that [OF build]) (simp_all add: empty_consolidated_def)
qed

section \<open>Delivery\<close>

lemma length_foldl_update: "length (foldl (\<lambda>st i. st[i := f (st ! i)]) store ids) = length store"
  by (induction ids arbitrary: store) simp_all

lemma list_all_foldl_update:
  assumes "\<And>x. P x \<Longrightarrow> P (f x)" "list_all P store"
  shows "list_all P (foldl (\<lambda>st i. st[i := f (st ! i)]) store ids)"
  using assms(2)
proof (induction ids arbitrary: store)
  case (Cons i ids)
  have "list_all P (store[i := f (store ! i)])"
    using Cons.prems assms(1) by (cases "i < length store") (auto simp: list_all_length nth_list_update)
  then show ?case using Cons.IH by simp
qed simp

lemma nth_foldl_update:
  "distinct ids \<or> (\<forall>x. f (f x) = f x) \<Longrightarrow> j < length store \<Longrightarrow>
     foldl (\<lambda>st i. st[i := f (st ! i)]) store ids ! j = (if j \<in> set ids then f (store ! j) else store ! j)"
proof (induction ids arbitrary: store)
  case (Cons i ids)
  from Cons.prems Cons.IH [of "store[i := f (store ! i)]"] show ?case by (cases "i = j") auto
qed simp

lemma publish_slots_spec:
  "length (publish_slots book ids store) = length store"
  "distinct ids \<Longrightarrow> j < length store \<Longrightarrow> publish_slots book ids store ! j =
     (if j \<in> set ids then fst (slot_publish (store ! j) (Some book)) else store ! j)"
  unfolding publish_slots_def
  using length_foldl_update [of "\<lambda>s. fst (slot_publish s (Some book))"]
    nth_foldl_update [of ids "\<lambda>s. fst (slot_publish s (Some book))"] by simp_all

lemma slot_stop_idem: "slot_stop (slot_stop s) = slot_stop s"
  by (simp add: slot_stop_def)

lemma slots_stop_spec:
  "length (slots_stop ids store) = length store"
  "j < length store \<Longrightarrow> slots_stop ids store ! j = (if j \<in> set ids then slot_stop (store ! j) else store ! j)"
  unfolding slots_stop_def
  using length_foldl_update [of "slot_stop :: BookSlot \<Rightarrow> BookSlot"]
    nth_foldl_update [of ids "slot_stop :: BookSlot \<Rightarrow> BookSlot"] by (simp_all add: slot_stop_idem)

lemma RecordLatency_ok: "engine_ok e \<Longrightarrow> engine_ok (RecordLatency n e)"
  by (simp add: engine_ok_def RecordLatency_def kLatencySamples_def)

lemma RecordLatency_frame [simp]:
  "en_published (RecordLatency n e) = en_published e" "en_subscribers (RecordLatency n e) = en_subscribers e"
  "en_store (RecordLatency n e) = en_store e" "en_books (RecordLatency n e) = en_books e"
  "en_venues (RecordLatency n e) = en_venues e" "en_config (RecordLatency n e) = en_config e"
  "en_last_recv_ns (RecordLatency n e) = en_last_recv_ns e"
  by (simp_all add: RecordLatency_def)

lemma hand_out_ok:
  "engine_ok e \<Longrightarrow> engine_ok (e\<lparr>en_latest := x, en_store := publish_slots book (en_subscribers e) (en_store e)\<rparr>)"
  by (simp add: engine_ok_def publish_slots_spec(1))

lemma engine_Publish_ok:
  assumes ok: "engine_ok e" and book: "build_book e states now_steady now_wall = Some book"
  obtains e' where "engine_Publish states now_steady now_wall e = Some e'" "engine_ok e'"
    "Latest e' = Some book" "en_published e' = en_published e + 1" "en_books e' = en_books e"
    "en_venues e' = en_venues e" "en_config e' = en_config e" "en_subscribers e' = en_subscribers e"
    "en_store e' = publish_slots book (en_subscribers e) (en_store e)" "en_last_recv_ns e' = en_last_recv_ns e"
proof -
  let ?e1 = "e\<lparr>en_published := en_published e + 1\<rparr>"
  let ?e2 = "if en_newest_recv_ns ?e1 \<noteq> 0 then RecordLatency (wrap64 (now_steady - en_newest_recv_ns ?e1)) ?e1 else ?e1"
  let ?e3 = "?e2\<lparr>en_latest := Some book, en_store := publish_slots book (en_subscribers ?e2) (en_store ?e2)\<rparr>"
  have "engine_ok ?e1" using ok by (simp add: engine_ok_def)
  then have e2: "engine_ok ?e2" by (simp add: RecordLatency_ok)
  then have "engine_ok ?e3" by (rule hand_out_ok)
  moreover have "engine_Publish states now_steady now_wall e = Some ?e3"
    by (simp only: engine_Publish_def book option.case Let_def)
  ultimately show ?thesis by (intro that [of ?e3]) (simp_all add: Latest_def)
qed

text \<open>The books that the engine holds for others: the latest one, and what waits in the subscribers' slots.\<close>

definition engine_holds :: "(ConsolidatedBook \<Rightarrow> bool) \<Rightarrow> Engine \<Rightarrow> bool" where
  "engine_holds Q e \<longleftrightarrow> pred_option Q (Latest e) \<and> list_all (\<lambda>slot. pred_option Q (cs_pending slot)) (en_store e)"

lemma holds_subscribers:
  assumes "engine_holds Q e"
  shows "engine_holds Q (fst (AddSubscriber e))" "engine_holds Q (RemoveSubscriber e slot)" "engine_holds Q (engine_Stop e)"
proof -
  have "list_all (\<lambda>slot. pred_option Q (cs_pending slot)) (slots_stop ids (en_store e))" for ids
    unfolding slots_stop_def
    by (rule list_all_foldl_update) (use assms in \<open>simp_all add: engine_holds_def slot_stop_def\<close>)
  with assms show "engine_holds Q (fst (AddSubscriber e))" "engine_holds Q (RemoveSubscriber e slot)" "engine_holds Q (engine_Stop e)"
    by (simp_all add: engine_holds_def AddSubscriber_def RemoveSubscriber_def engine_Stop_def Latest_def Let_def new_slot_def)
qed

lemma holds_Publish:
  assumes "engine_holds Q e" "Latest e' = Some book" "en_store e' = publish_slots book ids (en_store e)" "Q book"
  shows "engine_holds Q e'"
proof -
  have "list_all (\<lambda>slot. pred_option Q (cs_pending slot)) (publish_slots book ids (en_store e))"
    unfolding publish_slots_def
    by (rule list_all_foldl_update) (use assms(1,4) in \<open>simp_all add: engine_holds_def slot_publish_def\<close>)
  with assms(2-4) show ?thesis by (simp add: engine_holds_def)
qed

lemma holds_Apply: "engine_Apply e batch = Some e' \<Longrightarrow> engine_holds Q e \<Longrightarrow> engine_holds Q e'"
proof -
  have "en_latest (foldl (apply_update v) e us) = en_latest e \<and> en_store (foldl (apply_update v) e us) = en_store e" for v us
    by (induction us arbitrary: e) (simp_all add: apply_update_def)
  then show "engine_Apply e batch = Some e' \<Longrightarrow> engine_holds Q e \<Longrightarrow> engine_holds Q e'"
    by (auto simp: engine_Apply_def engine_holds_def Latest_def Let_def split: if_splits)
qed

section \<open>Draining\<close>

definition apply_batches :: "Engine \<Rightarrow> FeedBatch list \<Rightarrow> Engine option" where
  "apply_batches e bs = foldl (\<lambda>eo b. Option.bind eo (\<lambda>e. engine_Apply e b)) (Some e) bs"

lemma apply_batches_None: "foldl (\<lambda>eo b. Option.bind eo (\<lambda>e. engine_Apply e b)) None bs = None"
  by (induction bs) simp_all

lemma apply_batches_simps [simp]:
  "apply_batches e [] = Some e"
  "apply_batches e (b # bs) = (case engine_Apply e b of None \<Rightarrow> None | Some e' \<Rightarrow> apply_batches e' bs)"
  by (simp_all add: apply_batches_def apply_batches_None split: option.splits)

lemma apply_batches_ok:
  assumes "engine_ok e" "list_all (batch_ok (length (en_venues e))) bs"
  shows "\<exists>e'. apply_batches e bs = Some e' \<and> engine_ok e' \<and> en_venues e' = en_venues e \<and>
           en_config e' = en_config e \<and> en_last_publish e' = en_last_publish e"
  using assms
proof (induction bs arbitrary: e)
  case (Cons b bs)
  then have "batch_ok (length (en_venues e)) b" by simp
  from Cons.prems(1) this obtain e1 where "engine_Apply e b = Some e1" "engine_ok e1" "en_venues e1 = en_venues e"
    "en_config e1 = en_config e" "en_last_publish e1 = en_last_publish e" by (rule engine_Apply_ok)
  with Cons.IH [of e1] Cons.prems(2) show ?case by auto
qed simp

text \<open>A drain applies the first batches of the ring, as many as the pass allows, and leaves the rest.\<close>

lemma drain_ring_spec:
  assumes "ring_ok ring"
  shows "\<exists>ring'. ring_ok ring' \<and> ring_contents ring' = drop left (ring_contents ring) \<and>
           drain_ring moved left ring e =
             map_option (\<lambda>e'. (left - length (ring_contents ring), ring', e'))
               (apply_batches e (take left (ring_contents ring)))"
  using assms
proof (induction left arbitrary: ring e)
  case 0
  then show ?case by auto
next
  case (Suc left)
  show ?case
  proof (cases "ring_contents ring")
    case Nil
    with ring.pop_empty [OF Suc.prems] Suc.prems show ?thesis by auto
  next
    case (Cons b bs)
    obtain ring1 where pop: "Pop moved ring = (ring1, Some b)" "ring_contents ring1 = bs"
      using ring.pop_head [OF Suc.prems Cons, of moved] by (cases "Pop moved ring") auto
    have ok1: "ring_ok ring1" using ring.pop_ok [OF Suc.prems, of moved] pop(1) by simp
    show ?thesis
    proof (cases "engine_Apply e b")
      case None
      with Suc.IH [OF ok1, of e] pop Cons show ?thesis by auto
    next
      case (Some e1)
      with Suc.IH [OF ok1, of e1] pop Cons show ?thesis by auto
    qed
  qed
qed

lemma apply_batches_append:
  "apply_batches e (xs @ ys) = (case apply_batches e xs of None \<Rightarrow> None | Some e' \<Rightarrow> apply_batches e' ys)"
  by (induction xs arbitrary: e) (simp_all split: option.splits)

lemma apply_batches_books:
  assumes "engine_ok e" "list_all (batch_ok (length (en_venues e))) bs" "apply_batches e bs = Some e'"
    and "i < length (en_venues e)"
  shows "en_books e' ! i = foldl ApplyFeedUpdate (en_books e ! i)
           (concat (map fb_updates (filter (\<lambda>b. fb_venue_index b = i) bs)))"
  using assms
proof (induction bs arbitrary: e)
  case (Cons b bs)
  then have "batch_ok (length (en_venues e)) b" by simp
  from Cons.prems(1) this obtain e1 where e1: "engine_Apply e b = Some e1" "engine_ok e1" "en_venues e1 = en_venues e"
    "en_books e1 = (en_books e)[fb_venue_index b := foldl ApplyFeedUpdate (en_books e ! fb_venue_index b) (fb_updates b)]"
    by (rule engine_Apply_ok)
  have "i < length (en_books e)" using Cons.prems(1,4) by (simp add: engine_ok_def)
  with Cons.IH [OF e1(2)] Cons.prems e1 show ?case by (auto simp: nth_list_update)
qed simp

definition rings_ok :: "nat \<Rightarrow> FeedRing list \<Rightarrow> bool" where
  "rings_ok n rings \<longleftrightarrow> (\<forall>r\<in>set rings. ring_ok r \<and> list_all (batch_ok n) (ring_contents r))"

lemma drain_rings_spec:
  assumes "engine_ok e" "rings_ok (length (en_venues e)) rings"
  shows "\<exists>left' rings' e' bss. drain_rings moved left rings e = Some (left', rings', e') \<and>
           engine_ok e' \<and> en_venues e' = en_venues e \<and> en_config e' = en_config e \<and>
           en_last_publish e' = en_last_publish e \<and>
           list_all2 (\<lambda>r (bs, r'). ring_ok r' \<and> ring_contents r = bs @ ring_contents r') rings (zip bss rings') \<and>
           length bss = length rings' \<and> left' + length (concat bss) = left \<and> apply_batches e (concat bss) = Some e' \<and>
           (left' > 0 \<longrightarrow> (\<forall>r\<in>set rings'. ring_contents r = []))"
  using assms
proof (induction rings arbitrary: left e)
  case Nil
  then show ?case by auto
next
  case (Cons r rings)
  have r: "ring_ok r" "list_all (batch_ok (length (en_venues e))) (ring_contents r)" using Cons.prems(2) by (auto simp: rings_ok_def)
  obtain r1 where r1: "ring_ok r1" "ring_contents r1 = drop left (ring_contents r)"
    "drain_ring moved left r e = map_option (\<lambda>e'. (left - length (ring_contents r), r1, e')) (apply_batches e (take left (ring_contents r)))"
    using drain_ring_spec [OF r(1)] by blast
  let ?bs = "take left (ring_contents r)"
  have "list_all (batch_ok (length (en_venues e))) ?bs" using r(2) by (auto simp: list_all_iff dest: in_set_takeD)
  with apply_batches_ok [OF Cons.prems(1)] obtain e1 where e1: "apply_batches e ?bs = Some e1" "engine_ok e1"
    "en_venues e1 = en_venues e" "en_config e1 = en_config e" "en_last_publish e1 = en_last_publish e" by blast
  have "rings_ok (length (en_venues e1)) rings" using Cons.prems(2) e1(3) by (simp add: rings_ok_def)
  from Cons.IH [OF e1(2) this, of "left - length (ring_contents r)"] obtain left' rings' e' bss where
    IH: "drain_rings moved (left - length (ring_contents r)) rings e1 = Some (left', rings', e')"
    "engine_ok e'" "en_venues e' = en_venues e1" "en_config e' = en_config e1" "en_last_publish e' = en_last_publish e1"
    "list_all2 (\<lambda>r (bs, r'). ring_ok r' \<and> ring_contents r = bs @ ring_contents r') rings (zip bss rings')"
    "length bss = length rings'" "left' + length (concat bss) = left - length (ring_contents r)"
    "apply_batches e1 (concat bss) = Some e'" "left' > 0 \<longrightarrow> (\<forall>r\<in>set rings'. ring_contents r = [])" by blast
  show ?case
    by (rule exI [of _ left'], rule exI [of _ "r1 # rings'"], rule exI [of _ e'], rule exI [of _ "?bs # bss"])
      (use IH e1 r1 in \<open>auto simp: apply_batches_append\<close>)
qed

section \<open>Touch attribution\<close>

lemma full_ladder_head:
  assumes "full_ladder d sides = l # ls" "\<forall>s\<in>set sides. best_first d s"
  shows "best_head d sides (mpx l)" "mqty l = wrap64 (sum_list (map (head_qty (mpx l)) sides))"
proof -
  have "\<exists>s\<in>set sides. s \<noteq> []" using assms(1) full_ladder_empty [of d sides] by auto
  then obtain s0 where s0: "s0 \<in> set sides" "s0 \<noteq> []" by blast
  define heads where "heads = {lpx (hd s) |s. s \<in> set sides \<and> s \<noteq> []}"
  have fin: "finite heads" "heads \<noteq> {}" using s0 by (auto simp: heads_def)
  define p where "p = (if d then Max heads else Min heads)"
  have "p \<in> heads" using fin by (simp add: p_def)
  moreover have "\<not> Better d x p" if "x \<in> heads" for x
    using that fin by (cases d) (auto simp: p_def Better_def)
  ultimately have head: "best_head d sides p"
    by (auto simp: best_head_def heads_def at_head_def)
  with full_ladder_step [OF assms(2) head] assms(1)
  show "best_head d sides (mpx l)" "mqty l = wrap64 (sum_list (map (head_qty (mpx l)) sides))" by auto
qed

lemma publish_cut_head:
  "publish_cut d lim 0 0 None ls = l # rest \<Longrightarrow> ls \<noteq> [] \<and> hd ls = l"
  using publish_cut_prefix [of d lim 0 0 None ls] by (cases ls) auto

lemma filter_concat_aligned:
  assumes "\<forall>j<length xss. \<forall>b\<in>set (xss ! j). f b = k + j" "i < length xss"
  shows "filter (\<lambda>b. f b = k + i) (concat xss) = xss ! i"
  using assms
proof (induction xss arbitrary: k i)
  case (Cons xs xss)
  have xs: "\<forall>b\<in>set xs. f b = k" using Cons.prems(1) by force
  have rest: "\<forall>j<length xss. \<forall>b\<in>set (xss ! j). f b = Suc k + j" using Cons.prems(1) by force
  show ?case
  proof (cases i)
    case 0
    have "filter (\<lambda>b. f b = k) (concat xss) = []"
      using rest by (force simp: filter_empty_conv in_set_conv_nth)
    with 0 xs show ?thesis by simp
  next
    case (Suc j)
    then have "filter (\<lambda>b. f b = k + i) xs = []" using xs by (auto simp: filter_empty_conv)
    with Suc Cons.IH [OF rest, of j] Cons.prems(2) show ?thesis by simp
  qed
qed simp

lemma sum_list_mono2:
  "length xs = length ys \<Longrightarrow> (\<And>j. j < length ys \<Longrightarrow> xs ! j \<le> ys ! j) \<Longrightarrow> sum_list xs \<le> sum_list (ys :: nat list)"
proof (induction xs ys rule: list_induct2)
  case (Cons x xs y ys)
  from Cons.prems [of 0] Cons.prems [of "Suc j" for j] Cons.IH show ?case by (auto intro!: add_mono)
qed simp

section \<open>Properties\<close>

text \<open>One pass of the engine loop never leaves the bounds of a vector or trips the merge's
  assertion, keeps the engine well formed (every book strictly best first with positive prices and
  quantities), takes at most 256 batches from the fronts of the rings and loses none; it publishes
  if it took any, and it idles only if every ring is empty and the heartbeat is not due.\<close>

theorem engine_pass_safe:
  assumes "engine_ok e" "rings_ok (length (en_venues e)) rings"
  shows "\<exists>rings' e' outcome bss.
           engine_pass moved states now now_steady now_wall rings e = Some (rings', e', outcome) \<and> engine_ok e' \<and>
           length bss = length rings' \<and> length (concat bss) \<le> kMaxBatchesPerPass \<and>
           list_all2 (\<lambda>r (bs, r'). ring_ok r' \<and> ring_contents r = bs @ ring_contents r') rings (zip bss rings') \<and>
           (outcome = Published \<longleftrightarrow> concat bss \<noteq> []) \<and>
           (outcome = Idle \<longrightarrow> (\<forall>r\<in>set rings'. ring_contents r = []) \<and>
              now - en_last_publish e < ec_heartbeat_interval_ms (en_config e) * 1000000)"
proof -
  obtain left' rings' e1 bss where d: "drain_rings moved kMaxBatchesPerPass rings e = Some (left', rings', e1)"
    "engine_ok e1" "en_config e1 = en_config e" "en_last_publish e1 = en_last_publish e"
    "list_all2 (\<lambda>r (bs, r'). ring_ok r' \<and> ring_contents r = bs @ ring_contents r') rings (zip bss rings')"
    "length bss = length rings'" "left' + length (concat bss) = kMaxBatchesPerPass"
    "left' > 0 \<longrightarrow> (\<forall>r\<in>set rings'. ring_contents r = [])"
    using drain_rings_spec [OF assms, of moved kMaxBatchesPerPass] by blast
  obtain book where "build_book e1 states now_steady now_wall = Some book" using d(2) by (rule build_book_spec)
  from d(2) this obtain e2 where e2: "engine_Publish states now_steady now_wall e1 = Some e2" "engine_ok e2"
    by (rule engine_Publish_ok)
  have ok3: "engine_ok (e2\<lparr>en_last_publish := now\<rparr>)" using e2(2) by (simp add: engine_ok_def)
  have bound: "length (concat bss) \<le> kMaxBatchesPerPass" using d(7) by linarith
  show ?thesis
  proof (cases "left' < kMaxBatchesPerPass")
    case True
    then have "concat bss \<noteq> []" using d(7) by (metis add_0_right less_irrefl list.size(3))
    with True d e2 ok3 bound show ?thesis
      by (intro exI [of _ rings'] exI [of _ "e2\<lparr>en_last_publish := now\<rparr>"] exI [of _ Published] exI [of _ bss])
        (auto simp: engine_pass_def)
  next
    case False
    then have "length (concat bss) = 0" and left: "left' = kMaxBatchesPerPass" using d(7) by linarith+
    then have all: "concat bss = []" "left' = kMaxBatchesPerPass" by (simp_all only: length_0_conv)
    show ?thesis
    proof (cases "now - en_last_publish e \<ge> ec_heartbeat_interval_ms (en_config e) * 1000000")
      case True
      with all d e2 ok3 bound show ?thesis
        by (intro exI [of _ rings'] exI [of _ "e2\<lparr>en_last_publish := now\<rparr>"] exI [of _ Heartbeat] exI [of _ bss])
          (auto simp: engine_pass_def)
    next
      case no: False
      with all d bound show ?thesis
        by (intro exI [of _ rings'] exI [of _ e1] exI [of _ Idle] exI [of _ bss])
          (auto simp: engine_pass_def kMaxBatchesPerPass_def)
    qed
  qed
qed

definition sample_batch :: "nat \<Rightarrow> Px \<Rightarrow> FeedBatch" where
  "sample_batch v px =
     \<lparr>fb_venue_index = v,
      fb_updates = [\<lparr>is_snapshot = True, fu_bids = [\<lparr>lpx = px, lqty = 5\<rparr>], fu_asks = [\<lparr>lpx = px + 10, lqty = 3\<rparr>],
                     exchange_ts_ns = 0, recv_ts_ns = 1000\<rparr>]\<rparr>"

definition sample_ring :: "nat \<Rightarrow> Px \<Rightarrow> FeedRing" where
  "sample_ring v px =
     \<lparr>rg_capacity = 2, rg_mask = 1, rg_slots = [sample_batch v px, sample_batch v px], rg_head = 1, rg_tail = 0\<rparr>"

definition sample_engine :: Engine where
  "sample_engine = new_engine default_engine_config
     [\<lparr>vf_name = ''binance'', vf_venue_symbol = ''BTCUSDT''\<rparr>, \<lparr>vf_name = ''okx'', vf_venue_symbol = ''BTC-USDT''\<rparr>]"

lemma sample_engine_ok: "engine_ok sample_engine"
  unfolding sample_engine_def by (rule new_engine_ok) (simp add: kMaxVenues_def)

lemma sample_ring_ok:
  assumes "0 < px" "v < 2"
  shows "ring_ok (sample_ring v px)" "ring_contents (sample_ring v px) = [sample_batch v px]"
    "batch_ok 2 (sample_batch v px)"
proof -
  have rep: "ring_rep (sample_ring v px) 1 1 0" by (simp add: ring_rep_def sample_ring_def)
  then show "ring_ok (sample_ring v px)" by (auto simp: ring_ok_def)
  show "ring_contents (sample_ring v px) = [sample_batch v px]"
    unfolding ring_contents_rep [OF rep] by (simp add: sample_ring_def)
  show "batch_ok 2 (sample_batch v px)"
    using assms by (simp add: batch_ok_def sample_batch_def update_ok_def valid_level_def)
qed

lemma sample_rings_ok: "rings_ok (length (en_venues sample_engine)) [sample_ring 0 100, sample_ring 1 101]"
  using sample_ring_ok [of 100 0] sample_ring_ok [of 101 1]
  by (simp add: rings_ok_def sample_engine_def new_engine_def numeral_2_eq_2)

theorem engine_pass_safe_witness:
  "\<exists>rings' e' outcome.
     engine_pass (\<lambda>b. b) [kLive, kLive] 5000 5000 7 [sample_ring 0 100, sample_ring 1 101] sample_engine =
       Some (rings', e', outcome) \<and> engine_ok e'"
  using engine_pass_safe [OF sample_engine_ok sample_rings_ok, of "\<lambda>b. b" "[kLive, kLive]" 5000 5000 7] by blast

text \<open>When the rings hold at most 256 batches and every ring only those of its own venue, one
  pass applies everything: afterwards each venue's book is its old book with all the updates that
  were waiting in its ring applied in the order they were pushed.\<close>

theorem engine_pass_books:
  assumes "engine_ok e" "rings_ok (length (en_venues e)) rings" "length rings = length (en_venues e)"
    and "\<forall>i<length rings. \<forall>b\<in>set (ring_contents (rings ! i)). fb_venue_index b = i"
    and "length (concat (map ring_contents rings)) < kMaxBatchesPerPass"
    and "engine_pass moved states now now_steady now_wall rings e = Some (rings', e', outcome)"
    and "i < length rings"
  shows "en_books e' ! i = foldl ApplyFeedUpdate (en_books e ! i)
           (concat (map fb_updates (ring_contents (rings ! i)))) \<and>
         ring_contents (rings' ! i) = []"
proof -
  obtain left' rings1 e1 bss where d: "drain_rings moved kMaxBatchesPerPass rings e = Some (left', rings1, e1)"
    "engine_ok e1"
    "list_all2 (\<lambda>r (bs, r'). ring_ok r' \<and> ring_contents r = bs @ ring_contents r') rings (zip bss rings1)"
    "length bss = length rings1" "left' + length (concat bss) = kMaxBatchesPerPass" "apply_batches e (concat bss) = Some e1"
    "left' > 0 \<longrightarrow> (\<forall>r\<in>set rings1. ring_contents r = [])"
    using drain_rings_spec [OF assms(1,2), of moved kMaxBatchesPerPass] by blast
  have len: "length rings1 = length rings" "length bss = length rings"
    using list_all2_lengthD [OF d(3)] d(4) by auto
  have nth: "ring_contents (rings ! j) = bss ! j @ ring_contents (rings1 ! j)" if "j < length rings" for j
    using list_all2_nthD [OF d(3) that] that len by simp
  have "length (concat bss) \<le> length (concat (map ring_contents rings))"
    using nth len unfolding length_concat
    by (intro sum_list_mono2) auto
  then have "left' > 0" using assms(5) d(5) by linarith
  then have empty: "ring_contents (rings1 ! j) = []" if "j < length rings" for j
    using d(7) that len by auto
  then have bss: "bss = map ring_contents rings" using nth len by (intro nth_equalityI) auto
  have "list_all (batch_ok (length (en_venues e))) (concat bss)"
    using assms(2) by (auto simp: bss rings_ok_def list_all_iff)
  from apply_batches_books [OF assms(1) this d(6)] assms(3,7)
  have "en_books e1 ! i = foldl ApplyFeedUpdate (en_books e ! i)
      (concat (map fb_updates (filter (\<lambda>b. fb_venue_index b = i) (concat bss))))" by simp
  also have "filter (\<lambda>b. fb_venue_index b = i) (concat bss) = ring_contents (rings ! i)"
    using filter_concat_aligned [of bss fb_venue_index 0 i] assms(4,7) len by (simp add: bss)
  finally have books: "en_books e1 ! i = foldl ApplyFeedUpdate (en_books e ! i)
      (concat (map fb_updates (ring_contents (rings ! i))))" .
  obtain book where "build_book e1 states now_steady now_wall = Some book" using d(2) by (rule build_book_spec)
  from d(2) this obtain e2 where e2: "engine_Publish states now_steady now_wall e1 = Some e2" "en_books e2 = en_books e1"
    by (rule engine_Publish_ok)
  have "rings' = rings1 \<and> en_books e' = en_books e1"
    using assms(6) d(1) e2 by (auto simp: engine_pass_def split: if_splits)
  with books empty assms(7) show ?thesis by simp
qed

theorem engine_pass_books_witness:
  "\<exists>rings' e' outcome.
     engine_pass (\<lambda>b. b) [kLive, kLive] 5000 5000 7 [sample_ring 0 100, sample_ring 1 101] sample_engine =
       Some (rings', e', outcome) \<and>
     en_books e' ! 1 = ApplyFeedUpdate empty_book (hd (fb_updates (sample_batch 1 101)))"
proof -
  let ?rings = "[sample_ring 0 100, sample_ring 1 101]"
  let ?pass = "engine_pass (\<lambda>b. b) [kLive, kLive] 5000 5000 7 ?rings sample_engine"
  have "?pass \<noteq> None" by code_simp
  then obtain rings' e' outcome where pass: "?pass = Some (rings', e', outcome)" by auto
  have ring: "ring_contents (sample_ring 0 100) = [sample_batch 0 100]"
    "ring_contents (sample_ring 1 101) = [sample_batch 1 101]" by (rule sample_ring_ok; simp)+
  have own: "\<forall>i<length ?rings. \<forall>b\<in>set (ring_contents (?rings ! i)). fb_venue_index b = i"
    using ring by (simp add: less_Suc_eq sample_batch_def)
  have few: "length (concat (map ring_contents ?rings)) < kMaxBatchesPerPass" using ring by (simp add: kMaxBatchesPerPass_def)
  have size: "length ?rings = length (en_venues sample_engine)" "1 < length ?rings"
    by (simp_all add: sample_engine_def new_engine_def)
  have "en_books sample_engine ! 1 = empty_book" by (simp add: sample_engine_def new_engine_def)
  with engine_pass_books [OF sample_engine_ok sample_rings_ok size(1) own few pass size(2)] ring pass
  show ?thesis by (auto simp: sample_batch_def)
qed



text \<open>Publishing puts the new book into the slot of every subscriber that has not been stopped,
  conflating whatever was still pending there, and touches no other slot.\<close>

theorem engine_Publish_delivers:
  assumes "engine_ok e" "engine_Publish states now_steady now_wall e = Some e'" "j < length (en_store e)"
  shows "en_store e' ! j =
     (if j \<in> set (en_subscribers e) \<and> \<not> cs_stopped (en_store e ! j)
      then (en_store e ! j)\<lparr>cs_pending := Latest e',
             cs_conflated := cs_conflated (en_store e ! j) + (if cs_pending (en_store e ! j) = None then 0 else 1)\<rparr>
      else en_store e ! j)"
proof -
  obtain book where b: "build_book e states now_steady now_wall = Some book" using assms(1) by (rule build_book_spec)
  from assms(1) b obtain e2 where "engine_Publish states now_steady now_wall e = Some e2" "Latest e2 = Some book"
    "en_store e2 = publish_slots book (en_subscribers e) (en_store e)" by (rule engine_Publish_ok)
  moreover have "distinct (en_subscribers e)" using assms(1) by (simp add: engine_ok_def)
  ultimately show ?thesis
    using assms(2,3) publish_slots_spec(2) [of "en_subscribers e" j "en_store e" book]
    by (simp add: slot_publish_def)
qed

theorem engine_Publish_delivers_witness:
  "\<exists>e'. engine_Publish [kLive, kLive] 1500 7 (fst (AddSubscriber sample_engine)) = Some e' \<and>
     cs_pending (en_store e' ! 0) = Latest e'"
proof -
  let ?e = "fst (AddSubscriber sample_engine)"
  have ok: "engine_ok ?e"
    using sample_engine_ok by (simp add: engine_ok_def AddSubscriber_def Let_def sample_engine_def new_engine_def)
  obtain book where b: "build_book ?e [kLive, kLive] 1500 7 = Some book" using ok by (rule build_book_spec)
  from ok b obtain e' where e': "engine_Publish [kLive, kLive] 1500 7 ?e = Some e'" by (rule engine_Publish_ok)
  have "0 < length (en_store ?e)" "0 \<in> set (en_subscribers ?e)" "\<not> cs_stopped (en_store ?e ! 0)" by code_simp+
  with engine_Publish_delivers [OF ok e', of 0] e' show ?thesis by simp
qed

text \<open>Subscribing hands out a slot nobody else has, that is empty, running and served by the next
  publication; unsubscribing stops the slot and takes it off the list; stopping the engine stops
  every subscriber's slot and empties the list; all of them keep the engine well formed.\<close>

theorem engine_subscribers:
  assumes "engine_ok e"
  shows "(let (e', i) = AddSubscriber e
          in engine_ok e' \<and> i \<notin> set (en_subscribers e) \<and> i \<in> set (en_subscribers e') \<and>
             en_store e' ! i = new_slot \<and> take (length (en_store e)) (en_store e') = en_store e) \<and>
         (\<forall>i<length (en_store e). let e' = RemoveSubscriber e i
            in engine_ok e' \<and> set (en_subscribers e') = set (en_subscribers e) - {i} \<and>
               cs_stopped (en_store e' ! i) \<and> (\<forall>j<length (en_store e). j \<noteq> i \<longrightarrow> en_store e' ! j = en_store e ! j)) \<and>
         engine_ok (engine_Stop e) \<and>
         (\<not> en_stopping e \<longrightarrow> en_subscribers (engine_Stop e) = [] \<and>
            (\<forall>i\<in>set (en_subscribers e). cs_stopped (en_store (engine_Stop e) ! i)))"
proof -
  have ids: "\<forall>i\<in>set (en_subscribers e). i < length (en_store e)" using assms by (simp add: engine_ok_def)
  have "engine_ok (fst (AddSubscriber e))" using assms ids by (auto simp: engine_ok_def AddSubscriber_def Let_def)
  moreover have "engine_ok (RemoveSubscriber e i)" for i
    using assms by (auto simp: engine_ok_def RemoveSubscriber_def slots_stop_spec(1))
  moreover have "engine_ok (engine_Stop e)" using assms by (simp add: engine_ok_def engine_Stop_def slots_stop_spec(1))
  ultimately show ?thesis
    using ids by (auto simp: AddSubscriber_def RemoveSubscriber_def engine_Stop_def Let_def slots_stop_spec slot_stop_def)
qed

theorem engine_subscribers_witness:
  "engine_ok (RemoveSubscriber (fst (AddSubscriber sample_engine)) 0) \<and>
   cs_stopped (en_store (RemoveSubscriber (fst (AddSubscriber sample_engine)) 0) ! 0)"
proof -
  have "engine_ok (fst (AddSubscriber sample_engine))"
    using engine_subscribers [OF sample_engine_ok] by (simp add: Let_def split_beta)
  moreover have "0 < length (en_store (fst (AddSubscriber sample_engine)))" by code_simp
  ultimately show ?thesis using engine_subscribers [of "fst (AddSubscriber sample_engine)"] by (simp add: Let_def)
qed

lemma sum_list_filter_if: "sum_list (map f (filter P xs)) = sum_list (map (\<lambda>x. if P x then f x else (0 :: int)) xs)"
  by (induction xs) simp_all

lemma best_of_levels:
  assumes "\<forall>l\<in>set (sb_levels s). 0 < lpx l" "best \<noteq> 0"
  shows "BestPx s = best \<longleftrightarrow> at_head best (sb_levels s)"
    and "head_qty best (sb_levels s) = (if BestPx s = best then BestQty s else 0)"
  using assms by (cases "sb_levels s"; auto simp: BestPx_def BestQty_def at_head_def head_qty_def)+

lemma best_head_positive:
  assumes "best_head d sides p" "\<forall>s\<in>set sides. \<forall>l\<in>set s. 0 < lpx l"
  shows "0 < p"
  using assms by (force simp: best_head_def at_head_def)

lemma side_touch:
  fixes side :: "nat \<Rightarrow> SideBook"
  assumes "\<forall>i\<in>set C. Invariant d (side i)"
    and "publish_cut d lim 0 0 None (full_ladder d (map (\<lambda>i. sb_levels (side i)) C)) = l # rest"
  shows "mpx l \<noteq> 0"
    and "mqty l = wrap64 (sum_list (map (\<lambda>i. BestQty (side i)) (filter (\<lambda>i. BestPx (side i) = mpx l) C)))"
    and "filter (\<lambda>i. BestPx (side i) = mpx l) C \<noteq> []"
proof -
  let ?sides = "map (\<lambda>i. sb_levels (side i)) C"
  have sorted: "\<forall>s\<in>set ?sides. best_first d s" and pos: "\<forall>s\<in>set ?sides. \<forall>l\<in>set s. 0 < lpx l"
    using assms(1) by (auto simp: Invariant_iff list_all_iff positive_level_def)
  obtain ls where L: "full_ladder d ?sides = l # ls"
    using publish_cut_head [OF assms(2)] by (cases "full_ladder d ?sides") auto
  note head = full_ladder_head [OF L sorted]
  show p: "mpx l \<noteq> 0" using best_head_positive [OF head(1) pos] by simp
  have best: "BestPx (side i) = mpx l \<longleftrightarrow> at_head (mpx l) (sb_levels (side i))"
    "head_qty (mpx l) (sb_levels (side i)) = (if BestPx (side i) = mpx l then BestQty (side i) else 0)"
    if "i \<in> set C" for i
    using that pos best_of_levels [OF _ p, of "side i"] by auto
  have "map (head_qty (mpx l)) ?sides = map (\<lambda>i. if BestPx (side i) = mpx l then BestQty (side i) else 0) C"
    using best(2) by (simp add: comp_def)
  with head(2) show "mqty l = wrap64 (sum_list (map (\<lambda>i. BestQty (side i)) (filter (\<lambda>i. BestPx (side i) = mpx l) C)))"
    by (simp only: sum_list_filter_if)
  show "filter (\<lambda>i. BestPx (side i) = mpx l) C \<noteq> []"
    using head(1) best(1) by (auto simp: best_head_def filter_empty_conv)
qed

text \<open>C30: the venues named at the touch are exactly the contributing venues whose own best price is
  the published best price, at least one is named, and their quantities add up (in 64 bits) to the
  published quantity of the best level; on both sides.\<close>

theorem touch_attribution:
  assumes "engine_ok e" "build_book e states now_steady now_wall = Some book"
  shows "(cb_bids book \<noteq> [] \<longrightarrow>
            map vt_venue (cb_bid_touch book) = map (\<lambda>i. vf_name (en_venues e ! i))
              (filter (\<lambda>i. BestPx (vb_bids (en_books e ! i)) = mpx (hd (cb_bids book))) (chosen e states now_steady)) \<and>
            mqty (hd (cb_bids book)) = wrap64 (sum_list (map vt_qty (cb_bid_touch book))) \<and> cb_bid_touch book \<noteq> []) \<and>
         (cb_asks book \<noteq> [] \<longrightarrow>
            map vt_venue (cb_ask_touch book) = map (\<lambda>i. vf_name (en_venues e ! i))
              (filter (\<lambda>i. BestPx (vb_asks (en_books e ! i)) = mpx (hd (cb_asks book))) (chosen e states now_steady)) \<and>
            mqty (hd (cb_asks book)) = wrap64 (sum_list (map vt_qty (cb_ask_touch book))) \<and> cb_ask_touch book \<noteq> [])"
proof -
  let ?C = "chosen e states now_steady"
  have inv: "\<forall>i\<in>set ?C. Invariant True (vb_bids (en_books e ! i))" "\<forall>i\<in>set ?C. Invariant False (vb_asks (en_books e ! i))"
    using engine_ok_book [OF assms(1)] by (auto simp: chosen_def book_ok_def)
  obtain book' where "build_book e states now_steady now_wall = Some book'"
    and b: "cb_bids book' = publish_cut True (publish_limits (en_config e)) 0 0 None (full_ladder True (chosen_bids e states now_steady))"
      "cb_asks book' = publish_cut False (publish_limits (en_config e)) 0 0 None (full_ladder False (chosen_asks e states now_steady))"
      "cb_bid_touch book' = bid_touches e (case cb_bids book' of [] \<Rightarrow> 0 | l # _ \<Rightarrow> mpx l)
         (map (\<lambda>i. \<lparr>venue_index = i, in_levels = sb_levels (vb_bids (en_books e ! i))\<rparr>) ?C)"
      "cb_ask_touch book' = ask_touches e (case cb_asks book' of [] \<Rightarrow> 0 | l # _ \<Rightarrow> mpx l)
         (map (\<lambda>i. \<lparr>venue_index = i, in_levels = sb_levels (vb_asks (en_books e ! i))\<rparr>) ?C)"
    using assms(1) by (rule build_book_spec)
  then have same: "book' = book" using assms(2) by simp
  note b = b [unfolded same]
  note touches = bid_touches_def ask_touches_def filter_map comp_def
  show ?thesis
  proof (intro conjI impI)
    assume "cb_bids book \<noteq> []"
    then obtain l rest where l: "cb_bids book = l # rest" by (cases "cb_bids book") auto
    note t = side_touch [OF inv(1), of "publish_limits (en_config e)" l rest, folded chosen_bids_def, OF b(1) [symmetric, unfolded l]]
    show "map vt_venue (cb_bid_touch book) = map (\<lambda>i. vf_name (en_venues e ! i))
        (filter (\<lambda>i. BestPx (vb_bids (en_books e ! i)) = mpx (hd (cb_bids book))) ?C)"
      "mqty (hd (cb_bids book)) = wrap64 (sum_list (map vt_qty (cb_bid_touch book)))" "cb_bid_touch book \<noteq> []"
      using b(3) t l by (simp_all add: touches)
  next
    assume "cb_asks book \<noteq> []"
    then obtain l rest where l: "cb_asks book = l # rest" by (cases "cb_asks book") auto
    note t = side_touch [OF inv(2), of "publish_limits (en_config e)" l rest, folded chosen_asks_def, OF b(2) [symmetric, unfolded l]]
    show "map vt_venue (cb_ask_touch book) = map (\<lambda>i. vf_name (en_venues e ! i))
        (filter (\<lambda>i. BestPx (vb_asks (en_books e ! i)) = mpx (hd (cb_asks book))) ?C)"
      "mqty (hd (cb_asks book)) = wrap64 (sum_list (map vt_qty (cb_ask_touch book)))" "cb_ask_touch book \<noteq> []"
      using b(4) t l by (simp_all add: touches)
  qed
qed

theorem touch_attribution_witness:
  "\<exists>book. build_book (foldl (apply_update 0) sample_engine (fb_updates (sample_batch 0 100))) [kLive, kLive] 1500 7 =
     Some book \<and> map vt_venue (cb_bid_touch book) = [''binance''] \<and> map vt_qty (cb_bid_touch book) = [5]"
proof -
  let ?e = "foldl (apply_update 0) sample_engine (fb_updates (sample_batch 0 100))"
  have "list_all update_ok (fb_updates (sample_batch 0 100))" "0 < length (en_venues sample_engine)" by code_simp+
  then have ok: "engine_ok ?e" using apply_updates_ok [OF sample_engine_ok] by blast
  let ?b = "build_book ?e [kLive, kLive] 1500 7"
  have "(case ?b of None \<Rightarrow> False | Some book \<Rightarrow> cb_bids book = [\<lparr>mpx = 100, mqty = 5\<rparr>] \<and> map vt_qty (cb_bid_touch book) = [5])"
    by code_simp
  then obtain book where b: "?b = Some book" "cb_bids book = [\<lparr>mpx = 100, mqty = 5\<rparr>]" "map vt_qty (cb_bid_touch book) = [5]"
    by (auto split: option.splits)
  have "map (\<lambda>i. vf_name (en_venues ?e ! i)) (filter (\<lambda>i. BestPx (vb_bids (en_books ?e ! i)) = 100)
      (chosen ?e [kLive, kLive] 1500)) = [''binance'']" by code_simp
  with touch_attribution [OF ok b(1)] b show ?thesis by auto
qed

end
