(* ===== verification/Url.thy ===== *)
theory Url
  imports Md_Prelude "HOL-Library.Sublist"
begin

text \<open>
  URL parsing (\<^verbatim>\<open>src/net/url.h\<close>, \<^verbatim>\<open>src/net/url.cc\<close>): one parser for the four schemes, with
  bracketed IPv6 hosts. The character searches of \<^verbatim>\<open>std::string_view\<close> are prefixes and suffixes
  of the text here.
\<close>

section \<open>Data and operations\<close>

record Url =
  url_secure :: bool
  url_scheme :: string
  url_host :: string
  url_port :: string
  url_target :: string

record Scheme =
  sc_prefix :: string
  sc_name :: string
  sc_secure :: bool
  sc_default_port :: string

definition kSchemes :: "Scheme list" where
  "kSchemes =
     [\<lparr>sc_prefix = ''wss://'', sc_name = ''wss'', sc_secure = True, sc_default_port = ''443''\<rparr>,
      \<lparr>sc_prefix = ''ws://'', sc_name = ''ws'', sc_secure = False, sc_default_port = ''80''\<rparr>,
      \<lparr>sc_prefix = ''https://'', sc_name = ''https'', sc_secure = True, sc_default_port = ''443''\<rparr>,
      \<lparr>sc_prefix = ''http://'', sc_name = ''http'', sc_secure = False, sc_default_port = ''80''\<rparr>]"

fun find_scheme :: "Scheme list \<Rightarrow> string \<Rightarrow> (Scheme \<times> string) option" where
  "find_scheme [] url = None"
| "find_scheme (candidate # rest) url =
     (if prefix (sc_prefix candidate) url then Some (candidate, drop (length (sc_prefix candidate)) url)
      else find_scheme rest url)"

text \<open>The part of the authority after its last closing bracket, where the port is looked for.\<close>

definition after_bracket :: "string \<Rightarrow> string" where
  "after_bracket authority = rev (takeWhile (\<lambda>c. c \<noteq> CHR '']'') (rev authority))"

definition strip_brackets :: "string \<Rightarrow> string" where
  "strip_brackets host =
     (if length host \<ge> 2 \<and> hd host = CHR ''['' \<and> last host = CHR '']''
      then take (length host - 2) (tl host) else host)"

definition ParseUrl :: "string \<Rightarrow> Url option" where
  "ParseUrl url =
     (case find_scheme kSchemes url of
        None \<Rightarrow> None
      | Some (scheme, rest) \<Rightarrow>
          (let authority = takeWhile (\<lambda>c. c \<noteq> CHR ''/'') rest;
               target = (if CHR ''/'' \<in> set rest then dropWhile (\<lambda>c. c \<noteq> CHR ''/'') rest else ''/'')
           in if authority = [] then None
              else
                let searched = after_bracket authority;
                    before = take (length authority - length searched) authority
                in if CHR '':'' \<in> set searched then
                     (let host = before @ takeWhile (\<lambda>c. c \<noteq> CHR '':'') searched;
                          port = tl (dropWhile (\<lambda>c. c \<noteq> CHR '':'') searched)
                      in if port = [] then None
                         else if strip_brackets host = [] then None
                         else Some \<lparr>url_secure = sc_secure scheme, url_scheme = sc_name scheme,
                                    url_host = strip_brackets host, url_port = port, url_target = target\<rparr>)
                   else if strip_brackets authority = [] then None
                   else Some \<lparr>url_secure = sc_secure scheme, url_scheme = sc_name scheme,
                              url_host = strip_brackets authority, url_port = sc_default_port scheme,
                              url_target = target\<rparr>))"

section \<open>Rendering\<close>

text \<open>The texts the parser is meant to read: a host name or a bracketed address, an optional port, a path.\<close>

definition bracketed :: "bool \<Rightarrow> string \<Rightarrow> string" where
  "bracketed ipv6 host = (if ipv6 then CHR ''['' # host @ [CHR '']''] else host)"

definition url_text :: "Scheme \<Rightarrow> bool \<Rightarrow> string \<Rightarrow> string option \<Rightarrow> string \<Rightarrow> string" where
  "url_text scheme ipv6 host port target =
     sc_prefix scheme @ bracketed ipv6 host @ (case port of None \<Rightarrow> [] | Some p \<Rightarrow> CHR '':'' # p) @ target"

definition host_ok :: "bool \<Rightarrow> string \<Rightarrow> bool" where
  "host_ok ipv6 host \<longleftrightarrow> host \<noteq> [] \<and> CHR ''/'' \<notin> set host \<and> CHR '']'' \<notin> set host \<and> CHR ''['' \<notin> set host \<and>
     (\<not> ipv6 \<longrightarrow> CHR '':'' \<notin> set host)"

definition port_ok :: "string option \<Rightarrow> bool" where
  "port_ok port \<longleftrightarrow> (case port of None \<Rightarrow> True
     | Some p \<Rightarrow> p \<noteq> [] \<and> CHR ''/'' \<notin> set p \<and> CHR '']'' \<notin> set p)"

lemma find_scheme_text:
  "scheme \<in> set kSchemes \<Longrightarrow> find_scheme kSchemes (sc_prefix scheme @ rest) = Some (scheme, rest)"
proof -
  have "list_all (\<lambda>scheme. \<forall>rest. find_scheme kSchemes (sc_prefix scheme @ rest) = Some (scheme, rest)) kSchemes"
    unfolding kSchemes_def by simp
  then show "scheme \<in> set kSchemes \<Longrightarrow> find_scheme kSchemes (sc_prefix scheme @ rest) = Some (scheme, rest)"
    by (simp add: list_all_iff)
qed

lemma takeWhile_none: "x \<notin> set xs \<Longrightarrow> takeWhile (\<lambda>c. c \<noteq> x) xs = xs"
  by (auto simp: takeWhile_eq_all_conv)

lemma split_at:
  assumes "x \<notin> set xs" "ys = [] \<or> hd ys = x"
  shows "takeWhile (\<lambda>c. c \<noteq> x) (xs @ ys) = xs" "dropWhile (\<lambda>c. c \<noteq> x) (xs @ ys) = ys"
    "x \<in> set (xs @ ys) \<longleftrightarrow> ys \<noteq> []"
proof -
  have no: "\<And>c. c \<in> set xs \<Longrightarrow> c \<noteq> x" using assms(1) by blast
  show "takeWhile (\<lambda>c. c \<noteq> x) (xs @ ys) = xs"
    using assms(2) takeWhile_append2 [of xs "\<lambda>c. c \<noteq> x" ys, OF no] by (cases ys) simp_all
  show "dropWhile (\<lambda>c. c \<noteq> x) (xs @ ys) = ys"
    using assms(2) dropWhile_append2 [of xs "\<lambda>c. c \<noteq> x" ys, OF no] by (cases ys) simp_all
  show "x \<in> set (xs @ ys) \<longleftrightarrow> ys \<noteq> []" using assms by (cases ys) simp_all
qed

lemma after_bracket_simps:
  "CHR '']'' \<notin> set xs \<Longrightarrow> after_bracket xs = xs"
  "CHR '']'' \<notin> set ys \<Longrightarrow> after_bracket (xs @ CHR '']'' # ys) = ys"
  using split_at(1) [of "CHR '']''" "rev ys" "CHR '']'' # rev xs"]
  by (simp_all add: after_bracket_def takeWhile_none)

lemma strip_bracketed: "host_ok ipv6 host \<Longrightarrow> strip_brackets (bracketed ipv6 host) = host"
  by (cases host) (auto simp: strip_brackets_def bracketed_def host_ok_def)

lemma authority_split:
  assumes "host_ok ipv6 host" "port_ok port"
  defines "tail \<equiv> (case port of None \<Rightarrow> [] | Some p \<Rightarrow> CHR '':'' # p)"
  shows "\<exists>before mid. bracketed ipv6 host = before @ mid \<and> CHR '':'' \<notin> set mid \<and>
           after_bracket (bracketed ipv6 host @ tail) = mid @ tail"
proof (cases ipv6)
  case True
  have "CHR '']'' \<notin> set tail" using assms(2) by (auto simp: tail_def port_ok_def split: option.splits)
  then have "after_bracket (bracketed True host @ tail) = tail"
    using after_bracket_simps(2) [of tail "CHR ''['' # host"] by (simp add: bracketed_def)
  with True show ?thesis by (intro exI [of _ "bracketed ipv6 host"] exI [of _ "[]"]) simp
next
  case False
  have "CHR '']'' \<notin> set (host @ tail)"
    using assms(1,2) by (auto simp: tail_def host_ok_def port_ok_def split: option.splits)
  with False assms(1) show ?thesis
    by (intro exI [of _ "[]"] exI [of _ host]) (simp add: bracketed_def after_bracket_simps(1) host_ok_def)
qed

section \<open>Properties\<close>

text \<open>C34: parsing the text of a URL gives back its parts: the scheme and whether it is secure, the
  host with the brackets of an IPv6 address removed, the port or the scheme's default, and the
  path or \<^verbatim>\<open>/\<close>. The colons inside a bracketed address are not mistaken for the port's.\<close>

theorem ParseUrl_text:
  assumes "scheme \<in> set kSchemes" "host_ok ipv6 host" "port_ok port"
    and "target = [] \<or> hd target = CHR ''/''"
  shows "ParseUrl (url_text scheme ipv6 host port target) =
     Some \<lparr>url_secure = sc_secure scheme, url_scheme = sc_name scheme, url_host = host,
           url_port = (case port of None \<Rightarrow> sc_default_port scheme | Some p \<Rightarrow> p),
           url_target = (if target = [] then ''/'' else target)\<rparr>"
proof -
  let ?tail = "case port of None \<Rightarrow> [] | Some p \<Rightarrow> CHR '':'' # p"
  let ?auth = "bracketed ipv6 host @ ?tail"
  have noslash: "CHR ''/'' \<notin> set ?auth"
    using assms(2,3) by (auto simp: bracketed_def host_ok_def port_ok_def split: option.splits)
  note cut = split_at [OF noslash assms(4)]
  obtain before mid where m: "bracketed ipv6 host = before @ mid" "CHR '':'' \<notin> set mid"
    "after_bracket ?auth = mid @ ?tail" using authority_split [OF assms(2,3)] by blast
  have before: "take (length ?auth - length (mid @ ?tail)) ?auth = before" by (simp add: m(1))
  have tail: "?tail = [] \<or> hd ?tail = CHR '':''" by (cases port) simp_all
  note colon = split_at [OF m(2) tail]
  have host: "?auth \<noteq> []" "strip_brackets (before @ mid) = host" "host \<noteq> []"
    using strip_bracketed [OF assms(2), unfolded m(1)] assms(2) by (auto simp: host_ok_def bracketed_def)
  have whole: "url_text scheme ipv6 host port target = sc_prefix scheme @ ?auth @ target" by (simp add: url_text_def)
  show ?thesis
  proof (cases port)
    case None
    then have "strip_brackets ?auth = host" using host(2) m(1) by simp
    with None host(1,3) colon(3) show ?thesis
      unfolding ParseUrl_def whole find_scheme_text [OF assms(1)] option.case prod.case Let_def cut m(3) by simp
  next
    case (Some p)
    then have "p \<noteq> []" using assms(3) by (simp add: port_ok_def)
    with Some host colon show ?thesis
      unfolding ParseUrl_def whole find_scheme_text [OF assms(1)] option.case prod.case Let_def cut m(3) before colon
      by simp
  qed
qed

theorem ParseUrl_text_witness:
  "ParseUrl ''wss://[::1]:9443/ws'' =
     Some \<lparr>url_secure = True, url_scheme = ''wss'', url_host = ''::1'', url_port = ''9443'', url_target = ''/ws''\<rparr>"
  using ParseUrl_text [of "\<lparr>sc_prefix = ''wss://'', sc_name = ''wss'', sc_secure = True, sc_default_port = ''443''\<rparr>"
      True "''::1''" "Some ''9443''" "''/ws''"]
  by (simp add: kSchemes_def host_ok_def port_ok_def url_text_def bracketed_def)

end
