(* ===== verification/Asio.thy ===== *)
theory Asio
  imports Md_Prelude
begin

text \<open>
  What the network code uses of Boost.Asio and Boost.Beast: the error codes handed to completion
  handlers, and the rule that a started operation completes at most once. The operations a
  connection has started and that have not completed are kept as a list; a completion takes any one
  of them out, in any order and with any error code, so the theorems hold whatever the library,
  the network and the peer do.
\<close>

datatype error_kind = operation_aborted | stream_truncated | ws_closed | other_error

datatype error_code = no_error | Error error_kind string

fun message :: "error_code \<Rightarrow> string" where
  "message no_error = ''Success''"
| "message (Error k text) = text"

fun ec_is :: "error_kind \<Rightarrow> error_code \<Rightarrow> bool" where
  "ec_is k no_error \<longleftrightarrow> False"
| "ec_is k (Error k' text) \<longleftrightarrow> k = k'"

definition pending :: "('op \<Rightarrow> bool) \<Rightarrow> 'op list \<Rightarrow> nat" where
  "pending P ops = length (filter P ops)"

lemma pending_simps [simp]:
  "pending P [] = 0"
  "pending P (op # ops) = (if P op then Suc (pending P ops) else pending P ops)"
  "pending P (xs @ ys) = pending P xs + pending P ys"
  by (simp_all add: pending_def)

lemma pending_0_iff: "pending P ops = 0 \<longleftrightarrow> (\<forall>op\<in>set ops. \<not> P op)"
  by (simp add: pending_def filter_empty_conv)

lemma pending_taken:
  "ops = xs @ op # ys \<Longrightarrow> pending P ops = (if P op then Suc (pending P (xs @ ys)) else pending P (xs @ ys))"
  by simp

end
