(* ===== verification/Ws_Client.thy ===== *)
theory Ws_Client
  imports Url Asio
begin

text \<open>
  The asynchronous WebSocket client (\<^verbatim>\<open>src/net/ws_client.h\<close>, \<^verbatim>\<open>src/net/ws_client.cc\<close>). Every
  handler is a function on the connection's record. \<open>ws_ops\<close> are the operations the connection
  has started on its stream, resolver and timer; \<open>ws_trace\<close> records the callbacks it makes, the
  payloads it is given to send and the payloads whose write has succeeded. A callback may call the
  connection again before the handler goes on: \<open>reaction\<close> is the list of calls it makes, and it
  is arbitrary.
\<close>

section \<open>Data\<close>

datatype WsState = kIdle | kConnecting | kOpen | kClosed

datatype WsOp = OpResolve | OpConnect | OpTlsHandshake | OpHandshake | OpRead | OpWrite string | OpClose
  | OpKeepalive bool

datatype WsEvent = OnOpenCb | OnFrameCb string | OnCloseCb string | Queued string | Written string

record WsConnection =
  ws_url :: "Url option"
  ws_state :: WsState
  ws_finished :: bool
  ws_write_queue :: "string list"
  ws_writing :: bool
  ws_close_pending :: bool
  ws_keepalive_payload :: string
  ws_keepalive_interval :: int
  ws_last_inbound :: i64
  ws_ops :: "WsOp list"
  ws_trace :: "WsEvent list"

text \<open>
  \<open>ws_url\<close> is \<open>None\<close> while \<^verbatim>\<open>stream_\<close> holds no stream, and afterwards the parsed URL,
  whose \<open>url_secure\<close> says which of the two streams is live.
\<close>

definition new_ws :: WsConnection where
  "new_ws = \<lparr>ws_url = None, ws_state = kIdle, ws_finished = False, ws_write_queue = [], ws_writing = False,
             ws_close_pending = False, ws_keepalive_payload = [], ws_keepalive_interval = 0,
             ws_last_inbound = 0, ws_ops = [], ws_trace = []\<rparr>"

datatype WsCall = CallSend string | CallStartKeepalive string int | CallClose

section \<open>Operations\<close>

definition note_event :: "WsEvent \<Rightarrow> WsConnection \<Rightarrow> WsConnection" where
  "note_event e c = c\<lparr>ws_trace := ws_trace c @ [e]\<rparr>"

text \<open>\<^verbatim>\<open>WithStream\<close>: without a stream nothing is started.\<close>

definition start_op :: "WsOp \<Rightarrow> WsConnection \<Rightarrow> WsConnection" where
  "start_op op c = (if ws_url c = None then c else c\<lparr>ws_ops := ws_ops c @ [op]\<rparr>)"

text \<open>
  Cancelling the timer, which \<^verbatim>\<open>expires_after\<close> does too, marks its waits; a wait that was already
  on its way to its handler may still complete without an error.
\<close>

fun cancel_wait :: "WsOp \<Rightarrow> WsOp" where
  "cancel_wait (OpKeepalive cancelled) = OpKeepalive True"
| "cancel_wait op = op"

definition cancel_keepalive :: "WsConnection \<Rightarrow> WsConnection" where
  "cancel_keepalive c = c\<lparr>ws_ops := map cancel_wait (ws_ops c)\<rparr>"

definition ws_Finish :: "string \<Rightarrow> WsConnection \<Rightarrow> WsConnection" where
  "ws_Finish reason c =
     (if ws_finished c then c
      else note_event (OnCloseCb reason) (cancel_keepalive (c\<lparr>ws_finished := True, ws_state := kClosed\<rparr>)))"

definition ws_Fail :: "error_code \<Rightarrow> string \<Rightarrow> WsConnection \<Rightarrow> WsConnection" where
  "ws_Fail ec stage c =
     (if ec_is stream_truncated ec \<or> ec_is ws_closed ec then ws_Finish ''peer closed'' c
      else ws_Finish (stage @ '': '' @ message ec) c)"

definition ws_Open :: "string \<Rightarrow> i64 \<Rightarrow> WsConnection \<Rightarrow> WsConnection" where
  "ws_Open url now c =
     (case ParseUrl url of
        None \<Rightarrow> ws_Finish (''malformed websocket url: '' @ url) c
      | Some u \<Rightarrow>
          if url_scheme u \<noteq> ''ws'' \<and> url_scheme u \<noteq> ''wss''
          then ws_Finish (''malformed websocket url: '' @ url) c
          else start_op OpResolve (c\<lparr>ws_url := Some u, ws_state := kConnecting, ws_last_inbound := now\<rparr>))"

definition DoWrite :: "WsConnection \<Rightarrow> WsConnection" where
  "DoWrite c =
     (case ws_write_queue c of
        [] \<Rightarrow> c
      | payload # rest \<Rightarrow>
          if ws_state c \<noteq> kOpen then c else start_op (OpWrite payload) (c\<lparr>ws_writing := True\<rparr>))"

definition ws_Send :: "string \<Rightarrow> WsConnection \<Rightarrow> WsConnection" where
  "ws_Send payload c =
     (let c1 = note_event (Queued payload) (c\<lparr>ws_write_queue := ws_write_queue c @ [payload]\<rparr>)
      in if ws_state c1 = kOpen \<and> \<not> ws_writing c1 then DoWrite c1 else c1)"

definition ws_Close :: "WsConnection \<Rightarrow> WsConnection" where
  "ws_Close c =
     (if ws_state c \<noteq> kOpen then ws_Finish ''closed before open'' c
      else if ws_writing c then c\<lparr>ws_close_pending := True\<rparr>
      else start_op OpClose (cancel_keepalive (c\<lparr>ws_state := kClosed\<rparr>)))"

definition ArmKeepalive :: "WsConnection \<Rightarrow> WsConnection" where
  "ArmKeepalive c =
     (if ws_state c \<noteq> kOpen \<and> ws_state c \<noteq> kConnecting then c
      else (cancel_keepalive c)\<lparr>ws_ops := ws_ops (cancel_keepalive c) @ [OpKeepalive False]\<rparr>)"

definition StartKeepalive :: "string \<Rightarrow> int \<Rightarrow> WsConnection \<Rightarrow> WsConnection" where
  "StartKeepalive payload interval c =
     (if payload = [] \<or> interval \<le> 0 then c
      else ArmKeepalive (c\<lparr>ws_keepalive_payload := payload, ws_keepalive_interval := interval\<rparr>))"

fun ws_call :: "WsConnection \<Rightarrow> WsCall \<Rightarrow> WsConnection" where
  "ws_call c (CallSend payload) = ws_Send payload c"
| "ws_call c (CallStartKeepalive payload interval) = StartKeepalive payload interval c"
| "ws_call c CallClose = ws_Close c"

text \<open>A callback is made, and calls the connection back.\<close>

definition callback :: "WsEvent \<Rightarrow> WsCall list \<Rightarrow> WsConnection \<Rightarrow> WsConnection" where
  "callback e reaction c = foldl ws_call (note_event e c) reaction"

definition DoRead :: "WsConnection \<Rightarrow> WsConnection" where
  "DoRead c = (if ws_state c \<noteq> kOpen then c else start_op OpRead c)"

definition StartWebsocketHandshake :: "WsConnection \<Rightarrow> WsConnection" where
  "StartWebsocketHandshake c = start_op OpHandshake c"

definition OnResolve :: "error_code \<Rightarrow> WsConnection \<Rightarrow> WsConnection" where
  "OnResolve ec c = (if ec \<noteq> no_error then ws_Fail ec ''resolve'' c else start_op OpConnect c)"

text \<open>\<open>sni\<close> is what \<^verbatim>\<open>SSL_set_tlsext_host_name\<close> reports, as an error code.\<close>

definition OnConnect :: "error_code \<Rightarrow> error_code \<Rightarrow> WsConnection \<Rightarrow> WsConnection" where
  "OnConnect ec sni c =
     (if ec \<noteq> no_error then ws_Fail ec ''connect'' c
      else if (case ws_url c of Some u \<Rightarrow> url_secure u | None \<Rightarrow> False)
      then if sni \<noteq> no_error then ws_Fail sni ''sni'' c else start_op OpTlsHandshake c
      else StartWebsocketHandshake c)"

definition OnTlsHandshake :: "error_code \<Rightarrow> WsConnection \<Rightarrow> WsConnection" where
  "OnTlsHandshake ec c = (if ec \<noteq> no_error then ws_Fail ec ''tls handshake'' c else StartWebsocketHandshake c)"

definition OnWebsocketHandshake :: "error_code \<Rightarrow> i64 \<Rightarrow> WsCall list \<Rightarrow> WsConnection \<Rightarrow> WsConnection" where
  "OnWebsocketHandshake ec now reaction c =
     (if ec \<noteq> no_error then ws_Fail ec ''websocket handshake'' c
      else
        let c1 = DoRead (callback OnOpenCb reaction (c\<lparr>ws_state := kOpen, ws_last_inbound := now\<rparr>))
        in if \<not> ws_writing c1 \<and> ws_write_queue c1 \<noteq> [] then DoWrite c1 else c1)"

definition OnRead :: "error_code \<Rightarrow> string \<Rightarrow> i64 \<Rightarrow> WsCall list \<Rightarrow> WsConnection \<Rightarrow> WsConnection" where
  "OnRead ec frame now reaction c =
     (if ec \<noteq> no_error then ws_Fail ec ''read'' c
      else DoRead (callback (OnFrameCb frame) reaction (c\<lparr>ws_last_inbound := now\<rparr>)))"

text \<open>\<open>Written\<close> records what the completed write carried, which is not a step of the code.\<close>

definition OnWrite :: "error_code \<Rightarrow> string \<Rightarrow> WsConnection \<Rightarrow> WsConnection" where
  "OnWrite ec payload c =
     (let c1 = c\<lparr>ws_writing := False\<rparr>
      in if ec \<noteq> no_error then ws_Fail ec ''write'' c1
         else
           let c2 = note_event (Written payload) (c1\<lparr>ws_write_queue := tl (ws_write_queue c1)\<rparr>)
           in if ws_close_pending c2 then ws_Close (c2\<lparr>ws_close_pending := False\<rparr>)
              else if ws_write_queue c2 \<noteq> [] then DoWrite c2 else c2)"

definition OnKeepalive :: "error_code \<Rightarrow> WsConnection \<Rightarrow> WsConnection" where
  "OnKeepalive ec c =
     (if ec_is operation_aborted ec then c
      else if ws_state c \<noteq> kOpen then ArmKeepalive c
      else ArmKeepalive (ws_Send (ws_keepalive_payload c) c))"

section \<open>Steps\<close>

text \<open>What the library reports when an operation completes, and what the callback it leads to does.\<close>

record Completion =
  cp_ec :: error_code
  cp_sni :: error_code
  cp_frame :: string
  cp_now :: i64
  cp_reaction :: "WsCall list"

fun complete :: "Completion \<Rightarrow> WsOp \<Rightarrow> WsConnection \<Rightarrow> WsConnection" where
  "complete r OpResolve c = OnResolve (cp_ec r) c"
| "complete r OpConnect c = OnConnect (cp_ec r) (cp_sni r) c"
| "complete r OpTlsHandshake c = OnTlsHandshake (cp_ec r) c"
| "complete r OpHandshake c = OnWebsocketHandshake (cp_ec r) (cp_now r) (cp_reaction r) c"
| "complete r OpRead c = OnRead (cp_ec r) (cp_frame r) (cp_now r) (cp_reaction r) c"
| "complete r (OpWrite payload) c = OnWrite (cp_ec r) payload c"
| "complete r OpClose c = ws_Finish ''closed'' c"
| "complete r (OpKeepalive cancelled) c = OnKeepalive (cp_ec r) c"

text \<open>
  The owner opens an idle connection and may call it at any time; any started operation may complete
  next.
\<close>

inductive ws_step :: "WsConnection \<Rightarrow> WsConnection \<Rightarrow> bool" where
  opened: "ws_url c = None \<Longrightarrow> ws_state c = kIdle \<Longrightarrow> ws_step c (ws_Open url now c)"
| called: "ws_step c (ws_call c call)"
| completed: "ws_ops c = xs @ op # ys \<Longrightarrow> ws_step c (complete r op (c\<lparr>ws_ops := xs @ ys\<rparr>))"

inductive ws_reach :: "WsConnection \<Rightarrow> bool" where
  init: "ws_reach new_ws"
| step: "ws_reach c \<Longrightarrow> ws_step c c' \<Longrightarrow> ws_reach c'"

inductive_cases ws_stepE: "ws_step c c'"

section \<open>The invariant\<close>

fun is_pre :: "WsOp \<Rightarrow> bool" where
  "is_pre op \<longleftrightarrow> op \<in> {OpResolve, OpConnect, OpTlsHandshake, OpHandshake}"

fun is_read :: "WsOp \<Rightarrow> bool" where
  "is_read op \<longleftrightarrow> op = OpRead"

fun is_write :: "WsOp \<Rightarrow> bool" where
  "is_write (OpWrite payload) \<longleftrightarrow> True"
| "is_write op \<longleftrightarrow> False"

fun is_close :: "WsOp \<Rightarrow> bool" where
  "is_close op \<longleftrightarrow> op = OpClose"

fun closes :: "WsEvent list \<Rightarrow> nat" where
  "closes [] = 0"
| "closes (OnCloseCb reason # es) = Suc (closes es)"
| "closes (e # es) = closes es"

fun queued :: "WsEvent list \<Rightarrow> string list" where
  "queued [] = []"
| "queued (Queued payload # es) = payload # queued es"
| "queued (e # es) = queued es"

fun written :: "WsEvent list \<Rightarrow> string list" where
  "written [] = []"
| "written (Written payload # es) = payload # written es"
| "written (e # es) = written es"

lemma trace_append [simp]:
  "closes (xs @ ys) = closes xs + closes ys"
  "queued (xs @ ys) = queued xs @ queued ys"
  "written (xs @ ys) = written xs @ written ys"
proof -
  show "closes (xs @ ys) = closes xs + closes ys" by (induction xs rule: closes.induct) auto
  show "queued (xs @ ys) = queued xs @ queued ys" by (induction xs rule: queued.induct) auto
  show "written (xs @ ys) = written xs @ written ys" by (induction xs rule: written.induct) auto
qed

lemma cancel_wait_kind [simp]:
  "is_pre (cancel_wait op) = is_pre op" "is_read (cancel_wait op) = is_read op"
  "is_write (cancel_wait op) = is_write op" "is_close (cancel_wait op) = is_close op"
  by (cases op; simp)+

lemma cancel_wait_write [simp]: "OpWrite payload = cancel_wait op \<longleftrightarrow> op = OpWrite payload"
  by (cases op) auto

lemma pending_map: "(\<And>op. P (f op) = P op) \<Longrightarrow> pending P (map f ops) = pending P ops"
  by (induction ops) auto

lemma pending_cancel [simp]:
  "pending is_pre (map cancel_wait ops) = pending is_pre ops"
  "pending is_read (map cancel_wait ops) = pending is_read ops"
  "pending is_write (map cancel_wait ops) = pending is_write ops"
  "pending is_close (map cancel_wait ops) = pending is_close ops"
  by (simp_all only: pending_map cancel_wait_kind)

text \<open>What holds at every point of a handler at which a callback may call the connection.\<close>

definition ws_core :: "WsConnection \<Rightarrow> bool" where
  "ws_core c \<longleftrightarrow>
     pending is_pre (ws_ops c) + pending is_read (ws_ops c) \<le> 1 \<and>
     pending is_write (ws_ops c) = (if ws_writing c then 1 else 0) \<and>
     pending is_close (ws_ops c) \<le> 1 \<and>
     (pending is_close (ws_ops c) > 0 \<longrightarrow> ws_state c = kClosed \<and> \<not> ws_writing c \<and> pending is_pre (ws_ops c) = 0) \<and>
     (ws_state c = kOpen \<or> ws_writing c \<longrightarrow> pending is_pre (ws_ops c) = 0) \<and>
     (ws_state c = kOpen \<or> ws_state c = kConnecting \<longrightarrow> ws_url c \<noteq> None) \<and>
     (ws_url c = None \<longrightarrow> ws_ops c = []) \<and>
     (\<forall>payload. OpWrite payload \<in> set (ws_ops c) \<longrightarrow> ws_write_queue c \<noteq> [] \<and> hd (ws_write_queue c) = payload) \<and>
     (ws_state c = kClosed \<longrightarrow> ws_finished c \<or> pending is_close (ws_ops c) > 0) \<and>
     (ws_finished c \<longrightarrow> ws_state c = kClosed \<or> ws_state c = kOpen) \<and>
     closes (ws_trace c) = (if ws_finished c then 1 else 0) \<and>
     queued (ws_trace c) = written (ws_trace c) @ ws_write_queue c"

text \<open>Between two handlers, moreover, something is outstanding that will end the connection.\<close>

definition ws_inv :: "WsConnection \<Rightarrow> bool" where
  "ws_inv c \<longleftrightarrow> ws_core c \<and>
     (ws_state c = kConnecting \<longrightarrow> pending is_pre (ws_ops c) > 0) \<and>
     (ws_state c = kOpen \<longrightarrow> ws_finished c \<or> pending is_read (ws_ops c) > 0)"

lemma no_write: "pending is_write ops = 0 \<Longrightarrow> OpWrite payload \<notin> set ops"
  by (auto simp: pending_0_iff)

lemmas ws_prims = note_event_def start_op_def cancel_keepalive_def

lemma Finish_core:
  "ws_core c \<Longrightarrow> ws_core (ws_Finish reason c)"
  by (auto simp: ws_core_def ws_Finish_def ws_prims)

lemma DoWrite_core: "ws_core c \<Longrightarrow> \<not> ws_writing c \<Longrightarrow> ws_core (DoWrite c)"
  using no_write [of "ws_ops c"]
  by (cases "ws_write_queue c"; cases "ws_state c = kOpen") (simp_all add: ws_core_def DoWrite_def ws_prims)

lemma Send_core: "ws_core c \<Longrightarrow> ws_core (ws_Send payload c)"
proof -
  assume c: "ws_core c"
  let ?c1 = "note_event (Queued payload) (c\<lparr>ws_write_queue := ws_write_queue c @ [payload]\<rparr>)"
  have "ws_core ?c1" using c by (auto simp: ws_core_def ws_prims)
  then show ?thesis using DoWrite_core [of ?c1] by (simp add: ws_Send_def Let_def)
qed

lemma Close_core: "ws_core c \<Longrightarrow> ws_core (ws_Close c)"
proof -
  assume c: "ws_core c"
  have "ws_core (start_op OpClose (cancel_keepalive (c\<lparr>ws_state := kClosed\<rparr>)))"
    if "ws_state c = kOpen" "\<not> ws_writing c"
    using c that by (auto simp: ws_core_def ws_prims)
  moreover have "ws_core (c\<lparr>ws_close_pending := True\<rparr>)" using c by (simp add: ws_core_def)
  ultimately show ?thesis using Finish_core [OF c] by (simp add: ws_Close_def)
qed

lemma ArmKeepalive_core: "ws_core c \<Longrightarrow> ws_core (ArmKeepalive c)"
  by (cases "ws_state c") (simp_all add: ws_core_def ArmKeepalive_def ws_prims image_iff conj_commute)

lemma call_core: "ws_core c \<Longrightarrow> ws_core (ws_call c call)"
proof (cases call)
  case (CallStartKeepalive payload interval)
  moreover assume "ws_core c"
  then have "ws_core (c\<lparr>ws_keepalive_payload := payload, ws_keepalive_interval := interval\<rparr>)" by (simp add: ws_core_def)
  ultimately show ?thesis using ArmKeepalive_core by (simp add: StartKeepalive_def \<open>ws_core c\<close>)
qed (simp_all add: Send_core Close_core)

lemma calls_core: "ws_core c \<Longrightarrow> ws_core (foldl ws_call c calls)"
  by (induction calls arbitrary: c) (simp_all add: call_core)

text \<open>What the calls leave alone: the operations that lead to the read loop, and the stream.\<close>

definition same_chain :: "WsConnection \<Rightarrow> WsConnection \<Rightarrow> bool" where
  "same_chain c c' \<longleftrightarrow>
     pending is_pre (ws_ops c') = pending is_pre (ws_ops c) \<and>
     pending is_read (ws_ops c') = pending is_read (ws_ops c) \<and>
     ws_url c' = ws_url c \<and> (ws_finished c \<longrightarrow> ws_finished c') \<and>
     (ws_state c' = ws_state c \<or> ws_state c' = kClosed)"

lemma same_chain_refl [simp]: "same_chain c c"
  by (simp add: same_chain_def)

lemma same_chain_trans: "same_chain a b \<Longrightarrow> same_chain b c \<Longrightarrow> same_chain a c"
  by (auto simp: same_chain_def)

lemma DoWrite_chain: "same_chain c (DoWrite c)"
  by (cases "ws_write_queue c") (simp_all add: same_chain_def DoWrite_def ws_prims)

lemma Finish_chain: "same_chain c (ws_Finish reason c)"
  by (simp add: same_chain_def ws_Finish_def ws_prims)

lemma Send_chain: "same_chain c (ws_Send payload c)"
proof -
  let ?c1 = "note_event (Queued payload) (c\<lparr>ws_write_queue := ws_write_queue c @ [payload]\<rparr>)"
  have "same_chain c ?c1" by (simp add: same_chain_def ws_prims)
  then show ?thesis using same_chain_trans [OF _ DoWrite_chain [of ?c1]] by (simp add: ws_Send_def Let_def)
qed

lemma Close_chain: "same_chain c (ws_Close c)"
proof -
  have "same_chain c (start_op OpClose (cancel_keepalive (c\<lparr>ws_state := kClosed\<rparr>)))"
    by (simp add: same_chain_def ws_prims)
  moreover have "same_chain c (c\<lparr>ws_close_pending := True\<rparr>)" by (simp add: same_chain_def)
  ultimately show ?thesis using Finish_chain by (simp add: ws_Close_def)
qed

lemma ArmKeepalive_chain: "same_chain c (ArmKeepalive c)"
  by (simp add: same_chain_def ArmKeepalive_def ws_prims)

lemma call_chain: "same_chain c (ws_call c call)"
proof (cases call)
  case (CallStartKeepalive payload interval)
  have "same_chain c (c\<lparr>ws_keepalive_payload := payload, ws_keepalive_interval := interval\<rparr>)"
    by (simp add: same_chain_def)
  from same_chain_trans [OF this ArmKeepalive_chain] CallStartKeepalive show ?thesis by (simp add: StartKeepalive_def)
qed (simp_all add: Send_chain Close_chain)

lemma calls_chain: "same_chain c (foldl ws_call c calls)"
  by (induction calls arbitrary: c) (auto intro: same_chain_trans call_chain)

lemma inv_chain: "ws_inv c \<Longrightarrow> ws_core c' \<Longrightarrow> same_chain c c' \<Longrightarrow> ws_inv c'"
  by (auto simp: ws_inv_def same_chain_def)

lemma call_inv: "ws_inv c \<Longrightarrow> ws_inv (ws_call c call)"
  using inv_chain [OF _ call_core call_chain] by (simp add: ws_inv_def)

lemma finished_state: "ws_core c \<Longrightarrow> ws_finished c \<Longrightarrow> ws_state c = kClosed \<or> ws_state c = kOpen"
  by (simp add: ws_core_def)

lemma Finish_inv: "ws_core c \<Longrightarrow> ws_inv (ws_Finish reason c)"
  using Finish_core [of c reason] finished_state [of c]
  by (cases "ws_finished c") (auto simp: ws_inv_def ws_Finish_def ws_prims)

lemma Fail_inv: "ws_core c \<Longrightarrow> ws_inv (ws_Fail ec stage c)"
  by (simp add: ws_Fail_def Finish_inv)

section \<open>Every step keeps the invariant\<close>

lemma Open_inv:
  assumes "ws_inv c" "ws_url c = None" "ws_state c = kIdle"
  shows "ws_inv (ws_Open url now c)"
proof -
  have core: "ws_core c" using assms(1) by (simp add: ws_inv_def)
  then have ops: "ws_ops c = []" using assms(2) by (simp add: ws_core_def)
  then have quiet: "\<not> ws_writing c" "\<not> ws_finished c" using core assms(3) by (auto simp: ws_core_def split: if_splits)
  have "ws_inv (start_op OpResolve (c\<lparr>ws_url := Some u, ws_state := kConnecting, ws_last_inbound := now\<rparr>))" for u
    using core ops quiet by (simp add: ws_inv_def ws_core_def ws_prims)
  then show ?thesis using Finish_inv [OF core] by (simp add: ws_Open_def split: option.splits)
qed

text \<open>Taking a connection-phase operation or a read out of the outstanding ones.\<close>

lemma ops_url: "ws_core c \<Longrightarrow> ws_ops c = xs @ op # ys \<Longrightarrow> \<exists>u. ws_url c = Some u"
  by (cases "ws_url c") (simp_all add: ws_core_def)

lemma op_kinds:
  "is_pre op \<Longrightarrow> \<not> is_read op \<and> \<not> is_write op \<and> \<not> is_close op \<and> (\<forall>p. OpWrite p \<noteq> op)"
  "is_read op \<Longrightarrow> \<not> is_pre op \<and> \<not> is_write op \<and> \<not> is_close op \<and> (\<forall>p. OpWrite p \<noteq> op)"
  by (cases op; simp)+

lemma taken_chain:
  assumes "ws_core c" "ws_ops c = xs @ op # ys" "is_pre op \<or> is_read op"
  shows "ws_core (c\<lparr>ws_ops := xs @ ys\<rparr>)" "ws_url c \<noteq> None"
    "pending is_pre (xs @ ys) = 0" "pending is_read (xs @ ys) = 0"
proof -
  note kinds = op_kinds [of op]
  have count: "pending is_pre (xs @ ys) = 0 \<and> pending is_read (xs @ ys) = 0"
    using assms(3)
  proof
    assume "is_pre op"
    with assms(1,2) kinds show ?thesis by (simp add: ws_core_def del: is_pre.simps is_read.simps is_close.simps)
  next
    assume "is_read op"
    with assms(1,2) kinds show ?thesis by (simp add: ws_core_def del: is_pre.simps is_read.simps is_close.simps)
  qed
  then show "pending is_pre (xs @ ys) = 0" "pending is_read (xs @ ys) = 0" by simp_all
  obtain u where url: "ws_url c = Some u" using ops_url [OF assms(1,2)] by blast
  then show "ws_url c \<noteq> None" by simp
  have "\<not> is_write op \<and> \<not> is_close op \<and> (\<forall>p. OpWrite p \<noteq> op)" using assms(3) kinds by blast
  with assms(1,2) count url show "ws_core (c\<lparr>ws_ops := xs @ ys\<rparr>)"
    by (simp add: ws_core_def del: is_pre.simps is_read.simps is_close.simps)
qed

lemma taken_pre:
  assumes "ws_core c" "ws_ops c = xs @ op # ys" "is_pre op"
  shows "\<not> ws_writing c" "pending is_close (xs @ ys) = 0" "ws_state c \<noteq> kOpen"
  using assms op_kinds(1) [of op] unfolding ws_core_def
  by (simp_all del: is_pre.simps is_read.simps is_close.simps)

lemma next_pre_inv:
  assumes "ws_core c" "ws_ops c = xs @ op # ys" "is_pre op" "is_pre next_op"
  shows "ws_inv (start_op next_op (c\<lparr>ws_ops := xs @ ys\<rparr>))"
proof -
  let ?c = "c\<lparr>ws_ops := xs @ ys\<rparr>"
  have core: "ws_core ?c" and free: "pending is_pre (xs @ ys) = 0" "pending is_read (xs @ ys) = 0"
    using taken_chain [OF assms(1,2)] assms(3) by blast+
  obtain u where url: "ws_url c = Some u" using taken_chain(2) [OF assms(1,2)] assms(3) by blast
  have kind: "\<not> is_read next_op" "\<not> is_write next_op" "\<not> is_close next_op" "\<And>p. OpWrite p \<noteq> next_op"
    using assms(4) by auto
  from core url free taken_pre [OF assms(1-3)] kind assms(4)
  have "ws_core (start_op next_op ?c)" by (simp add: ws_core_def start_op_def del: is_pre.simps)
  with url assms(4) taken_pre(3) [OF assms(1-3)] show ?thesis
    by (simp add: ws_inv_def start_op_def del: is_pre.simps)
qed

lemma DoRead_inv:
  assumes "ws_core c" "pending is_pre (ws_ops c) = 0" "pending is_read (ws_ops c) = 0" "ws_state c \<noteq> kConnecting"
  shows "ws_inv (DoRead c)"
proof (cases "ws_state c = kOpen")
  case True
  then have "ws_url c \<noteq> None" "pending is_close (ws_ops c) = 0" using assms(1) by (auto simp: ws_core_def)
  with True assms show ?thesis by (simp add: ws_inv_def ws_core_def DoRead_def start_op_def)
qed (use assms in \<open>simp add: ws_inv_def DoRead_def\<close>)

lemma callback_core:
  assumes "ws_core c" "closes [e] = 0" "queued [e] = []" "written [e] = []"
  shows "ws_core (callback e reaction c)" "same_chain c (callback e reaction c)"
proof -
  have "ws_core (note_event e c)" using assms by (simp add: ws_core_def note_event_def)
  then show "ws_core (callback e reaction c)" by (simp add: callback_def calls_core)
  have "same_chain c (note_event e c)" by (simp add: same_chain_def note_event_def)
  then show "same_chain c (callback e reaction c)"
    unfolding callback_def by (rule same_chain_trans [OF _ calls_chain])
qed

lemma read_loop_inv:
  assumes "ws_core c" "pending is_pre (ws_ops c) = 0" "pending is_read (ws_ops c) = 0" "ws_state c \<noteq> kConnecting"
    and "closes [e] = 0" "queued [e] = []" "written [e] = []"
  shows "ws_inv (DoRead (callback e reaction c))"
proof (rule DoRead_inv)
  note cb = callback_core [of c e reaction, OF assms(1) assms(5-7)]
  show "ws_core (callback e reaction c)" by (rule cb(1))
  from cb(2) assms(2-4) show "pending is_pre (ws_ops (callback e reaction c)) = 0"
    "pending is_read (ws_ops (callback e reaction c)) = 0" "ws_state (callback e reaction c) \<noteq> kConnecting"
    by (auto simp: same_chain_def)
qed

lemma OnWebsocketHandshake_inv:
  assumes "ws_core c" "ws_ops c = xs @ OpHandshake # ys"
  shows "ws_inv (OnWebsocketHandshake ec now reaction (c\<lparr>ws_ops := xs @ ys\<rparr>))"
proof (cases "ec = no_error")
  case True
  let ?c = "c\<lparr>ws_ops := xs @ ys, ws_state := kOpen, ws_last_inbound := now\<rparr>"
  let ?c1 = "DoRead (callback OnOpenCb reaction ?c)"
  note pre = taken_chain [OF assms] taken_pre [OF assms]
  obtain u where "ws_url c = Some u" using pre by auto
  with pre have core: "ws_core ?c" by (simp add: ws_core_def)
  from pre have "ws_inv ?c1" by (intro read_loop_inv [OF core]) simp_all
  moreover from this have "ws_inv (DoWrite ?c1)" if "\<not> ws_writing ?c1"
    using inv_chain [OF _ DoWrite_core [OF _ that] DoWrite_chain] by (simp add: ws_inv_def)
  ultimately show ?thesis using True by (simp add: OnWebsocketHandshake_def Let_def)
next
  case False
  with taken_chain(1) [OF assms] show ?thesis by (simp add: OnWebsocketHandshake_def Fail_inv)
qed

lemma OnRead_inv:
  assumes "ws_inv c" "ws_ops c = xs @ OpRead # ys"
  shows "ws_inv (OnRead ec frame now reaction (c\<lparr>ws_ops := xs @ ys\<rparr>))"
proof (cases "ec = no_error")
  case True
  have core0: "ws_core c" using assms(1) by (simp add: ws_inv_def)
  let ?c = "c\<lparr>ws_ops := xs @ ys, ws_last_inbound := now\<rparr>"
  note read = taken_chain [OF core0 assms(2)]
  have core: "ws_core ?c" using read(1) by (simp add: ws_core_def)
  have "ws_state c \<noteq> kConnecting" using assms read by (auto simp: ws_inv_def)
  then have "ws_inv (DoRead (callback (OnFrameCb frame) reaction ?c))"
    using read by (intro read_loop_inv [OF core]) (simp_all)
  with True show ?thesis by (simp add: OnRead_def)
next
  case False
  from assms(1) have "ws_core c" by (simp add: ws_inv_def)
  with False taken_chain(1) [OF _ assms(2)] show ?thesis by (simp add: OnRead_def Fail_inv)
qed

lemma taken_write:
  assumes "ws_inv c" "ws_ops c = xs @ OpWrite payload # ys"
  shows "ws_inv (c\<lparr>ws_ops := xs @ ys, ws_writing := False\<rparr>)"
    "ws_write_queue c = payload # tl (ws_write_queue c)"
    "pending is_write (xs @ ys) = 0"
proof -
  have core: "ws_core c" using assms(1) by (simp add: ws_inv_def)
  then have writing: "ws_writing c" and none: "pending is_write (xs @ ys) = 0"
    using assms(2) by (auto simp: ws_core_def split: if_splits)
  show "pending is_write (xs @ ys) = 0" by (rule none)
  have "ws_write_queue c \<noteq> [] \<and> hd (ws_write_queue c) = payload"
    using core assms(2) by (simp add: ws_core_def)
  then show "ws_write_queue c = payload # tl (ws_write_queue c)" by (cases "ws_write_queue c") simp_all
  obtain u where url: "ws_url c = Some u" using ops_url [OF core assms(2)] by blast
  have "OpWrite p \<notin> set (xs @ ys)" for p using no_write [OF none] .
  moreover have "ws_state c = kClosed \<longrightarrow> ws_finished c" using core writing by (auto simp: ws_core_def)
  ultimately have "ws_core (c\<lparr>ws_ops := xs @ ys, ws_writing := False\<rparr>)"
    using core assms(2) writing none url by (simp add: ws_core_def)
  with assms show "ws_inv (c\<lparr>ws_ops := xs @ ys, ws_writing := False\<rparr>)" by (simp add: ws_inv_def)
qed

lemma OnWrite_inv:
  assumes "ws_inv c" "ws_ops c = xs @ OpWrite payload # ys"
  shows "ws_inv (OnWrite ec payload (c\<lparr>ws_ops := xs @ ys\<rparr>))"
proof -
  let ?c1 = "c\<lparr>ws_ops := xs @ ys, ws_writing := False\<rparr>"
  let ?c2 = "note_event (Written payload) (?c1\<lparr>ws_write_queue := tl (ws_write_queue c)\<rparr>)"
  note taken = taken_write [OF assms]
  have core1: "ws_core ?c1" using taken(1) by (simp add: ws_inv_def)
  have nowrite: "OpWrite p \<notin> set (xs @ ys)" for p using no_write [OF taken(3)] .
  have "queued (ws_trace c) = written (ws_trace c) @ payload # tl (ws_write_queue c)"
    using core1 taken(2) by (simp add: ws_core_def)
  with core1 nowrite have core2: "ws_core ?c2" by (simp add: ws_core_def note_event_def)
  then have inv2: "ws_inv ?c2" using taken(1) by (simp add: ws_inv_def note_event_def)
  have "ws_inv (DoWrite ?c2)"
    using inv_chain [OF inv2 DoWrite_core [OF core2] DoWrite_chain] by (simp add: note_event_def)
  moreover have "ws_inv (?c2\<lparr>ws_close_pending := False\<rparr>)"
    using inv2 by (simp add: ws_inv_def ws_core_def)
  then have "ws_inv (ws_Close (?c2\<lparr>ws_close_pending := False\<rparr>))"
    using call_inv [of _ CallClose] by simp
  ultimately show ?thesis using inv2 Fail_inv [OF core1] by (simp add: OnWrite_def Let_def)
qed

lemma OnClose_inv:
  assumes "ws_core c" "ws_ops c = xs @ OpClose # ys"
  shows "ws_inv (ws_Finish reason (c\<lparr>ws_ops := xs @ ys\<rparr>))"
proof -
  obtain u where url: "ws_url c = Some u" using ops_url [OF assms] by blast
  have state: "ws_state c = kClosed" "pending is_close (xs @ ys) = 0" "pending is_pre (xs @ ys) = 0" "\<not> ws_writing c"
    using assms by (simp_all add: ws_core_def)
  show ?thesis
    using assms url state
    by (cases "ws_finished c") (simp_all add: ws_inv_def ws_core_def ws_Finish_def ws_prims image_iff)
qed

lemma OnKeepalive_inv:
  assumes "ws_inv c" "ws_ops c = xs @ OpKeepalive cancelled # ys"
  shows "ws_inv (OnKeepalive ec (c\<lparr>ws_ops := xs @ ys\<rparr>))"
proof -
  let ?c = "c\<lparr>ws_ops := xs @ ys\<rparr>"
  have core: "ws_core c" using assms(1) by (simp add: ws_inv_def)
  obtain u where url: "ws_url c = Some u" using ops_url [OF core assms(2)] by blast
  have inv: "ws_inv ?c" using assms url by (simp add: ws_inv_def ws_core_def)
  have arm: "ws_inv c' \<Longrightarrow> ws_inv (ArmKeepalive c')" for c'
    using inv_chain [OF _ ArmKeepalive_core ArmKeepalive_chain] by (simp add: ws_inv_def)
  show ?thesis using inv arm [OF inv] arm [OF call_inv [OF inv, of "CallSend (ws_keepalive_payload ?c)"]]
    by (simp add: OnKeepalive_def)
qed

lemma complete_inv:
  assumes "ws_inv c" "ws_ops c = xs @ op # ys"
  shows "ws_inv (complete r op (c\<lparr>ws_ops := xs @ ys\<rparr>))"
proof -
  have core: "ws_core c" using assms(1) by (simp add: ws_inv_def)
  note pre = taken_chain(1) [OF core assms(2)] next_pre_inv [OF core assms(2)]
  show ?thesis
  proof (cases op)
    case OpResolve with pre show ?thesis by (simp add: OnResolve_def Fail_inv)
  next
    case OpConnect with pre show ?thesis by (simp add: OnConnect_def StartWebsocketHandshake_def Fail_inv)
  next
    case OpTlsHandshake with pre show ?thesis by (simp add: OnTlsHandshake_def StartWebsocketHandshake_def Fail_inv)
  next
    case OpHandshake with core assms show ?thesis by (simp add: OnWebsocketHandshake_inv)
  next
    case OpRead with assms show ?thesis by (simp add: OnRead_inv)
  next
    case OpWrite with assms show ?thesis by (simp add: OnWrite_inv)
  next
    case OpClose with core assms show ?thesis by (simp add: OnClose_inv)
  next
    case OpKeepalive with assms show ?thesis by (simp add: OnKeepalive_inv)
  qed
qed

lemma ws_reach_inv: "ws_reach c \<Longrightarrow> ws_inv c"
proof (induction rule: ws_reach.induct)
  case init
  show ?case by (simp add: ws_inv_def ws_core_def new_ws_def)
next
  case (step c c')
  from step.hyps(2) step.IH show ?case
    by (elim ws_stepE) (simp_all add: Open_inv call_inv complete_inv)
qed

section \<open>Properties\<close>

text \<open>C24: Beast's rules are kept whatever the peer, the library and the callbacks do: at most one write
  is outstanding, exactly when \<^verbatim>\<open>writing_\<close> says so, at most one read and one close, and a close frame
  is never started or outstanding together with a write.\<close>

theorem ws_one_operation_each:
  assumes "ws_reach c"
  shows "pending is_write (ws_ops c) = (if ws_writing c then 1 else 0) \<and>
     pending is_read (ws_ops c) \<le> 1 \<and> pending is_close (ws_ops c) \<le> 1 \<and>
     pending is_write (ws_ops c) + pending is_close (ws_ops c) \<le> 1"
proof -
  have core: "ws_core c" using ws_reach_inv [OF assms] by (simp add: ws_inv_def)
  then have "ws_writing c \<longrightarrow> pending is_close (ws_ops c) = 0" by (auto simp: ws_core_def)
  with core show ?thesis by (simp add: ws_core_def)
qed

text \<open>C25: the close callback is delivered at most once, and when a connection that has been opened or
  closed has nothing outstanding but timers it has been delivered: no path ends without it.\<close>

theorem ws_close_delivered_once:
  assumes "ws_reach c"
  shows "closes (ws_trace c) \<le> 1 \<and>
     (ws_state c \<noteq> kIdle \<and> list_all (\<lambda>op. \<exists>cancelled. op = OpKeepalive cancelled) (ws_ops c) \<longrightarrow>
      closes (ws_trace c) = 1)"
proof -
  have inv: "ws_inv c" and core: "ws_core c" using ws_reach_inv [OF assms] by (simp_all add: ws_inv_def)
  have "ws_finished c" if "ws_state c \<noteq> kIdle" and "list_all (\<lambda>op. \<exists>cancelled. op = OpKeepalive cancelled) (ws_ops c)"
  proof -
    have none: "pending is_pre (ws_ops c) = 0" "pending is_read (ws_ops c) = 0" "pending is_close (ws_ops c) = 0"
      using that(2) by (auto simp: pending_0_iff list_all_iff)
    have "ws_state c = kClosed \<longrightarrow> ws_finished c" using core none by (simp add: ws_core_def)
    with inv none that(1) show ?thesis by (cases "ws_state c") (simp_all add: ws_inv_def)
  qed
  moreover have "closes (ws_trace c) = (if ws_finished c then 1 else 0)" using core by (simp add: ws_core_def)
  ultimately show ?thesis by auto
qed

text \<open>The payloads written are the payloads sent, in order: what has been written and what is still
  queued together are everything that was given to \<^verbatim>\<open>Send\<close>, and the payload of a write in progress is
  the next of the queue.\<close>

theorem ws_sends_in_order:
  assumes "ws_reach c"
  shows "queued (ws_trace c) = written (ws_trace c) @ ws_write_queue c \<and>
     (\<forall>payload. OpWrite payload \<in> set (ws_ops c) \<longrightarrow>
        (\<exists>rest. queued (ws_trace c) = written (ws_trace c) @ payload # rest))"
proof -
  have core: "ws_core c" using ws_reach_inv [OF assms] by (simp add: ws_inv_def)
  then have "\<exists>rest. ws_write_queue c = payload # rest" if "OpWrite payload \<in> set (ws_ops c)" for payload
    using that by (cases "ws_write_queue c") (auto simp: ws_core_def)
  moreover have "queued (ws_trace c) = written (ws_trace c) @ ws_write_queue c" using core by (simp add: ws_core_def)
  ultimately show ?thesis by auto
qed

section \<open>Runs\<close>

definition ws_ok :: Completion where
  "ws_ok = \<lparr>cp_ec = no_error, cp_sni = no_error, cp_frame = ''f'', cp_now = 1, cp_reaction = []\<rparr>"

text \<open>Completing the first outstanding operation of a kind.\<close>

fun complete_first :: "Completion \<Rightarrow> WsConnection \<Rightarrow> WsConnection" where
  "complete_first r c = (case ws_ops c of [] \<Rightarrow> c | op # ops \<Rightarrow> complete r op (c\<lparr>ws_ops := ops\<rparr>))"

lemma ws_reach_first: "ws_reach c \<Longrightarrow> ws_reach (complete_first r c)"
  using ws_reach.step [OF _ ws_step.completed [of c "[]"]] by (cases "ws_ops c") simp_all

lemma ws_reach_call: "ws_reach c \<Longrightarrow> ws_reach (ws_call c call)"
  by (rule ws_reach.step [OF _ ws_step.called])

lemma ws_reach_open: "ws_reach (ws_Open url now new_ws)"
  by (rule ws_reach.step [OF ws_reach.init ws_step.opened]) (simp_all add: new_ws_def)

text \<open>A plain connection that is opened, sends two payloads and is asked to close while it writes.\<close>

definition example_ws :: WsConnection where
  "example_ws =
     ws_call (complete_first (ws_ok\<lparr>cp_reaction := [CallSend ''a'', CallSend ''b'']\<rparr>)
       (complete_first ws_ok (complete_first ws_ok (ws_Open ''ws://h'' 0 new_ws)))) CallClose"

lemma example_ws_reach: "ws_reach example_ws"
  unfolding example_ws_def by (intro ws_reach_call ws_reach_first ws_reach_open)

definition example_ws_ended :: WsConnection where
  "example_ws_ended =
     complete_first (ws_ok\<lparr>cp_ec := Error ws_closed ''closed''\<rparr>)
       (complete_first ws_ok (complete_first ws_ok example_ws))"

lemma example_ws_ended_reach: "ws_reach example_ws_ended"
  unfolding example_ws_ended_def by (intro ws_reach_first example_ws_reach)

theorem ws_one_operation_each_witness:
  "ws_ops example_ws = [OpWrite ''a'', OpRead] \<and> ws_close_pending example_ws \<and>
   pending is_write (ws_ops example_ws) + pending is_close (ws_ops example_ws) \<le> 1"
proof -
  have "ws_ops example_ws = [OpWrite ''a'', OpRead] \<and> ws_close_pending example_ws" by code_simp
  with ws_one_operation_each [OF example_ws_reach] show ?thesis by blast
qed

theorem ws_close_delivered_once_witness:
  "ws_ops example_ws_ended = [] \<and> ws_trace example_ws_ended =
     [OnOpenCb, Queued ''a'', Queued ''b'', Written ''a'', OnFrameCb ''f'', OnCloseCb ''closed''] \<and>
   closes (ws_trace example_ws_ended) = 1"
proof -
  have run: "ws_ops example_ws_ended = [] \<and> ws_state example_ws_ended \<noteq> kIdle" "ws_trace example_ws_ended =
     [OnOpenCb, Queued ''a'', Queued ''b'', Written ''a'', OnFrameCb ''f'', OnCloseCb ''closed'']" by code_simp+
  with ws_close_delivered_once [OF example_ws_ended_reach] show ?thesis by simp
qed

theorem ws_sends_in_order_witness:
  "\<exists>rest. queued (ws_trace example_ws) = written (ws_trace example_ws) @ ''a'' # rest"
proof -
  have "OpWrite ''a'' \<in> set (ws_ops example_ws)" by code_simp
  with ws_sends_in_order [OF example_ws_reach] show ?thesis by blast
qed

text \<open>
  A connection closed before its handshake is done delivers its close callback and is then opened all the
  same when the handshake completes: the open callback comes after the close callback, and the
  connection goes on reading.
\<close>

theorem ws_opens_after_close:
  "\<exists>c. ws_reach c \<and> ws_trace c = [OnCloseCb ''closed before open'', OnOpenCb] \<and>
       ws_state c = kOpen \<and> ws_ops c = [OpRead]"
proof -
  let ?c = "complete_first ws_ok (complete_first ws_ok
    (ws_call (complete_first ws_ok (ws_Open ''ws://h'' 0 new_ws)) CallClose))"
  have "ws_reach ?c" by (intro ws_reach_call ws_reach_first ws_reach_open)
  moreover have "ws_trace ?c = [OnCloseCb ''closed before open'', OnOpenCb]" "ws_state ?c = kOpen" "ws_ops ?c = [OpRead]"
    by code_simp+
  ultimately show ?thesis by blast
qed

end
