(* ===== verification/Http_Client.thy ===== *)
theory Http_Client
  imports Url Asio Fixed
begin

text \<open>
  The HTTP client that fetches a snapshot (\<^verbatim>\<open>src/net/http_client.h\<close>,
  \<^verbatim>\<open>src/net/http_client.cc\<close>): one GET over a fresh connection. A session has at most one operation
  outstanding; \<open>hs_calls\<close> records the calls of its handler. What the library reports for each
  operation is arbitrary.
\<close>

section \<open>Data\<close>

datatype HttpOp = HttpResolve | HttpConnect | HttpTls | HttpWrite | HttpRead

record HttpRequest =
  rq_version :: int
  rq_method :: string
  rq_target :: string
  rq_host :: string
  rq_user_agent :: string

record HttpSession =
  hs_url :: "Url option"
  hs_request :: "HttpRequest option"
  hs_done :: bool
  hs_op :: "HttpOp option"
  hs_calls :: "(bool \<times> string \<times> string) list"

text \<open>What completes an operation: its error code, whether the server name could be set, and the response.\<close>

record HttpReport =
  hr_ec :: error_code
  hr_sni :: bool
  hr_status :: int
  hr_body :: string

section \<open>Operations\<close>

definition http_start :: "HttpOp \<Rightarrow> HttpSession \<Rightarrow> HttpSession" where
  "http_start op s = s\<lparr>hs_op := Some op\<rparr>"

definition http_Finish :: "bool \<Rightarrow> string \<Rightarrow> string \<Rightarrow> HttpSession \<Rightarrow> HttpSession" where
  "http_Finish ok body error s =
     (if hs_done s then s else s\<lparr>hs_done := True, hs_calls := hs_calls s @ [(ok, body, error)]\<rparr>)"

definition http_Run :: "Url \<Rightarrow> HttpSession \<Rightarrow> HttpSession" where
  "http_Run url s =
     http_start HttpResolve
       (s\<lparr>hs_request := Some \<lparr>rq_version = 11, rq_method = ''GET'', rq_target = url_target url,
                              rq_host = url_host url, rq_user_agent = ''cex-aggregator/1.0''\<rparr>\<rparr>)"

definition http_OnResolve :: "HttpSession \<Rightarrow> HttpSession" where
  "http_OnResolve s = http_start HttpConnect s"

definition http_Write :: "HttpSession \<Rightarrow> HttpSession" where
  "http_Write s = http_start HttpWrite s"

definition http_OnTlsConnect :: "bool \<Rightarrow> HttpSession \<Rightarrow> HttpSession" where
  "http_OnTlsConnect sni s = (if \<not> sni then http_Finish False [] ''sni failed'' s else http_start HttpTls s)"

definition http_OnConnect :: "bool \<Rightarrow> HttpSession \<Rightarrow> HttpSession" where
  "http_OnConnect sni s =
     (if (case hs_url s of Some u \<Rightarrow> url_secure u | None \<Rightarrow> False) then http_OnTlsConnect sni s else http_Write s)"

definition http_Read :: "HttpSession \<Rightarrow> HttpSession" where
  "http_Read s = http_start HttpRead s"

definition http_OnResponse :: "int \<Rightarrow> string \<Rightarrow> HttpSession \<Rightarrow> HttpSession" where
  "http_OnResponse status body s =
     (if status \<noteq> 200 then http_Finish False [] (''http status '' @ to_string status) s
      else http_Finish True body [] s)"

text \<open>The completion handlers: the outstanding operation completes with a report.\<close>

definition http_stage :: "HttpOp \<Rightarrow> string" where
  "http_stage op =
     (case op of HttpResolve \<Rightarrow> ''resolve: '' | HttpConnect \<Rightarrow> ''connect: '' | HttpTls \<Rightarrow> ''tls: ''
      | HttpWrite \<Rightarrow> ''write: '' | HttpRead \<Rightarrow> ''read: '')"

definition http_completed :: "HttpOp \<Rightarrow> HttpReport \<Rightarrow> HttpSession \<Rightarrow> HttpSession" where
  "http_completed op r s =
     (if hr_ec r \<noteq> no_error then http_Finish False [] (http_stage op @ message (hr_ec r)) s
      else case op of
        HttpResolve \<Rightarrow> http_OnResolve s
      | HttpConnect \<Rightarrow> http_OnConnect (hr_sni r) s
      | HttpTls \<Rightarrow> http_Write s
      | HttpWrite \<Rightarrow> http_Read s
      | HttpRead \<Rightarrow> http_OnResponse (hr_status r) (hr_body r) s)"

definition HttpGet :: "string \<Rightarrow> HttpSession" where
  "HttpGet url =
     (let s = \<lparr>hs_url = None, hs_request = None, hs_done = False, hs_op = None, hs_calls = []\<rparr>;
          malformed = s\<lparr>hs_calls := [(False, [], ''malformed url: '' @ url)]\<rparr>
      in case ParseUrl url of
           None \<Rightarrow> malformed
         | Some u \<Rightarrow>
             if url_scheme u \<noteq> ''http'' \<and> url_scheme u \<noteq> ''https'' then malformed
             else http_Run u (s\<lparr>hs_url := Some u\<rparr>))"

fun http_run :: "HttpSession \<Rightarrow> HttpReport list \<Rightarrow> HttpSession" where
  "http_run s [] = s"
| "http_run s (r # rs) =
     (case hs_op s of None \<Rightarrow> s | Some op \<Rightarrow> http_run (http_completed op r (s\<lparr>hs_op := None\<rparr>)) rs)"

section \<open>Reference\<close>

text \<open>What the handler should be told: success exactly when every stage succeeds and the status is 200.\<close>

definition http_stages :: "Url \<Rightarrow> nat" where
  "http_stages u = (if url_secure u then 5 else 4)"

definition http_succeeds :: "string \<Rightarrow> HttpReport list \<Rightarrow> bool" where
  "http_succeeds url rs \<longleftrightarrow>
     (case ParseUrl url of
        None \<Rightarrow> False
      | Some u \<Rightarrow>
          (url_scheme u = ''http'' \<or> url_scheme u = ''https'') \<and>
          list_all (\<lambda>r. hr_ec r = no_error) (take (http_stages u) rs) \<and>
          (url_secure u \<longrightarrow> hr_sni (rs ! 1)) \<and> hr_status (rs ! (http_stages u - 1)) = 200)"

definition http_answer :: "string \<Rightarrow> HttpReport list \<Rightarrow> string" where
  "http_answer url rs = (case ParseUrl url of None \<Rightarrow> [] | Some u \<Rightarrow> hr_body (rs ! (http_stages u - 1)))"

lemmas http_handlers = http_completed_def http_start_def http_Finish_def http_OnResolve_def http_Write_def
  http_Read_def http_OnConnect_def http_OnTlsConnect_def http_OnResponse_def

section \<open>Properties\<close>

text \<open>C29: whatever the library reports, after at most five completions nothing is outstanding and the
  handler has been called exactly once; it is told of success exactly when the URL is an HTTP one,
  every stage succeeded and the status was 200, and then it is given the response's body.\<close>

theorem HttpGet_calls_back_once:
  assumes "length rs = 5"
  shows "\<exists>ok body error. hs_calls (http_run (HttpGet url) rs) = [(ok, body, error)] \<and>
     hs_op (http_run (HttpGet url) rs) = None \<and>
     ok = http_succeeds url rs \<and> body = (if ok then http_answer url rs else [])"
proof -
  obtain a b c d e where rs: "rs = [a, b, c, d, e]" using assms by (auto simp: length_Suc_conv eval_nat_numeral)
  show ?thesis
  proof (cases "ParseUrl url")
    case None
    then show ?thesis by (auto simp: rs HttpGet_def http_succeeds_def)
  next
    case (Some u)
    then show ?thesis
      by (cases "url_scheme u = ''http'' \<or> url_scheme u = ''https''"; cases "url_secure u")
        (auto simp: rs HttpGet_def http_Run_def http_handlers http_succeeds_def http_answer_def http_stages_def)
  qed
qed

theorem HttpGet_calls_back_once_witness:
  "hs_calls (http_run (HttpGet ''https://h/x'') (replicate 5 \<lparr>hr_ec = no_error, hr_sni = True, hr_status = 429, hr_body = ''b''\<rparr>))
     = [(False, [], ''http status 429'')]"
proof -
  let ?s = "http_run (HttpGet ''https://h/x'')
    (replicate 5 \<lparr>hr_ec = no_error, hr_sni = True, hr_status = 429, hr_body = ''b''\<rparr>)"
  have "hs_calls ?s = [(False, [], ''http status 429'')]" by code_simp
  with HttpGet_calls_back_once [of "replicate 5 \<lparr>hr_ec = no_error, hr_sni = True, hr_status = 429, hr_body = ''b''\<rparr>" "''https://h/x''"]
  show ?thesis by simp
qed

end
