(* ===== verification/Runner.thy ===== *)
theory Runner
  imports Feed Retry Asio
begin

text \<open>
  The venue runner (\<^verbatim>\<open>src/venues/runner.h\<close>, \<^verbatim>\<open>src/venues/runner.cc\<close>): connection, reconnect,
  resync policy, rate limit and statistics of one venue, over any venue protocol. All handlers run on
  the runner's own thread, one after the other, and each is a function here; what a handler asks of
  the connections, the HTTP client and the timers is recorded in \<open>rn_acts\<close>, together with the
  inputs the protocol accepted, its resets, and what the ring took.

  A connection is named by the generation of the \<^verbatim>\<open>Connect\<close> that made it. \<^verbatim>\<open>WsConnection\<close> and
  \<^verbatim>\<open>HttpGet\<close> may call back before they return (a malformed URL, a close before the handshake); every such
  call is the last thing its caller does that depends on the runner's state (after a reset no protocol
  is in sync), so a callback is always an event of its own here. The theory \<open>Venue_Thread\<close> puts the
  runner together with the connections, requests and timers it acts on.

  Clock readings are arguments: nanoseconds of the steady clock. Delays are milliseconds, the silence
  timeout and its half are seconds, as the types of the source have it.
\<close>

section \<open>Data\<close>

record RunnerOptions =
  ro_ca_file :: string
  ro_reconnect_initial :: i64
  ro_reconnect_max :: i64
  ro_max_resyncs_per_minute :: int
  ro_silence_timeout :: i64

definition default_runner_options :: RunnerOptions where
  "default_runner_options =
     \<lparr>ro_ca_file = [], ro_reconnect_initial = 500, ro_reconnect_max = 30000, ro_max_resyncs_per_minute = 6,
      ro_silence_timeout = 30\<rparr>"

datatype RunnerAct =
    ActOpen u64 string
  | ActSend u64 string
  | ActStartKeepalive u64 string int
  | ActClose u64
  | ActHttpGet string i64
  | ActReconnectAfter i64
  | ActWatchdogAfter i64
  | ActCancelTimers
  | ActReset
  | ActInput VenueInput
  | ActPushed FeedBatch

record ('s, 'g) VenueRunner =
  rn_venue_index :: nat
  rn_options :: RunnerOptions
  rn_protocol :: 's
  rn_ring :: FeedRing
  rn_connection :: "u64 option"
  rn_stats :: VenueStats
  rn_backoff :: "'g ExponentialBackoff"
  rn_resync_budget :: RateBudget
  rn_last_activity :: i64
  rn_stopping :: bool
  rn_io_stopped :: bool
  rn_reconnect_generation :: u64
  rn_logged_live :: bool
  rn_acts :: "RunnerAct list"

definition minute_ns :: i64 where
  "minute_ns = 60 * 1000000000"

definition new_runner :: "nat \<Rightarrow> 's \<Rightarrow> FeedRing \<Rightarrow> RunnerOptions \<Rightarrow> 'g \<Rightarrow> i64 \<Rightarrow> ('s, 'g) VenueRunner" where
  "new_runner venue_index protocol ring options seed now =
     \<lparr>rn_venue_index = venue_index, rn_options = options, rn_protocol = protocol, rn_ring = ring,
      rn_connection = None, rn_stats = default_stats,
      rn_backoff = new_backoff (ro_reconnect_initial options) (ro_reconnect_max options) seed,
      rn_resync_budget = new_budget (ro_max_resyncs_per_minute options) minute_ns,
      rn_last_activity = now, rn_stopping = False, rn_io_stopped = False,
      rn_reconnect_generation = 0, rn_logged_live = False, rn_acts = []\<rparr>"

section \<open>Operations\<close>

definition act :: "RunnerAct \<Rightarrow> ('s, 'g) VenueRunner \<Rightarrow> ('s, 'g) VenueRunner" where
  "act a r = r\<lparr>rn_acts := rn_acts r @ [a]\<rparr>"

definition SetState :: "VenueState \<Rightarrow> ('s, 'g) VenueRunner \<Rightarrow> ('s, 'g) VenueRunner" where
  "SetState state r = r\<lparr>rn_stats := (rn_stats r)\<lparr>vs_state := state\<rparr>\<rparr>"

definition bump :: "(VenueStats \<Rightarrow> VenueStats) \<Rightarrow> ('s, 'g) VenueRunner \<Rightarrow> ('s, 'g) VenueRunner" where
  "bump f r = r\<lparr>rn_stats := f (rn_stats r)\<rparr>"

text \<open>\<^verbatim>\<open>if (connection_) connection_->Close()\<close>.\<close>

definition close_connection :: "('s, 'g) VenueRunner \<Rightarrow> ('s, 'g) VenueRunner" where
  "close_connection r = (case rn_connection r of None \<Rightarrow> r | Some g \<Rightarrow> act (ActClose g) r)"

definition reset_protocol :: "'s VenueProtocol \<Rightarrow> ('s, 'g) VenueRunner \<Rightarrow> ('s, 'g) VenueRunner" where
  "reset_protocol p r = act ActReset (r\<lparr>rn_protocol := vp_Reset p (rn_protocol r)\<rparr>)"

definition ArmWatchdog :: "('s, 'g) VenueRunner \<Rightarrow> ('s, 'g) VenueRunner" where
  "ArmWatchdog r =
     (if rn_stopping r then r else act (ActWatchdogAfter (ro_silence_timeout (rn_options r) sdiv 2)) r)"

definition Connect :: "'s VenueProtocol \<Rightarrow> i64 \<Rightarrow> ('s, 'g) VenueRunner \<Rightarrow> ('s, 'g) VenueRunner" where
  "Connect p now r =
     (if rn_stopping r \<or> vs_fatal (rn_stats r) then r
      else
        let r1 = reset_protocol p (SetState kConnecting (r\<lparr>rn_logged_live := False\<rparr>));
            generation = rn_reconnect_generation r1 + 1;
            r2 = act (ActOpen generation (vp_stream_url p))
                   (r1\<lparr>rn_reconnect_generation := generation, rn_connection := Some generation\<rparr>)
        in ArmWatchdog (r2\<lparr>rn_last_activity := now\<rparr>))"

definition MarkHealthy :: "('s, 'g) VenueRunner \<Rightarrow> ('s, 'g) VenueRunner" where
  "MarkHealthy r = r\<lparr>rn_logged_live := True, rn_backoff := Reset_backoff (rn_backoff r)\<rparr>"

definition ScheduleReconnect ::
  "('g \<Rightarrow> int \<Rightarrow> int \<Rightarrow> int \<times> 'g) \<Rightarrow> ('s, 'g) VenueRunner \<Rightarrow> ('s, 'g) VenueRunner" where
  "ScheduleReconnect draw r =
     (if rn_stopping r \<or> vs_fatal (rn_stats r) then r
      else let (backoff, delay) = Next draw (rn_backoff r)
           in act (ActReconnectAfter delay) (r\<lparr>rn_backoff := backoff\<rparr>))"

definition runner_OnClose ::
  "('g \<Rightarrow> int \<Rightarrow> int \<Rightarrow> int \<times> 'g) \<Rightarrow> ('s, 'g) VenueRunner \<Rightarrow> ('s, 'g) VenueRunner" where
  "runner_OnClose draw r =
     (let r1 = SetState kDisconnected r
      in if rn_stopping r1 \<or> vs_fatal (rn_stats r1) then r1 else ScheduleReconnect draw r1)"

definition ConsumeResyncToken :: "i64 \<Rightarrow> ('s, 'g) VenueRunner \<Rightarrow> ('s, 'g) VenueRunner \<times> bool" where
  "ConsumeResyncToken now r =
     (let (budget, ok) = TryConsume (rn_resync_budget r) now in (r\<lparr>rn_resync_budget := budget\<rparr>, ok))"

definition FetchSnapshot ::
  "'s VenueProtocol \<Rightarrow> ('g \<Rightarrow> int \<Rightarrow> int \<Rightarrow> int \<times> 'g) \<Rightarrow> i64 \<Rightarrow> ('s, 'g) VenueRunner \<Rightarrow> ('s, 'g) VenueRunner" where
  "FetchSnapshot p draw now r =
     (if rn_stopping r then r
      else let (r1, ok) = ConsumeResyncToken now r
           in if \<not> ok then ScheduleReconnect draw r1
              else act (ActHttpGet (vp_RestSnapshotUrl p) now) r1)"

definition Resync ::
  "'s VenueProtocol \<Rightarrow> ('g \<Rightarrow> int \<Rightarrow> int \<Rightarrow> int \<times> 'g) \<Rightarrow> i64 \<Rightarrow> ('s, 'g) VenueRunner \<Rightarrow> ('s, 'g) VenueRunner" where
  "Resync p draw now r =
     (let r1 = reset_protocol p (SetState kSyncing (bump (\<lambda>st. st\<lparr>vs_resyncs := vs_resyncs st + 1\<rparr>) r))
      in if vp_needs_rest_snapshot p then FetchSnapshot p draw now r1 else close_connection r1)"

definition runner_Publish ::
  "'s VenueProtocol \<Rightarrow> ('g \<Rightarrow> int \<Rightarrow> int \<Rightarrow> int \<times> 'g) \<Rightarrow> i64 \<Rightarrow> FeedUpdate list \<Rightarrow> ('s, 'g) VenueRunner \<Rightarrow>
     ('s, 'g) VenueRunner" where
  "runner_Publish p draw now updates r =
     (if updates = [] then r
      else
        let batch = \<lparr>fb_venue_index = rn_venue_index r, fb_updates = updates\<rparr>;
            (ring, ok) = Push (rn_ring r) batch
        in if \<not> ok
           then Resync p draw now (bump (\<lambda>st. st\<lparr>vs_ring_overflows := vs_ring_overflows st + 1\<rparr>) (r\<lparr>rn_ring := ring\<rparr>))
           else act (ActPushed batch) (r\<lparr>rn_ring := ring\<rparr>))"

text \<open>\<^verbatim>\<open>if (protocol_->synced())\<close>: the venue is live.\<close>

definition live_if_synced :: "'s VenueProtocol \<Rightarrow> ('s, 'g) VenueRunner \<Rightarrow> ('s, 'g) VenueRunner" where
  "live_if_synced p r = (if vp_synced p (rn_protocol r) then MarkHealthy (SetState kLive r) else r)"

text \<open>The completion handler of the snapshot request.\<close>

definition on_snapshot ::
  "'s VenueProtocol \<Rightarrow> ('g \<Rightarrow> int \<Rightarrow> int \<Rightarrow> int \<times> 'g) \<Rightarrow> bool \<Rightarrow> string \<Rightarrow> i64 \<Rightarrow> i64 \<Rightarrow> ('s, 'g) VenueRunner \<Rightarrow>
     ('s, 'g) VenueRunner" where
  "on_snapshot p draw ok body recv now r =
     (if rn_stopping r then r
      else if \<not> ok then runner_OnClose draw r
      else
        let (s, verdict, updates) = vp_OnRestSnapshot p (rn_protocol r) body recv;
            r1 = r\<lparr>rn_protocol := s\<rparr>
        in if verdict \<noteq> kOk then Resync p draw now r1
           else live_if_synced p (runner_Publish p draw now updates (act (ActInput (RestBody body recv)) r1)))"

definition runner_OnOpen ::
  "'s VenueProtocol \<Rightarrow> ('g \<Rightarrow> int \<Rightarrow> int \<Rightarrow> int \<times> 'g) \<Rightarrow> i64 \<Rightarrow> ('s, 'g) VenueRunner \<Rightarrow> ('s, 'g) VenueRunner" where
  "runner_OnOpen p draw now r =
     (let r1 = SetState kSyncing r;
          r2 = (case rn_connection r1 of
                  None \<Rightarrow> r1
                | Some g \<Rightarrow>
                    act (ActStartKeepalive g (vp_KeepaliveFrame p) (vp_keepalive_interval p))
                      (foldl (\<lambda>r frame. act (ActSend g frame) r) r1 (vp_SubscribeFrames p)))
      in if vp_needs_rest_snapshot p then FetchSnapshot p draw now r2 else r2)"

definition runner_OnFrame ::
  "'s VenueProtocol \<Rightarrow> ('g \<Rightarrow> int \<Rightarrow> int \<Rightarrow> int \<times> 'g) \<Rightarrow> string \<Rightarrow> i64 \<Rightarrow> i64 \<Rightarrow> ('s, 'g) VenueRunner \<Rightarrow>
     ('s, 'g) VenueRunner" where
  "runner_OnFrame p draw frame recv now r =
     (let r0 = bump (\<lambda>st. st\<lparr>vs_messages := vs_messages st + 1, vs_last_recv_ts_ns := recv\<rparr>)
                 (r\<lparr>rn_last_activity := now\<rparr>);
          (s, verdict, updates) = vp_OnFrame p (rn_protocol r0) frame recv;
          r1 = r0\<lparr>rn_protocol := s\<rparr>
      in case verdict of
           kNeedsResync \<Rightarrow>
             Resync p draw now (bump (\<lambda>st. st\<lparr>vs_sequence_gaps := vs_sequence_gaps st + 1\<rparr>) r1)
         | kParseError \<Rightarrow>
             Resync p draw now (bump (\<lambda>st. st\<lparr>vs_parse_errors := vs_parse_errors st + 1\<rparr>) r1)
         | kFatal \<Rightarrow>
             close_connection (SetState kDisconnected (bump (\<lambda>st. st\<lparr>vs_fatal := True\<rparr>) r1))
         | kOk \<Rightarrow>
             let r2 = act (ActInput (WsFrame frame recv)) r1
             in if updates = [] then r2
                else
                  let r3 = (if exchange_ts_ns (last updates) \<noteq> 0
                            then bump (\<lambda>st. st\<lparr>vs_last_exchange_ts_ns := exchange_ts_ns (last updates)\<rparr>) r2 else r2)
                  in live_if_synced p (runner_Publish p draw now updates r3))"

text \<open>The handlers of the two timers.\<close>

definition on_watchdog :: "error_code \<Rightarrow> i64 \<Rightarrow> ('s, 'g) VenueRunner \<Rightarrow> ('s, 'g) VenueRunner" where
  "on_watchdog ec now r =
     (if ec \<noteq> no_error \<or> rn_stopping r \<or> vs_fatal (rn_stats r) then r
      else if now - rn_last_activity r \<ge> ro_silence_timeout (rn_options r) * 1000000000
      then close_connection (SetState kStale r)
      else ArmWatchdog r)"

definition on_reconnect_timer ::
  "'s VenueProtocol \<Rightarrow> error_code \<Rightarrow> i64 \<Rightarrow> ('s, 'g) VenueRunner \<Rightarrow> ('s, 'g) VenueRunner" where
  "on_reconnect_timer p ec now r = (if ec \<noteq> no_error \<or> rn_stopping r then r else Connect p now r)"

text \<open>The callback \<^verbatim>\<open>on_close\<close> that \<^verbatim>\<open>Connect\<close> gives to the connection of a generation.\<close>

definition on_close_callback ::
  "('g \<Rightarrow> int \<Rightarrow> int \<Rightarrow> int \<times> 'g) \<Rightarrow> u64 \<Rightarrow> ('s, 'g) VenueRunner \<Rightarrow> ('s, 'g) VenueRunner" where
  "on_close_callback draw generation r =
     (if generation \<noteq> rn_reconnect_generation r then r else runner_OnClose draw r)"

text \<open>\<^verbatim>\<open>Stop\<close>: the flag is set at once, the rest is posted to the runner's thread.\<close>

definition request_stop :: "('s, 'g) VenueRunner \<Rightarrow> ('s, 'g) VenueRunner" where
  "request_stop r = r\<lparr>rn_stopping := True\<rparr>"

definition perform_stop :: "('s, 'g) VenueRunner \<Rightarrow> ('s, 'g) VenueRunner" where
  "perform_stop r = (close_connection (act ActCancelTimers r))\<lparr>rn_io_stopped := True\<rparr>"

section \<open>Events\<close>

datatype RunnerEvent =
    EvStart i64
  | EvOpen i64
  | EvFrame string i64 i64
  | EvClosed u64
  | EvSnapshot bool string i64 i64
  | EvReconnect error_code i64
  | EvWatchdog error_code i64
  | EvStop
  | EvStopPosted

fun runner_handle ::
  "'s VenueProtocol \<Rightarrow> ('g \<Rightarrow> int \<Rightarrow> int \<Rightarrow> int \<times> 'g) \<Rightarrow> ('s, 'g) VenueRunner \<Rightarrow> RunnerEvent \<Rightarrow>
     ('s, 'g) VenueRunner" where
  "runner_handle p draw r (EvStart now) = Connect p now r"
| "runner_handle p draw r (EvOpen now) = runner_OnOpen p draw now r"
| "runner_handle p draw r (EvFrame frame recv now) = runner_OnFrame p draw frame recv now r"
| "runner_handle p draw r (EvClosed generation) = on_close_callback draw generation r"
| "runner_handle p draw r (EvSnapshot ok body recv now) = on_snapshot p draw ok body recv now r"
| "runner_handle p draw r (EvReconnect ec now) = on_reconnect_timer p ec now r"
| "runner_handle p draw r (EvWatchdog ec now) = on_watchdog ec now r"
| "runner_handle p draw r EvStop = request_stop r"
| "runner_handle p draw r EvStopPosted = perform_stop r"

text \<open>Once the context is stopped no handler runs. Events may come in any order and number.\<close>

definition runner_event ::
  "'s VenueProtocol \<Rightarrow> ('g \<Rightarrow> int \<Rightarrow> int \<Rightarrow> int \<times> 'g) \<Rightarrow> ('s, 'g) VenueRunner \<Rightarrow> RunnerEvent \<Rightarrow>
     ('s, 'g) VenueRunner" where
  "runner_event p draw r e = (if rn_io_stopped r then r else runner_handle p draw r e)"

definition runner_run ::
  "'s VenueProtocol \<Rightarrow> ('g \<Rightarrow> int \<Rightarrow> int \<Rightarrow> int \<times> 'g) \<Rightarrow> ('s, 'g) VenueRunner \<Rightarrow> RunnerEvent list \<Rightarrow>
     ('s, 'g) VenueRunner" where
  "runner_run p draw r es = foldl (runner_event p draw) r es"

section \<open>The record of a run\<close>

text \<open>
  \<open>session_log\<close>: the inputs accepted and the updates pushed since the last reset;
  \<open>pushed_updates\<close>: everything the ring ever took; \<open>request_times\<close>: when snapshots were
  requested; \<open>attempts\<close>: the connections opened and the reconnects scheduled.
\<close>

fun log_step :: "VenueInput list \<times> FeedUpdate list \<Rightarrow> RunnerAct \<Rightarrow> VenueInput list \<times> FeedUpdate list" where
  "log_step (is, us) ActReset = ([], [])"
| "log_step (is, us) (ActInput i) = (is @ [i], us)"
| "log_step (is, us) (ActPushed batch) = (is, us @ fb_updates batch)"
| "log_step (is, us) a = (is, us)"

definition session_log :: "RunnerAct list \<Rightarrow> VenueInput list \<times> FeedUpdate list" where
  "session_log acts = foldl log_step ([], []) acts"

fun pushed_updates :: "RunnerAct list \<Rightarrow> FeedUpdate list" where
  "pushed_updates [] = []"
| "pushed_updates (ActPushed batch # acts) = fb_updates batch @ pushed_updates acts"
| "pushed_updates (a # acts) = pushed_updates acts"

fun pushed_batches :: "RunnerAct list \<Rightarrow> FeedBatch list" where
  "pushed_batches [] = []"
| "pushed_batches (ActPushed batch # acts) = batch # pushed_batches acts"
| "pushed_batches (a # acts) = pushed_batches acts"

fun request_times :: "RunnerAct list \<Rightarrow> i64 list" where
  "request_times [] = []"
| "request_times (ActHttpGet url now # acts) = now # request_times acts"
| "request_times (a # acts) = request_times acts"

fun is_attempt :: "RunnerAct \<Rightarrow> bool" where
  "is_attempt (ActOpen generation url) \<longleftrightarrow> True"
| "is_attempt (ActReconnectAfter delay) \<longleftrightarrow> True"
| "is_attempt a \<longleftrightarrow> False"

definition attempts :: "RunnerAct list \<Rightarrow> RunnerAct list" where
  "attempts acts = filter is_attempt acts"

lemma session_log_append [simp]:
  "session_log [] = ([], [])" "session_log (acts @ acts') = foldl log_step (session_log acts) acts'"
  by (simp_all add: session_log_def)

lemma log_append [simp]:
  "pushed_updates (xs @ ys) = pushed_updates xs @ pushed_updates ys"
  "request_times (xs @ ys) = request_times xs @ request_times ys"
  "pushed_batches (xs @ ys) = pushed_batches xs @ pushed_batches ys"
proof -
  show "pushed_batches (xs @ ys) = pushed_batches xs @ pushed_batches ys" by (induction xs rule: pushed_batches.induct) auto
  show "pushed_updates (xs @ ys) = pushed_updates xs @ pushed_updates ys" by (induction xs rule: pushed_updates.induct) auto
  show "request_times (xs @ ys) = request_times xs @ request_times ys" by (induction xs rule: request_times.induct) auto
qed

lemma pushed_updates_batches: "pushed_updates acts = concat (map fb_updates (pushed_batches acts))"
  by (induction acts rule: pushed_updates.induct) simp_all

lemma log_step_quiet [simp]:
  "log_step l (ActOpen g u) = l" "log_step l (ActSend g f) = l" "log_step l (ActStartKeepalive g f n) = l"
  "log_step l (ActClose g) = l" "log_step l (ActHttpGet u now) = l" "log_step l (ActReconnectAfter d) = l"
  "log_step l (ActWatchdogAfter d) = l" "log_step l ActCancelTimers = l"
  "log_step l ActReset = ([], [])" "log_step l (ActInput i) = (fst l @ [i], snd l)"
  "log_step l (ActPushed b) = (fst l, snd l @ fb_updates b)"
  by (cases l; simp)+

text \<open>What was pushed since the last reset is the last part of all that was pushed.\<close>

lemma session_log_suffix: "\<exists>old. pushed_updates acts = old @ snd (session_log acts)"
proof (induction acts rule: rev_induct)
  case (snoc a acts)
  then show ?case by (cases a) auto
qed simp

lemma session_log_subset: "set (fst (session_log acts)) \<subseteq> {i. ActInput i \<in> set acts}"
proof (induction acts rule: rev_induct)
  case (snoc a acts)
  then show ?case by (cases a) auto
qed simp

section \<open>Frames\<close>

text \<open>Handlers that touch neither the protocol nor the ring.\<close>

definition keeps :: "('s, 'g) VenueRunner \<Rightarrow> ('s, 'g) VenueRunner \<Rightarrow> bool" where
  "keeps r r' \<longleftrightarrow>
     rn_protocol r' = rn_protocol r \<and> rn_ring r' = rn_ring r \<and> rn_venue_index r' = rn_venue_index r \<and>
     session_log (rn_acts r') = session_log (rn_acts r) \<and> pushed_updates (rn_acts r') = pushed_updates (rn_acts r) \<and>
     pushed_batches (rn_acts r') = pushed_batches (rn_acts r)"

lemma keeps_refl [simp]: "keeps r r"
  by (simp add: keeps_def)

lemma keeps_trans: "keeps a b \<Longrightarrow> keeps b c \<Longrightarrow> keeps a c"
  by (simp add: keeps_def)

lemmas runner_prims = act_def SetState_def bump_def close_connection_def MarkHealthy_def

lemma keeps_prims [simp]:
  "keeps r (SetState st r)" "keeps r (bump f r)" "keeps r (close_connection r)" "keeps r (MarkHealthy r)"
  "keeps r (ArmWatchdog r)" "keeps r (ScheduleReconnect draw r)" "keeps r (fst (ConsumeResyncToken now r))"
  by (auto simp: keeps_def runner_prims ArmWatchdog_def ScheduleReconnect_def ConsumeResyncToken_def
      split_beta Let_def split: option.splits)

lemma keeps_OnClose: "keeps r (runner_OnClose draw r)"
  using keeps_trans [OF keeps_prims(1) keeps_prims(6)] by (auto simp: runner_OnClose_def Let_def)

lemma keeps_FetchSnapshot: "keeps r (FetchSnapshot p draw now r)"
proof -
  obtain r1 ok where c: "ConsumeResyncToken now r = (r1, ok)" by fastforce
  have k: "keeps r r1" using keeps_prims(7) [of r now] c by simp
  moreover have "keeps r1 (act (ActHttpGet u now) r1)" for u by (simp add: keeps_def act_def)
  ultimately show ?thesis using keeps_trans [OF k] by (auto simp: FetchSnapshot_def c)
qed

lemma keeps_sends: "keeps r (foldl (\<lambda>r frame. act (ActSend g frame) r) r frames)"
proof (induction frames arbitrary: r)
  case (Cons f frames)
  have "keeps r (act (ActSend g f) r)" by (simp add: keeps_def act_def)
  from keeps_trans [OF this Cons.IH] show ?case by simp
qed simp

lemma keeps_OnOpen: "keeps r (runner_OnOpen p draw now r)"
proof -
  let ?r1 = "SetState kSyncing r"
  let ?sent = "\<lambda>g. foldl (\<lambda>r frame. act (ActSend g frame) r) ?r1 (vp_SubscribeFrames p)"
  let ?keep = "\<lambda>g. act (ActStartKeepalive g (vp_KeepaliveFrame p) (vp_keepalive_interval p)) (?sent g)"
  have "keeps (?sent g) (?keep g)" for g by (simp add: keeps_def act_def)
  then have some: "keeps r (?keep g)" for g
    using keeps_trans [OF keeps_prims(1) keeps_trans [OF keeps_sends]] by blast
  show ?thesis
    using some keeps_trans [OF some keeps_FetchSnapshot] keeps_trans [OF keeps_prims(1) [of r] keeps_FetchSnapshot]
    by (simp add: runner_OnOpen_def Let_def split: option.splits)
qed

lemma keeps_watchdog: "keeps r (on_watchdog ec now r)"
  using keeps_trans [OF keeps_prims(1) keeps_prims(3)] by (auto simp: on_watchdog_def)

lemma keeps_close_callback: "keeps r (on_close_callback draw g r)"
  by (simp add: on_close_callback_def keeps_OnClose)

lemma keeps_stop: "keeps r (request_stop r)" "keeps r (perform_stop r)"
  by (auto simp: keeps_def request_stop_def perform_stop_def runner_prims split: option.splits)

text \<open>Handlers that leave the statistics alone.\<close>

lemma same_stats [simp]:
  "rn_stats (act a r) = rn_stats r" "rn_stats (close_connection r) = rn_stats r" "rn_stats (ArmWatchdog r) = rn_stats r"
  "rn_stats (ScheduleReconnect draw r) = rn_stats r" "rn_stats (fst (ConsumeResyncToken now r)) = rn_stats r"
  "rn_stats (MarkHealthy r) = rn_stats r" "rn_stats (reset_protocol p r) = rn_stats r"
  by (auto simp: runner_prims ArmWatchdog_def ScheduleReconnect_def ConsumeResyncToken_def reset_protocol_def
      split_beta Let_def split: option.splits)

lemma FetchSnapshot_stats [simp]: "rn_stats (FetchSnapshot p draw now r) = rn_stats r"
  using same_stats(5) [of now r] by (simp add: FetchSnapshot_def split_beta Let_def)

lemma set_stats [simp]:
  "rn_stats (SetState st r) = (rn_stats r)\<lparr>vs_state := st\<rparr>" "rn_stats (bump f r) = f (rn_stats r)"
  by (simp_all add: SetState_def bump_def)

lemma sends_stats [simp]: "rn_stats (foldl (\<lambda>r frame. act (ActSend g frame) r) r frames) = rn_stats r"
  by (induction frames arbitrary: r) simp_all

section \<open>The protocol's session\<close>

lemma session_snoc:
  assumes "session p s is = Some (s1, us)" "venue_input p s1 i = (s2, kOk, us')"
  shows "session p s (is @ [i]) = Some (s2, us @ us')"
  using assms(1)
proof (induction "is" arbitrary: s us)
  case Nil
  with assms(2) show ?case by simp
next
  case (Cons j "is")
  then obtain s' us1 us2 where "venue_input p s j = (s', kOk, us1)" "session p s' is = Some (s1, us2)" "us = us1 @ us2"
    by (auto simp: Let_def split: prod.splits if_splits)
  with Cons.IH [of s' us2] show ?case by simp
qed

text \<open>The input an event brings to the protocol, if any.\<close>

fun event_brings :: "(VenueInput \<Rightarrow> bool) \<Rightarrow> RunnerEvent \<Rightarrow> bool" where
  "event_brings Q (EvFrame frame recv now) = Q (WsFrame frame recv)"
| "event_brings Q (EvSnapshot ok body recv now) = (ok \<longrightarrow> Q (RestBody body recv))"
| "event_brings Q e = True"

text \<open>
  What the runner relies on beside the protocol's contract: \<open>P\<close> is what is known of the inputs,
  and a snapshot body leaves the protocol synchronised only with a baseline.
\<close>

locale venue_runner = venue_protocol p ready inv
  for p :: "'s VenueProtocol" and ready :: "'s \<Rightarrow> bool" and inv :: "'s \<Rightarrow> bool" +
  fixes P :: "VenueInput \<Rightarrow> bool"
  assumes rest_ready: "inv s \<Longrightarrow> P (RestBody body recv) \<Longrightarrow> vp_OnRestSnapshot p s body recv = (s', kOk, us) \<Longrightarrow>
    vp_synced p s' \<Longrightarrow> ready s'"
begin

text \<open>
  Unless the venue has failed for good, the protocol is where the inputs accepted since the last
  reset have brought it, and the ring has taken exactly the updates that session produced.
\<close>

definition tracks :: "('s, 'g) VenueRunner \<Rightarrow> bool" where
  "tracks r \<longleftrightarrow>
     (\<exists>s0. session p (vp_Reset p s0) (fst (session_log (rn_acts r))) =
             Some (rn_protocol r, snd (session_log (rn_acts r))))"

definition runner_inv :: "('s, 'g) VenueRunner \<Rightarrow> bool" where
  "runner_inv r \<longleftrightarrow>
     inv (rn_protocol r) \<and> list_all update_ok (pushed_updates (rn_acts r)) \<and>
     list_all P (fst (session_log (rn_acts r))) \<and>
     (\<not> vs_fatal (rn_stats r) \<longrightarrow> tracks r) \<and>
     (vs_state (rn_stats r) = kLive \<longrightarrow> ready (rn_protocol r))"

lemma inv_keeps:
  assumes "runner_inv r" "keeps r r'" "vs_fatal (rn_stats r) \<Longrightarrow> vs_fatal (rn_stats r')"
    and "vs_state (rn_stats r') = kLive \<Longrightarrow> vs_state (rn_stats r) = kLive"
  shows "runner_inv r'"
  using assms by (auto simp: runner_inv_def keeps_def tracks_def)

lemma reset_inv:
  assumes "list_all update_ok (pushed_updates (rn_acts r))" "vs_state (rn_stats r) \<noteq> kLive"
  shows "runner_inv (reset_protocol p r)"
  using assms reset_fresh [of "rn_protocol r"]
  by (auto simp: runner_inv_def tracks_def reset_protocol_def act_def)

lemma Resync_inv:
  assumes "list_all update_ok (pushed_updates (rn_acts r))"
  shows "runner_inv (Resync p draw now r)"
proof -
  let ?r = "SetState kSyncing (bump (\<lambda>st. st\<lparr>vs_resyncs := vs_resyncs st + 1\<rparr>) r)"
  have "pushed_updates (rn_acts ?r) = pushed_updates (rn_acts r)" by (simp add: runner_prims)
  with assms have inv: "runner_inv (reset_protocol p ?r)" by (intro reset_inv) simp_all
  from inv_keeps [OF inv keeps_FetchSnapshot] inv_keeps [OF inv keeps_prims(3)] show ?thesis
    by (simp add: Resync_def Let_def)
qed

text \<open>A batch the protocol just produced is pushed, or the ring is full and everything starts over.\<close>

lemma Publish_inv:
  assumes "inv (rn_protocol r)" "list_all update_ok (pushed_updates (rn_acts r))" "list_all update_ok updates"
    and "list_all P (fst (session_log (rn_acts r)))"
    and "\<not> vs_fatal (rn_stats r) \<Longrightarrow> \<exists>s0. session p (vp_Reset p s0) (fst (session_log (rn_acts r))) =
           Some (rn_protocol r, snd (session_log (rn_acts r)) @ updates)"
    and "vs_state (rn_stats r) = kLive \<Longrightarrow> ready (rn_protocol r)"
  shows "runner_inv (runner_Publish p draw now updates r)"
proof (cases "updates = []")
  case True
  with assms show ?thesis by (simp add: runner_Publish_def runner_inv_def tracks_def)
next
  case False
  let ?batch = "\<lparr>fb_venue_index = rn_venue_index r, fb_updates = updates\<rparr>"
  obtain ring ok where push: "Push (rn_ring r) ?batch = (ring, ok)" by fastforce
  let ?full = "bump (\<lambda>st. st\<lparr>vs_ring_overflows := vs_ring_overflows st + 1\<rparr>) (r\<lparr>rn_ring := ring\<rparr>)"
  have "runner_inv (Resync p draw now ?full)" using assms(2) by (intro Resync_inv) (simp add: bump_def)
  moreover have "runner_inv (act (ActPushed ?batch) (r\<lparr>rn_ring := ring\<rparr>))"
    using assms by (simp add: runner_inv_def tracks_def act_def)
  ultimately show ?thesis using False push by (simp add: runner_Publish_def)
qed

lemma Publish_protocol:
  "rn_protocol (runner_Publish p draw now updates r) = rn_protocol r \<or>
   \<not> vp_synced p (rn_protocol (runner_Publish p draw now updates r))"
proof -
  have "\<not> vp_synced p (rn_protocol (Resync p draw now r'))" for r'
    using reset_fresh keeps_FetchSnapshot [of "reset_protocol p (SetState kSyncing (bump (\<lambda>st. st\<lparr>vs_resyncs := vs_resyncs st + 1\<rparr>) r'))" p draw now]
    by (simp add: Resync_def Let_def keeps_def reset_protocol_def runner_prims split: option.splits)
  then show ?thesis by (simp add: runner_Publish_def split_beta Let_def act_def)
qed

lemma live_inv:
  assumes "runner_inv (runner_Publish p draw now updates r)" "vp_synced p (rn_protocol r) \<Longrightarrow> ready (rn_protocol r)"
  shows "runner_inv (live_if_synced p (runner_Publish p draw now updates r))"
proof -
  let ?r = "runner_Publish p draw now updates r"
  have "ready (rn_protocol ?r)" if "vp_synced p (rn_protocol ?r)"
    using Publish_protocol [of draw now updates r] that assms(2) by auto
  with assms(1) show ?thesis by (auto simp: live_if_synced_def runner_inv_def tracks_def runner_prims)
qed

lemma tracks_input:
  assumes "tracks r" "venue_input p (rn_protocol r) i = (s, kOk, updates)"
  shows "\<exists>s0. session p (vp_Reset p s0) (fst (session_log (rn_acts r)) @ [i]) = Some (s, snd (session_log (rn_acts r)) @ updates)"
proof -
  obtain s0 where "session p (vp_Reset p s0) (fst (session_log (rn_acts r))) =
      Some (rn_protocol r, snd (session_log (rn_acts r)))" using assms(1) by (auto simp: tracks_def)
  from session_snoc [OF this assms(2)] show ?thesis by blast
qed

text \<open>An accepted input, recorded and published.\<close>

lemma accepted_inv:
  assumes "runner_inv r" "venue_input p (rn_protocol r) i = (s, kOk, updates)"
    and "P i" and r': "rn_protocol r' = s" "rn_acts r' = rn_acts r @ [ActInput i]"
    and "vs_fatal (rn_stats r') = vs_fatal (rn_stats r)" "vs_state (rn_stats r') = vs_state (rn_stats r)"
  shows "runner_inv (runner_Publish p draw now updates r')"
proof (rule Publish_inv)
  have inv: "inv (rn_protocol r)" and ok: "list_all update_ok (pushed_updates (rn_acts r))"
    using assms(1) by (simp_all add: runner_inv_def)
  show "inv (rn_protocol r')" using input_inv [OF inv assms(2)] by (simp add: r')
  show "list_all update_ok (pushed_updates (rn_acts r'))" using ok by (simp add: r')
  show "list_all P (fst (session_log (rn_acts r')))" using assms(1,3) by (simp add: r' runner_inv_def)
  show "list_all update_ok updates" using input_valid [OF inv assms(2)] .
  show "\<exists>s0. session p (vp_Reset p s0) (fst (session_log (rn_acts r'))) =
      Some (rn_protocol r', snd (session_log (rn_acts r')) @ updates)" if "\<not> vs_fatal (rn_stats r')"
    using that tracks_input [OF _ assms(2)] assms(1) assms(6) by (simp add: r' runner_inv_def)
  show "ready (rn_protocol r')" if "vs_state (rn_stats r') = kLive"
    using that input_baseline [OF inv assms(2)] assms(1) assms(7) by (simp add: r' runner_inv_def)
qed

lemma OnFrame_inv:
  assumes "runner_inv r" "P (WsFrame frame recv)"
  shows "runner_inv (runner_OnFrame p draw frame recv now r)"
proof -
  obtain s v updates where out: "vp_OnFrame p (rn_protocol r) frame recv = (s, v, updates)" by (cases "vp_OnFrame p (rn_protocol r) frame recv")
  then have step: "venue_input p (rn_protocol r) (WsFrame frame recv) = (s, v, updates)" by simp
  have inv: "inv (rn_protocol r)" and ok: "list_all update_ok (pushed_updates (rn_acts r))"
    using assms(1) by (simp_all add: runner_inv_def)
  let ?r1 = "bump (\<lambda>st. st\<lparr>vs_messages := vs_messages st + 1, vs_last_recv_ts_ns := recv\<rparr>)
    (r\<lparr>rn_last_activity := now\<rparr>)\<lparr>rn_protocol := s\<rparr>"
  have out1: "vp_OnFrame p (rn_protocol (bump f (r\<lparr>rn_last_activity := now\<rparr>))) frame recv = (s, v, updates)" for f
    using out by (simp add: bump_def)
  have resync: "runner_inv (Resync p draw now (bump f ?r1))" for f
    using ok by (intro Resync_inv) (simp add: bump_def)
  show ?thesis
  proof (cases v)
    case kOk
    let ?r2 = "act (ActInput (WsFrame frame recv)) ?r1"
    let ?r3 = "bump (\<lambda>st. st\<lparr>vs_last_exchange_ts_ns := exchange_ts_ns (last updates)\<rparr>) ?r2"
    note run = accepted_inv [OF assms(1) step [unfolded kOk] assms(2)]
    have pub: "runner_inv (runner_Publish p draw now updates ?r2)" "runner_inv (runner_Publish p draw now updates ?r3)"
      by (rule run; simp add: bump_def act_def)+
    have r: "rn_protocol ?r2 = s" "rn_protocol ?r3 = s" by (simp_all add: act_def bump_def)
    have "ready s" if "updates \<noteq> []" using input_baseline [OF inv step [unfolded kOk]] that by blast
    with live_inv [OF pub(1)] live_inv [OF pub(2)]
    have "runner_inv (live_if_synced p (runner_Publish p draw now updates ?r2))"
      "runner_inv (live_if_synced p (runner_Publish p draw now updates ?r3))" if "updates \<noteq> []"
      using that by (simp_all add: r)
    moreover have "runner_inv ?r2" if "updates = []" using pub(1) that by (simp add: runner_Publish_def)
    ultimately show ?thesis using kOk by (simp add: runner_OnFrame_def out1 Let_def)
  next
    case kNeedsResync
    with resync show ?thesis by (simp add: runner_OnFrame_def out1 Let_def)
  next
    case kParseError
    with resync show ?thesis by (simp add: runner_OnFrame_def out1 Let_def)
  next
    case kFatal
    have "runner_inv (SetState kDisconnected (bump (\<lambda>st. st\<lparr>vs_fatal := True\<rparr>) ?r1))"
      using assms(1) ok input_inv [OF inv step] by (simp add: runner_inv_def runner_prims)
    from inv_keeps [OF this keeps_prims(3)] kFatal show ?thesis by (simp add: runner_OnFrame_def out1 Let_def)
  qed
qed

lemma on_snapshot_inv:
  assumes "runner_inv r" "ok \<Longrightarrow> P (RestBody body recv)"
  shows "runner_inv (on_snapshot p draw ok body recv now r)"
proof -
  obtain s v updates where out: "vp_OnRestSnapshot p (rn_protocol r) body recv = (s, v, updates)"
    by (cases "vp_OnRestSnapshot p (rn_protocol r) body recv")
  then have step: "venue_input p (rn_protocol r) (RestBody body recv) = (s, v, updates)" by simp
  let ?r1 = "act (ActInput (RestBody body recv)) (r\<lparr>rn_protocol := s\<rparr>)"
  have "runner_inv (Resync p draw now (r\<lparr>rn_protocol := s\<rparr>))"
    using assms(1) by (intro Resync_inv) (simp add: runner_inv_def)
  moreover have "runner_inv (live_if_synced p (runner_Publish p draw now updates ?r1))" if "v = kOk" ok
  proof (rule live_inv)
    show "runner_inv (runner_Publish p draw now updates ?r1)"
      by (rule accepted_inv [OF assms(1) step [unfolded that(1)] assms(2) [OF that(2)]]) (simp_all add: act_def)
    show "ready (rn_protocol ?r1)" if "vp_synced p (rn_protocol ?r1)"
      using that rest_ready [OF _ assms(2) [OF \<open>ok\<close>] out [unfolded \<open>v = kOk\<close>]] assms(1)
      by (simp add: act_def runner_inv_def)
  qed
  moreover have "runner_inv (runner_OnClose draw r)"
    by (rule inv_keeps [OF assms(1) keeps_OnClose]) (simp_all add: runner_OnClose_def Let_def split: if_splits)
  ultimately show ?thesis using assms(1) out by (cases "v = kOk") (simp_all add: on_snapshot_def)
qed

lemma Connect_inv:
  assumes "runner_inv r"
  shows "runner_inv (Connect p now r)"
proof -
  let ?r1 = "reset_protocol p (SetState kConnecting (r\<lparr>rn_logged_live := False\<rparr>))"
  let ?g = "rn_reconnect_generation ?r1 + 1"
  let ?r2 = "(act (ActOpen ?g (vp_stream_url p)) (?r1\<lparr>rn_reconnect_generation := ?g, rn_connection := Some ?g\<rparr>))
               \<lparr>rn_last_activity := now\<rparr>"
  have inv1: "runner_inv ?r1" using assms by (intro reset_inv) (simp_all add: runner_inv_def SetState_def)
  have "runner_inv ?r2" by (rule inv_keeps [OF inv1]) (simp_all add: keeps_def act_def)
  from inv_keeps [OF this keeps_prims(5)] assms show ?thesis by (simp add: Connect_def Let_def)
qed

lemma handle_inv:
  assumes "runner_inv r" "event_brings P e"
  shows "runner_inv (runner_handle p draw r e)"
proof (cases e)
  case (EvOpen now)
  have "runner_inv (runner_OnOpen p draw now r)"
    by (rule inv_keeps [OF assms(1) keeps_OnOpen]) (simp_all add: runner_OnOpen_def Let_def split: if_splits option.splits)
  with EvOpen show ?thesis by simp
next
  case (EvClosed g)
  have "runner_inv (on_close_callback draw g r)"
    by (rule inv_keeps [OF assms(1) keeps_close_callback])
      (simp_all add: on_close_callback_def runner_OnClose_def Let_def split: if_splits)
  with EvClosed show ?thesis by simp
next
  case (EvWatchdog ec now)
  have "runner_inv (on_watchdog ec now r)"
    by (rule inv_keeps [OF assms(1) keeps_watchdog]) (simp_all add: on_watchdog_def split: if_splits)
  with EvWatchdog show ?thesis by simp
next
  case EvStop
  have "runner_inv (request_stop r)"
    by (rule inv_keeps [OF assms(1) keeps_stop(1)]) (simp_all add: request_stop_def)
  with EvStop show ?thesis by simp
next
  case EvStopPosted
  have "runner_inv (perform_stop r)"
    by (rule inv_keeps [OF assms(1) keeps_stop(2)]) (simp_all add: perform_stop_def)
  with EvStopPosted show ?thesis by simp
qed (use assms in \<open>simp_all add: Connect_inv OnFrame_inv on_snapshot_inv on_reconnect_timer_def\<close>)

lemma run_inv: "runner_inv r \<Longrightarrow> list_all (event_brings P) es \<Longrightarrow> runner_inv (runner_run p draw r es)"
  by (induction es arbitrary: r) (simp_all add: runner_run_def runner_event_def handle_inv)

lemma new_runner_inv: "vp_Reset p s = s \<Longrightarrow> runner_inv (new_runner i s ring options seed now)"
  using reset_fresh [of s]
  by (auto simp: runner_inv_def new_runner_def default_stats_def tracks_def intro!: exI [of _ s])

text \<open>A live venue: what the ring took ends with the updates of one session since a reset.\<close>

lemma inv_session:
  assumes "runner_inv r" "vs_state (rn_stats r) = kLive" "\<not> vs_fatal (rn_stats r)" "book_ok b"
  obtains s0 "is" us b' where "session p (vp_Reset p s0) is = Some (rn_protocol r, us)" "list_all P is"
    "ready (rn_protocol r)" "book_ok b'"
    "foldl ApplyFeedUpdate b (pushed_updates (rn_acts r)) = foldl ApplyFeedUpdate b' us"
proof -
  obtain s0 where session: "session p (vp_Reset p s0) (fst (session_log (rn_acts r))) =
      Some (rn_protocol r, snd (session_log (rn_acts r)))" using assms(1,3) by (auto simp: runner_inv_def tracks_def)
  obtain old where old: "pushed_updates (rn_acts r) = old @ snd (session_log (rn_acts r))"
    using session_log_suffix by blast
  then have "list_all update_ok old" using assms(1) by (simp add: runner_inv_def)
  then have "book_ok (foldl ApplyFeedUpdate b old)" using feed_run_refines [OF assms(4)] by blast
  moreover have "list_all P (fst (session_log (rn_acts r)))" "ready (rn_protocol r)"
    using assms(1,2) by (simp_all add: runner_inv_def)
  ultimately show thesis using that session old by simp
qed

lemma live_session:
  assumes "vp_Reset p s = s" "list_all (event_brings P) es"
    and "r = runner_run p draw (new_runner i s ring options seed now) es"
    and "vs_state (rn_stats r) = kLive" "\<not> vs_fatal (rn_stats r)" "book_ok b"
  obtains s0 "is" us b' where "session p (vp_Reset p s0) is = Some (rn_protocol r, us)" "list_all P is"
    "ready (rn_protocol r)" "book_ok b'"
    "foldl ApplyFeedUpdate b (pushed_updates (rn_acts r)) = foldl ApplyFeedUpdate b' us"
proof -
  have "runner_inv r" using run_inv [OF new_runner_inv [OF assms(1)] assms(2)] by (simp add: assms(3))
  from inv_session [OF this assms(4-6)] that show thesis by blast
qed

end

section \<open>The ring\<close>

text \<open>A handler appends to the ring's contents the batches it records as pushed, all of its own venue.\<close>

definition feeds :: "('s, 'g) VenueRunner \<Rightarrow> ('s, 'g) VenueRunner \<Rightarrow> bool" where
  "feeds r r' \<longleftrightarrow>
     (ring_ok (rn_ring r) \<longrightarrow>
        ring_ok (rn_ring r') \<and> rn_venue_index r' = rn_venue_index r \<and>
        (\<exists>bs. ring_contents (rn_ring r') = ring_contents (rn_ring r) @ bs \<and>
              pushed_batches (rn_acts r') = pushed_batches (rn_acts r) @ bs \<and>
              (\<forall>b\<in>set bs. fb_venue_index b = rn_venue_index r)))"

lemma feeds_same:
  "rn_ring r' = rn_ring r \<Longrightarrow> rn_venue_index r' = rn_venue_index r \<Longrightarrow>
     pushed_batches (rn_acts r') = pushed_batches (rn_acts r) \<Longrightarrow> feeds r r'"
  by (simp add: feeds_def)

lemma feeds_keeps: "keeps r r' \<Longrightarrow> feeds r r'"
  by (rule feeds_same) (simp_all add: keeps_def)

lemma feeds_trans:
  assumes "feeds a b" "feeds b c"
  shows "feeds a c"
  unfolding feeds_def
proof (intro impI conjI)
  assume ok: "ring_ok (rn_ring a)"
  obtain xs where b: "ring_ok (rn_ring b)" "rn_venue_index b = rn_venue_index a"
    "ring_contents (rn_ring b) = ring_contents (rn_ring a) @ xs"
    "pushed_batches (rn_acts b) = pushed_batches (rn_acts a) @ xs"
    "\<forall>x\<in>set xs. fb_venue_index x = rn_venue_index a" using assms(1) ok by (auto simp: feeds_def)
  obtain ys where c: "ring_ok (rn_ring c)" "rn_venue_index c = rn_venue_index b"
    "ring_contents (rn_ring c) = ring_contents (rn_ring b) @ ys"
    "pushed_batches (rn_acts c) = pushed_batches (rn_acts b) @ ys"
    "\<forall>x\<in>set ys. fb_venue_index x = rn_venue_index b" using assms(2) b(1) by (auto simp: feeds_def)
  show "ring_ok (rn_ring c)" "rn_venue_index c = rn_venue_index a" using b c by simp_all
  show "\<exists>bs. ring_contents (rn_ring c) = ring_contents (rn_ring a) @ bs \<and>
      pushed_batches (rn_acts c) = pushed_batches (rn_acts a) @ bs \<and>
      (\<forall>x\<in>set bs. fb_venue_index x = rn_venue_index a)"
    using b c by (intro exI [of _ "xs @ ys"]) auto
qed

lemma feeds_reset: "feeds r (reset_protocol p r)"
  by (rule feeds_same) (simp_all add: reset_protocol_def act_def)

lemma feeds_Resync: "feeds r (Resync p draw now r)"
proof -
  let ?r = "SetState kSyncing (bump (\<lambda>st. st\<lparr>vs_resyncs := vs_resyncs st + 1\<rparr>) r)"
  have "feeds r (reset_protocol p ?r)"
    by (rule feeds_trans [OF feeds_keeps [OF keeps_trans [OF keeps_prims(2) keeps_prims(1)]] feeds_reset])
  from feeds_trans [OF this feeds_keeps [OF keeps_FetchSnapshot]] feeds_trans [OF this feeds_keeps [OF keeps_prims(3)]]
  show ?thesis by (simp add: Resync_def Let_def)
qed

lemma feeds_Publish: "feeds r (runner_Publish p draw now updates r)"
proof (cases "updates = []")
  case True
  then show ?thesis by (simp add: runner_Publish_def feeds_same)
next
  case False
  let ?batch = "\<lparr>fb_venue_index = rn_venue_index r, fb_updates = updates\<rparr>"
  obtain ring ok where push: "Push (rn_ring r) ?batch = (ring, ok)" by fastforce
  have contents: "ring_ok (rn_ring r) \<Longrightarrow>
      ring_ok ring \<and> ring_contents ring = (if ok then ring_contents (rn_ring r) @ [?batch] else ring_contents (rn_ring r))"
    using ring.push_contents [of "rn_ring r" ?batch] ring.push_ok [of "rn_ring r" ?batch] push by simp
  let ?full = "bump (\<lambda>st. st\<lparr>vs_ring_overflows := vs_ring_overflows st + 1\<rparr>) (r\<lparr>rn_ring := ring\<rparr>)"
  have "feeds r ?full" if "\<not> ok" using contents that by (auto simp: feeds_def bump_def)
  then have "feeds r (Resync p draw now ?full)" if "\<not> ok" using that feeds_trans [OF _ feeds_Resync] by blast
  moreover have "feeds r (act (ActPushed ?batch) (r\<lparr>rn_ring := ring\<rparr>))" if ok
    using contents that by (auto simp: feeds_def act_def)
  ultimately show ?thesis using False push by (simp add: runner_Publish_def)
qed

lemma feeds_live: "feeds r (live_if_synced p r)"
  by (simp add: live_if_synced_def feeds_same feeds_keeps [OF keeps_trans [OF keeps_prims(1) keeps_prims(4)]])

lemma feeds_OnFrame: "feeds r (runner_OnFrame p draw frame recv now r)"
proof -
  obtain s v updates where out: "vp_OnFrame p (rn_protocol r) frame recv = (s, v, updates)"
    by (cases "vp_OnFrame p (rn_protocol r) frame recv")
  let ?r1 = "bump (\<lambda>st. st\<lparr>vs_messages := vs_messages st + 1, vs_last_recv_ts_ns := recv\<rparr>)
    (r\<lparr>rn_last_activity := now\<rparr>)\<lparr>rn_protocol := s\<rparr>"
  have out1: "vp_OnFrame p (rn_protocol (bump f (r\<lparr>rn_last_activity := now\<rparr>))) frame recv = (s, v, updates)" for f
    using out by (simp add: bump_def)
  let ?ok = "act (ActInput (WsFrame frame recv)) ?r1"
  have b: "feeds r (bump f ?r1)" "feeds r ?ok" "feeds r (bump f ?ok)" "feeds r (SetState kDisconnected (bump f ?r1))" for f
    by (rule feeds_same; simp add: runner_prims)+
  note pub = feeds_trans [OF b(2) feeds_trans [OF feeds_Publish feeds_live]]
    feeds_trans [OF b(3) feeds_trans [OF feeds_Publish feeds_live]]
  show ?thesis
    using feeds_trans [OF b(1) feeds_Resync] b(2) pub feeds_trans [OF b(4) feeds_keeps [OF keeps_prims(3)]]
    by (cases v) (simp_all add: runner_OnFrame_def out1 Let_def)
qed

lemma feeds_snapshot: "feeds r (on_snapshot p draw ok body recv now r)"
proof -
  obtain s v updates where out: "vp_OnRestSnapshot p (rn_protocol r) body recv = (s, v, updates)"
    by (cases "vp_OnRestSnapshot p (rn_protocol r) body recv")
  let ?r1 = "r\<lparr>rn_protocol := s\<rparr>"
  have b: "feeds r ?r1" "feeds r (act (ActInput (RestBody body recv)) ?r1)" by (rule feeds_same; simp add: act_def)+
  from feeds_trans [OF b(1) feeds_Resync] feeds_trans [OF b(2) feeds_trans [OF feeds_Publish feeds_live]]
  show ?thesis by (simp add: on_snapshot_def out Let_def feeds_keeps [OF keeps_OnClose] feeds_same)
qed

lemma feeds_Connect: "feeds r (Connect p now r)"
proof -
  let ?r1 = "reset_protocol p (SetState kConnecting (r\<lparr>rn_logged_live := False\<rparr>))"
  let ?g = "rn_reconnect_generation ?r1 + 1"
  let ?r2 = "(act (ActOpen ?g (vp_stream_url p)) (?r1\<lparr>rn_reconnect_generation := ?g, rn_connection := Some ?g\<rparr>))
               \<lparr>rn_last_activity := now\<rparr>"
  have "feeds r ?r2" by (rule feeds_same) (simp_all add: runner_prims reset_protocol_def)
  from feeds_trans [OF this feeds_keeps [OF keeps_prims(5)]] show ?thesis by (simp add: Connect_def Let_def feeds_same)
qed

lemma feeds_event: "feeds r (runner_event p draw r e)"
  by (cases e) (simp_all add: runner_event_def feeds_same feeds_Connect feeds_OnFrame feeds_snapshot on_reconnect_timer_def
      feeds_keeps keeps_OnOpen keeps_close_callback keeps_watchdog keeps_stop)

section \<open>The book behind the ring\<close>

context venue_runner
begin

text \<open>
  The book \<open>b\<close> that the engine keeps for the venue, once the batches still in the ring are applied to
  it, is the book built from everything the ring has ever taken.
\<close>

definition linked :: "('s, 'g) VenueRunner \<Rightarrow> VenueBook \<Rightarrow> bool" where
  "linked r b \<longleftrightarrow>
     runner_inv r \<and> ring_ok (rn_ring r) \<and>
     (\<forall>x\<in>set (ring_contents (rn_ring r)). fb_venue_index x = rn_venue_index r \<and> list_all update_ok (fb_updates x)) \<and>
     foldl ApplyFeedUpdate b (concat (map fb_updates (ring_contents (rn_ring r)))) =
       foldl ApplyFeedUpdate empty_book (pushed_updates (rn_acts r))"

lemma linked_new:
  "vp_Reset p s = s \<Longrightarrow> ring_ok ring \<Longrightarrow> ring_contents ring = [] \<Longrightarrow>
     linked (new_runner i s ring options seed now) empty_book"
  using new_runner_inv [of s i ring options seed now] by (simp add: linked_def) (simp add: new_runner_def)

lemma linked_event:
  assumes "linked r b" "event_brings P e"
  shows "linked (runner_event p draw r e) b \<and> rn_venue_index (runner_event p draw r e) = rn_venue_index r"
proof -
  let ?r = "runner_event p draw r e"
  have inv: "runner_inv ?r" using run_inv [of r "[e]" draw] assms by (simp add: runner_run_def linked_def)
  obtain bs where bs: "ring_ok (rn_ring ?r)" "rn_venue_index ?r = rn_venue_index r"
    "ring_contents (rn_ring ?r) = ring_contents (rn_ring r) @ bs"
    "pushed_batches (rn_acts ?r) = pushed_batches (rn_acts r) @ bs"
    "\<forall>x\<in>set bs. fb_venue_index x = rn_venue_index r"
    using feeds_event [of r p draw e] assms(1) by (auto simp: feeds_def linked_def)
  have "list_all update_ok (fb_updates x)" if "x \<in> set bs" for x
    using inv that by (auto simp: runner_inv_def bs list_all_iff pushed_updates_batches)
  with inv bs assms(1) show ?thesis by (auto simp: linked_def pushed_updates_batches)
qed

lemma linked_pop:
  assumes "linked r b" "Pop moved (rn_ring r) = (ring, x)"
  shows "linked (r\<lparr>rn_ring := ring\<rparr>) (case x of None \<Rightarrow> b | Some batch \<Rightarrow> foldl ApplyFeedUpdate b (fb_updates batch))"
    and "x = Some batch \<Longrightarrow> fb_venue_index batch = rn_venue_index r \<and> list_all update_ok (fb_updates batch)"
proof -
  have ok: "ring_ok (rn_ring r)" using assms(1) by (simp add: linked_def)
  have pop: "ring_ok ring" "ring_contents (rn_ring r) = (case x of None \<Rightarrow> [] | Some v \<Rightarrow> [v]) @ ring_contents ring"
    using ring.pop_ok [OF ok, of moved] ring.pop_contents [OF ok, of moved] assms(2) by simp_all
  have "runner_inv (r\<lparr>rn_ring := ring\<rparr>)" using assms(1) by (simp add: linked_def runner_inv_def tracks_def)
  with pop assms(1)
  show "linked (r\<lparr>rn_ring := ring\<rparr>) (case x of None \<Rightarrow> b | Some batch \<Rightarrow> foldl ApplyFeedUpdate b (fb_updates batch))"
    by (cases x) (simp_all add: linked_def)
  show "x = Some batch \<Longrightarrow> fb_venue_index batch = rn_venue_index r \<and> list_all update_ok (fb_updates batch)"
    using pop(2) assms(1) by (simp add: linked_def)
qed

lemma linked_session:
  assumes "linked r b" "ring_contents (rn_ring r) = []" "vs_state (rn_stats r) = kLive" "\<not> vs_fatal (rn_stats r)"
  obtains s0 "is" us b' where "session p (vp_Reset p s0) is = Some (rn_protocol r, us)" "list_all P is"
    "ready (rn_protocol r)" "book_ok b'" "b = foldl ApplyFeedUpdate b' us"
proof -
  have "runner_inv r" "b = foldl ApplyFeedUpdate empty_book (pushed_updates (rn_acts r))"
    using assms(1,2) by (simp_all add: linked_def)
  with inv_session [OF _ assms(3,4) book_ok_empty] that show thesis by metis
qed

end

section \<open>The request budget\<close>

definition same_budget :: "('s, 'g) VenueRunner \<Rightarrow> ('s, 'g) VenueRunner \<Rightarrow> bool" where
  "same_budget r r' \<longleftrightarrow>
     rn_resync_budget r' = rn_resync_budget r \<and> request_times (rn_acts r') = request_times (rn_acts r)"

lemma same_budget_trans: "same_budget a b \<Longrightarrow> same_budget b c \<Longrightarrow> same_budget a c"
  by (simp add: same_budget_def)

lemma same_budget_prims [simp]:
  "same_budget r (SetState st r)" "same_budget r (bump f r)" "same_budget r (close_connection r)"
  "same_budget r (MarkHealthy r)" "same_budget r (ArmWatchdog r)" "same_budget r (ScheduleReconnect draw r)"
  "same_budget r (reset_protocol p r)" "same_budget r r"
  by (auto simp: same_budget_def runner_prims ArmWatchdog_def ScheduleReconnect_def reset_protocol_def
      split_beta Let_def split: option.splits)

lemma same_budget_sends [simp]: "same_budget r (foldl (\<lambda>r frame. act (ActSend g frame) r) r frames)"
proof (induction frames arbitrary: r)
  case (Cons f frames)
  have "same_budget r (act (ActSend g f) r)" by (simp add: same_budget_def act_def)
  from same_budget_trans [OF this Cons.IH] show ?case by simp
qed simp

lemma same_budget_OnClose [simp]: "same_budget r (runner_OnClose draw r)"
  using same_budget_trans [OF same_budget_prims(1) same_budget_prims(6)] by (auto simp: runner_OnClose_def Let_def)

lemma same_budget_live [simp]: "same_budget r (live_if_synced p r)"
  using same_budget_trans [OF same_budget_prims(1) same_budget_prims(4)] by (auto simp: live_if_synced_def)

text \<open>At the time \<open>t\<close> the budget knows every request that is not older than a minute.\<close>

definition within_budget :: "int \<Rightarrow> i64 \<Rightarrow> ('s, 'g) VenueRunner \<Rightarrow> bool" where
  "within_budget n t r \<longleftrightarrow>
     budget_inv (rn_resync_budget r) (request_times (rn_acts r)) t \<and>
     spaced (nat n) minute_ns (request_times (rn_acts r)) \<and>
     rb_max_events (rn_resync_budget r) = n \<and> rb_window (rn_resync_budget r) = minute_ns"

lemma within_budget_same: "within_budget n t r \<Longrightarrow> same_budget r r' \<Longrightarrow> within_budget n t r'"
  by (simp add: within_budget_def same_budget_def)

lemma within_budget_later: "within_budget n t r \<Longrightarrow> t \<le> t' \<Longrightarrow> within_budget n t' r"
  unfolding within_budget_def budget_inv_def by fastforce

lemma FetchSnapshot_budget:
  assumes "within_budget n t r" "t \<le> now"
  shows "within_budget n now (FetchSnapshot p draw now r)"
proof (cases "rn_stopping r")
  case True
  with within_budget_later [OF assms] show ?thesis by (simp add: FetchSnapshot_def)
next
  case False
  let ?b = "rn_resync_budget r"
  obtain b ok where c: "TryConsume ?b now = (b, ok)" by fastforce
  have inv: "budget_inv ?b (request_times (rn_acts r)) t"
    "spaced (nat (rb_max_events ?b)) (rb_window ?b) (request_times (rn_acts r))"
    "rb_max_events ?b = n" "rb_window ?b = minute_ns" using assms(1) by (simp_all add: within_budget_def)
  note step = TryConsume_inv [OF inv(1) assms(2) inv(2), unfolded c fst_conv snd_conv]
  have "within_budget n now (r\<lparr>rn_resync_budget := b\<rparr>)" if "\<not> ok"
    using step that inv(3,4) by (simp add: within_budget_def)
  moreover have "within_budget n now (act (ActHttpGet u now) (r\<lparr>rn_resync_budget := b\<rparr>))" if ok for u
    using step that inv(3,4) by (simp add: within_budget_def act_def)
  ultimately show ?thesis
    using False by (simp add: FetchSnapshot_def ConsumeResyncToken_def c within_budget_same [OF _ same_budget_prims(6)])
qed

lemma Resync_budget:
  assumes "within_budget n t r" "t \<le> now"
  shows "within_budget n now (Resync p draw now r)"
proof -
  let ?r1 = "reset_protocol p (SetState kSyncing (bump (\<lambda>st. st\<lparr>vs_resyncs := vs_resyncs st + 1\<rparr>) r))"
  have "same_budget r ?r1"
    by (rule same_budget_trans [OF same_budget_trans [OF same_budget_prims(2) same_budget_prims(1)] same_budget_prims(7)])
  from within_budget_same [OF assms(1) this] have b: "within_budget n t ?r1" .
  from FetchSnapshot_budget [OF b assms(2)] within_budget_same [OF within_budget_later [OF b assms(2)] same_budget_prims(3)]
  show ?thesis by (simp add: Resync_def Let_def)
qed

lemma Publish_budget:
  assumes "within_budget n t r" "t \<le> now"
  shows "within_budget n now (runner_Publish p draw now updates r)"
proof -
  let ?batch = "\<lparr>fb_venue_index = rn_venue_index r, fb_updates = updates\<rparr>"
  obtain ring ok where push: "Push (rn_ring r) ?batch = (ring, ok)" by fastforce
  have "same_budget r (r\<lparr>rn_ring := ring\<rparr>)" by (simp add: same_budget_def)
  from within_budget_same [OF assms(1) this] have b: "within_budget n t (r\<lparr>rn_ring := ring\<rparr>)" .
  have "same_budget r (act (ActPushed ?batch) (r\<lparr>rn_ring := ring\<rparr>))" by (simp add: same_budget_def act_def)
  from within_budget_same [OF within_budget_later [OF assms] this]
    Resync_budget [OF within_budget_same [OF b same_budget_prims(2)] assms(2)] within_budget_later [OF assms] push
  show ?thesis by (simp add: runner_Publish_def)
qed

lemma OnFrame_budget:
  assumes "within_budget n t r" "t \<le> now"
  shows "within_budget n now (runner_OnFrame p draw frame recv now r)"
proof -
  obtain s v updates where out: "vp_OnFrame p (rn_protocol r) frame recv = (s, v, updates)"
    by (cases "vp_OnFrame p (rn_protocol r) frame recv")
  let ?r1 = "bump (\<lambda>st. st\<lparr>vs_messages := vs_messages st + 1, vs_last_recv_ts_ns := recv\<rparr>)
    (r\<lparr>rn_last_activity := now\<rparr>)\<lparr>rn_protocol := s\<rparr>"
  have out1: "vp_OnFrame p (rn_protocol (bump f (r\<lparr>rn_last_activity := now\<rparr>))) frame recv = (s, v, updates)" for f
    using out by (simp add: bump_def)
  let ?ok = "act (ActInput (WsFrame frame recv)) ?r1"
  have same: "same_budget r (bump f ?r1)" "same_budget r ?ok" "same_budget r (bump f ?ok)"
    "same_budget r (close_connection (SetState kDisconnected (bump f ?r1)))" for f
    by (auto simp: same_budget_def runner_prims split: option.splits)
  note b = within_budget_same [OF assms(1) same(1)] within_budget_same [OF assms(1) same(2)]
    within_budget_same [OF assms(1) same(3)]
  note pub = within_budget_same [OF Publish_budget [OF b(2) assms(2)] same_budget_live]
    within_budget_same [OF Publish_budget [OF b(3) assms(2)] same_budget_live]
  show ?thesis
    using Resync_budget [OF b(1) assms(2)] within_budget_same [OF within_budget_later [OF assms] same(4)]
      within_budget_later [OF b(2) assms(2)] pub
    by (cases v) (simp_all add: runner_OnFrame_def out1 Let_def)
qed

lemma on_snapshot_budget:
  assumes "within_budget n t r" "t \<le> now"
  shows "within_budget n now (on_snapshot p draw ok body recv now r)"
proof -
  obtain s v updates where out: "vp_OnRestSnapshot p (rn_protocol r) body recv = (s, v, updates)"
    by (cases "vp_OnRestSnapshot p (rn_protocol r) body recv")
  let ?r1 = "r\<lparr>rn_protocol := s\<rparr>"
  have same: "same_budget r ?r1" "same_budget r (act (ActInput i) ?r1)" for i by (simp_all add: same_budget_def act_def)
  note b = within_budget_same [OF assms(1) same(1)] within_budget_same [OF assms(1) same(2)]
  from Resync_budget [OF b(1) assms(2), of p draw] within_budget_same [OF Publish_budget [OF b(2) assms(2)] same_budget_live]
    within_budget_same [OF within_budget_later [OF assms] same_budget_OnClose] within_budget_later [OF assms]
  show ?thesis by (simp add: on_snapshot_def out Let_def)
qed

lemma OnOpen_budget:
  assumes "within_budget n t r" "t \<le> now"
  shows "within_budget n now (runner_OnOpen p draw now r)"
proof -
  let ?r1 = "SetState kSyncing r"
  let ?sent = "\<lambda>g. act (ActStartKeepalive g (vp_KeepaliveFrame p) (vp_keepalive_interval p))
    (foldl (\<lambda>r frame. act (ActSend g frame) r) ?r1 (vp_SubscribeFrames p))"
  let ?r2 = "case rn_connection ?r1 of None \<Rightarrow> ?r1 | Some g \<Rightarrow> ?sent g"
  have "same_budget (foldl (\<lambda>r frame. act (ActSend g frame) r) ?r1 (vp_SubscribeFrames p)) (?sent g)" for g
    by (simp add: same_budget_def act_def)
  from same_budget_trans [OF same_budget_prims(1) same_budget_trans [OF same_budget_sends this]]
  have "same_budget r ?r2" by (simp split: option.splits)
  from within_budget_same [OF assms(1) this] have b: "within_budget n t ?r2" .
  from FetchSnapshot_budget [OF b assms(2)] within_budget_later [OF b assms(2)] show ?thesis
    by (simp add: runner_OnOpen_def Let_def)
qed

lemma Connect_budget: "same_budget r (Connect p now r)"
proof -
  let ?r1 = "reset_protocol p (SetState kConnecting (r\<lparr>rn_logged_live := False\<rparr>))"
  let ?g = "rn_reconnect_generation ?r1 + 1"
  let ?r2 = "(act (ActOpen ?g (vp_stream_url p)) (?r1\<lparr>rn_reconnect_generation := ?g, rn_connection := Some ?g\<rparr>))
               \<lparr>rn_last_activity := now\<rparr>"
  have "same_budget r ?r2" by (simp add: same_budget_def runner_prims reset_protocol_def)
  from same_budget_trans [OF this same_budget_prims(5)] show ?thesis by (simp add: Connect_def Let_def)
qed

text \<open>The reading of the steady clock at an event; the clock does not go back.\<close>

fun event_time :: "RunnerEvent \<Rightarrow> i64 list" where
  "event_time (EvStart now) = [now]"
| "event_time (EvOpen now) = [now]"
| "event_time (EvFrame frame recv now) = [now]"
| "event_time (EvSnapshot ok body recv now) = [now]"
| "event_time (EvReconnect ec now) = [now]"
| "event_time (EvWatchdog ec now) = [now]"
| "event_time e = []"

definition event_times :: "RunnerEvent list \<Rightarrow> i64 list" where
  "event_times es = concat (map event_time es)"

lemma handle_budget:
  assumes "within_budget n t r" "list_all (\<lambda>now. t \<le> now) (event_time e)"
  shows "within_budget n (last (t # event_time e)) (runner_handle p draw r e)"
proof -
  have same: "same_budget r (on_watchdog ec now r)" "same_budget r (on_close_callback draw g r)"
    "same_budget r (on_reconnect_timer p ec now r)" for ec now g
    using same_budget_trans [OF same_budget_prims(1) [of r] same_budget_prims(3)] Connect_budget [of r p now]
    by (simp_all add: on_watchdog_def on_close_callback_def on_reconnect_timer_def)
  have stop: "same_budget r (request_stop r)" "same_budget r (perform_stop r)"
    by (auto simp: request_stop_def perform_stop_def same_budget_def runner_prims split: option.splits)
  note later = within_budget_same [OF within_budget_later [OF assms(1)]] within_budget_same [OF assms(1)]
  from assms show ?thesis
    by (cases e) (simp_all add: OnOpen_budget [OF assms(1)] OnFrame_budget [OF assms(1)] on_snapshot_budget [OF assms(1)]
        later Connect_budget same stop)
qed

lemma run_budget:
  assumes "within_budget n t r" "sorted (t # event_times es)"
  shows "spaced (nat n) minute_ns (request_times (rn_acts (runner_run p draw r es)))"
  using assms
proof (induction es arbitrary: t r)
  case Nil
  then show ?case by (simp add: runner_run_def within_budget_def)
next
  case (Cons e es)
  let ?t = "last (t # event_time e)"
  have times: "sorted (t # event_time e @ event_times es)" using Cons.prems(2) by (simp add: event_times_def)
  have all: "list_all (\<lambda>now. t \<le> now) (event_time e)" using times by (simp add: list_all_iff)
  have rest: "sorted (?t # event_times es)" using times by (cases e) simp_all
  have "t \<le> ?t" using all by (cases e) simp_all
  then have "within_budget n ?t (runner_event p draw r e)"
    using handle_budget [OF Cons.prems(1) all] within_budget_later [OF Cons.prems(1)] by (simp add: runner_event_def)
  from Cons.IH [OF this rest] show ?case by (simp add: runner_run_def)
qed

section \<open>A venue that has failed for good\<close>

definition stays_down :: "('s, 'g) VenueRunner \<Rightarrow> ('s, 'g) VenueRunner \<Rightarrow> bool" where
  "stays_down r r' \<longleftrightarrow>
     (vs_fatal (rn_stats r) \<longrightarrow> vs_fatal (rn_stats r') \<and> attempts (rn_acts r') = attempts (rn_acts r))"

lemma down_refl [simp]: "stays_down r r"
  by (simp add: stays_down_def)

lemma down_trans: "stays_down a b \<Longrightarrow> stays_down b c \<Longrightarrow> stays_down a c"
  by (auto simp: stays_down_def)

lemma down_prims [simp]:
  "stays_down r (SetState st r)" "stays_down r (close_connection r)" "stays_down r (MarkHealthy r)"
  "stays_down r (ArmWatchdog r)" "stays_down r (ScheduleReconnect draw r)" "stays_down r (reset_protocol p r)"
  "stays_down r (fst (ConsumeResyncToken now r))" "stays_down r (Connect p now r)"
  by (auto simp: stays_down_def attempts_def runner_prims ArmWatchdog_def ScheduleReconnect_def reset_protocol_def
      ConsumeResyncToken_def Connect_def split_beta Let_def split: option.splits)

lemma down_bump: "(\<And>st. vs_fatal st \<Longrightarrow> vs_fatal (f st)) \<Longrightarrow> stays_down r (bump f r)"
  by (simp add: stays_down_def bump_def)

lemma down_act: "\<not> is_attempt a \<Longrightarrow> rn_stats r' = rn_stats r \<Longrightarrow> rn_acts r' = rn_acts r \<Longrightarrow> stays_down r (act a r')"
  by (simp add: stays_down_def act_def attempts_def)

lemma down_OnClose: "stays_down r (runner_OnClose draw r)"
  using down_trans [OF down_prims(1) down_prims(5)] by (auto simp: runner_OnClose_def Let_def)

lemma down_FetchSnapshot: "stays_down r (FetchSnapshot p draw now r)"
proof -
  obtain r1 ok where c: "ConsumeResyncToken now r = (r1, ok)" by fastforce
  have k: "stays_down r r1" using down_prims(7) [of r now] c by simp
  have "stays_down r1 (act (ActHttpGet u now) r1)" for u by (rule down_act) simp_all
  with down_trans [OF k] show ?thesis by (auto simp: FetchSnapshot_def c)
qed

lemma down_Resync: "stays_down r (Resync p draw now r)"
proof -
  let ?r1 = "reset_protocol p (SetState kSyncing (bump (\<lambda>st. st\<lparr>vs_resyncs := vs_resyncs st + 1\<rparr>) r))"
  have "stays_down r (bump (\<lambda>st. st\<lparr>vs_resyncs := vs_resyncs st + 1\<rparr>) r)" by (rule down_bump) simp
  from down_trans [OF this down_trans [OF down_prims(1) down_prims(6)]] have r1: "stays_down r ?r1" .
  from down_trans [OF r1 down_FetchSnapshot] down_trans [OF r1 down_prims(2)] show ?thesis by (simp add: Resync_def Let_def)
qed

lemma down_Publish: "stays_down r (runner_Publish p draw now updates r)"
proof -
  let ?batch = "\<lparr>fb_venue_index = rn_venue_index r, fb_updates = updates\<rparr>"
  obtain ring ok where push: "Push (rn_ring r) ?batch = (ring, ok)" by fastforce
  let ?full = "bump (\<lambda>st. st\<lparr>vs_ring_overflows := vs_ring_overflows st + 1\<rparr>) (r\<lparr>rn_ring := ring\<rparr>)"
  have "stays_down r (act (ActPushed ?batch) (r\<lparr>rn_ring := ring\<rparr>))" by (rule down_act) simp_all
  moreover have "stays_down r ?full" by (simp add: stays_down_def bump_def)
  from down_trans [OF this down_Resync] have "stays_down r (Resync p draw now ?full)" .
  ultimately show ?thesis using push by (simp add: runner_Publish_def)
qed

lemma down_live: "stays_down r (live_if_synced p r)"
  using down_trans [OF down_prims(1) down_prims(3)] by (auto simp: live_if_synced_def)

lemma down_OnFrame: "stays_down r (runner_OnFrame p draw frame recv now r)"
proof -
  obtain s v updates where out: "vp_OnFrame p (rn_protocol r) frame recv = (s, v, updates)"
    by (cases "vp_OnFrame p (rn_protocol r) frame recv")
  let ?r1 = "bump (\<lambda>st. st\<lparr>vs_messages := vs_messages st + 1, vs_last_recv_ts_ns := recv\<rparr>)
    (r\<lparr>rn_last_activity := now\<rparr>)\<lparr>rn_protocol := s\<rparr>"
  have out1: "vp_OnFrame p (rn_protocol (bump f (r\<lparr>rn_last_activity := now\<rparr>))) frame recv = (s, v, updates)" for f
    using out by (simp add: bump_def)
  let ?ok = "act (ActInput (WsFrame frame recv)) ?r1"
  have b: "stays_down r (bump (\<lambda>st. st\<lparr>vs_sequence_gaps := vs_sequence_gaps st + 1\<rparr>) ?r1)"
    "stays_down r (bump (\<lambda>st. st\<lparr>vs_parse_errors := vs_parse_errors st + 1\<rparr>) ?r1)" "stays_down r ?ok"
    "stays_down r (bump (\<lambda>st. st\<lparr>vs_last_exchange_ts_ns := exchange_ts_ns (last updates)\<rparr>) ?ok)"
    "stays_down r (SetState kDisconnected (bump (\<lambda>st. st\<lparr>vs_fatal := True\<rparr>) ?r1))"
    by (simp_all add: stays_down_def runner_prims attempts_def)
  show ?thesis
    using down_trans [OF b(1) down_Resync] down_trans [OF b(2) down_Resync] b(3)
      down_trans [OF b(3) down_trans [OF down_Publish down_live]] down_trans [OF b(4) down_trans [OF down_Publish down_live]]
      down_trans [OF b(5) down_prims(2)]
    by (cases v) (simp_all add: runner_OnFrame_def out1 Let_def)
qed

lemma down_snapshot: "stays_down r (on_snapshot p draw ok body recv now r)"
proof -
  obtain s v updates where out: "vp_OnRestSnapshot p (rn_protocol r) body recv = (s, v, updates)"
    by (cases "vp_OnRestSnapshot p (rn_protocol r) body recv")
  let ?r1 = "r\<lparr>rn_protocol := s\<rparr>"
  have b: "stays_down r ?r1" "stays_down r (act (ActInput (RestBody body recv)) ?r1)"
    by (simp_all add: stays_down_def act_def attempts_def)
  from down_trans [OF b(1) down_Resync] down_trans [OF b(2) down_trans [OF down_Publish down_live]]
  show ?thesis by (simp add: on_snapshot_def out Let_def down_OnClose)
qed

lemma down_OnOpen: "stays_down r (runner_OnOpen p draw now r)"
proof -
  have sends: "stays_down r (foldl (\<lambda>r frame. act (ActSend g frame) r) r frames)"
    for g frames and r :: "('a, 'b) VenueRunner"
  proof (induction frames arbitrary: r)
    case (Cons f frames)
    have "stays_down r (act (ActSend g f) r)" by (rule down_act) simp_all
    from down_trans [OF this Cons.IH] show ?case by simp
  qed simp
  let ?r1 = "SetState kSyncing r"
  let ?sent = "\<lambda>g. act (ActStartKeepalive g (vp_KeepaliveFrame p) (vp_keepalive_interval p))
    (foldl (\<lambda>r frame. act (ActSend g frame) r) ?r1 (vp_SubscribeFrames p))"
  let ?r2 = "case rn_connection ?r1 of None \<Rightarrow> ?r1 | Some g \<Rightarrow> ?sent g"
  have "stays_down r (?sent g)" for g
    using down_trans [OF down_prims(1) [of r] down_trans [OF sends down_act]] by simp
  then have r2: "stays_down r ?r2" by (simp split: option.splits)
  from r2 down_trans [OF r2 down_FetchSnapshot] show ?thesis by (simp add: runner_OnOpen_def Let_def)
qed

lemma down_event: "stays_down r (runner_event p draw r e)"
proof -
  have "stays_down r (on_watchdog ec now r)" for ec now
    using down_trans [OF down_prims(1) [of r] down_prims(2)] by (simp add: on_watchdog_def)
  moreover have "stays_down r (request_stop r)" "stays_down r (perform_stop r)"
    by (auto simp: request_stop_def perform_stop_def stays_down_def runner_prims attempts_def split: option.splits)
  ultimately show ?thesis
    by (cases e) (simp_all add: runner_event_def down_OnOpen down_OnFrame down_snapshot on_close_callback_def
        down_OnClose on_reconnect_timer_def)
qed

lemma down_run: "stays_down r (runner_run p draw r es)"
proof (induction es arbitrary: r)
  case (Cons e es)
  from down_trans [OF down_event Cons.IH] show ?case by (simp add: runner_run_def)
qed (simp add: runner_run_def)

end
