(* ===== verification/Follow.thy ===== *)
theory Follow
  imports Runner
begin

text \<open>
  What the runner adds to an adapter that follows its venue's own book \<open>B\<close>: whatever happens to the
  connection, every batch it pushes takes the book from one state of the venue's book to another. The
  locale \<open>true_runner\<close> extends the contract of the runner's protocol by the adapter's side of that:
  \<open>follows s m\<close> says that \<open>m\<close> is what the adapter in state \<open>s\<close> takes the book to be, \<open>at s\<close> is the sequence
  number it is at.
\<close>

definition no_depth :: "(Px \<rightharpoonup> Qty) \<times> (Px \<rightharpoonup> Qty)" where
  "no_depth = (Map.empty, Map.empty)"

text \<open>The two sides after a list of updates, from nothing.\<close>

definition depth_after :: "FeedUpdate list \<Rightarrow> (Px \<rightharpoonup> Qty) \<times> (Px \<rightharpoonup> Qty)" where
  "depth_after us = foldl depth_step no_depth us"

lemma depth_after_append: "depth_after (us @ vs) = foldl depth_step (depth_after us) vs"
  by (simp add: depth_after_def)

lemma depth_after_book:
  assumes "list_all update_ok us"
  shows "book_depth (foldl ApplyFeedUpdate empty_book us) = depth_after us"
proof -
  have "book_depth empty_book = no_depth" by (simp add: book_depth_def empty_book_def empty_side_def no_depth_def)
  with feed_run_refines [OF book_ok_empty assms] show ?thesis by (simp add: depth_after_def)
qed

locale true_runner = venue_runner p ready inv P
  for p :: "'s VenueProtocol" and ready :: "'s \<Rightarrow> bool" and inv :: "'s \<Rightarrow> bool" and P :: "VenueInput \<Rightarrow> bool" +
  fixes B :: TrueBook and follows :: "'s \<Rightarrow> (Px \<rightharpoonup> Qty) \<times> (Px \<rightharpoonup> Qty) \<Rightarrow> bool" and at :: "'s \<Rightarrow> int"
  assumes follows_reset: "follows (vp_Reset p s) m"
    and follows_input: "follows s m \<Longrightarrow> P i \<Longrightarrow> venue_input p s i = (s', kOk, us) \<Longrightarrow> follows s' (foldl depth_step m us)"
    and follows_fatal: "follows s m \<Longrightarrow> venue_input p s i = (s', kFatal, us) \<Longrightarrow> follows s' m"
    and follows_ready: "follows s m \<Longrightarrow> ready s \<Longrightarrow> m = B (at s)"
begin

text \<open>After every batch pushed so far the book was one of the venue's own.\<close>

definition history_true :: "RunnerAct list \<Rightarrow> bool" where
  "history_true acts \<longleftrightarrow>
     (\<forall>k. 0 < k \<longrightarrow> k \<le> length (pushed_batches acts) \<longrightarrow>
        depth_after (concat (map fb_updates (take k (pushed_batches acts)))) \<in> range B)"

definition true_inv :: "('s, 'g) VenueRunner \<Rightarrow> bool" where
  "true_inv r \<longleftrightarrow> follows (rn_protocol r) (depth_after (pushed_updates (rn_acts r))) \<and> history_true (rn_acts r)"

lemma history_push:
  assumes "history_true acts" "depth_after (pushed_updates acts @ fb_updates batch) \<in> range B"
  shows "history_true (acts @ [ActPushed batch])"
  using assms by (auto simp: history_true_def pushed_updates_batches le_Suc_eq)

lemma true_keeps: "true_inv r \<Longrightarrow> keeps r r' \<Longrightarrow> true_inv r'"
  by (simp add: true_inv_def keeps_def history_true_def)

lemma true_reset: "history_true (rn_acts r) \<Longrightarrow> true_inv (reset_protocol p r)"
  by (simp add: true_inv_def reset_protocol_def act_def history_true_def follows_reset)

lemma true_Resync:
  assumes "history_true (rn_acts r)"
  shows "true_inv (Resync p draw now r)"
proof -
  let ?r = "SetState kSyncing (bump (\<lambda>st. st\<lparr>vs_resyncs := vs_resyncs st + 1\<rparr>) r)"
  have "true_inv (reset_protocol p ?r)" using assms by (intro true_reset) (simp add: runner_prims)
  from true_keeps [OF this keeps_FetchSnapshot] true_keeps [OF this keeps_prims(3)] show ?thesis
    by (simp add: Resync_def Let_def)
qed

lemma true_Publish:
  assumes "history_true (rn_acts r)" "follows (rn_protocol r) (foldl depth_step (depth_after (pushed_updates (rn_acts r))) updates)"
    and "updates \<noteq> [] \<Longrightarrow> ready (rn_protocol r)"
  shows "true_inv (runner_Publish p draw now updates r)"
proof (cases "updates = []")
  case True
  with assms show ?thesis by (simp add: runner_Publish_def true_inv_def)
next
  case False
  let ?batch = "\<lparr>fb_venue_index = rn_venue_index r, fb_updates = updates\<rparr>"
  obtain ring ok where push: "Push (rn_ring r) ?batch = (ring, ok)" by fastforce
  let ?full = "bump (\<lambda>st. st\<lparr>vs_ring_overflows := vs_ring_overflows st + 1\<rparr>) (r\<lparr>rn_ring := ring\<rparr>)"
  have "true_inv (Resync p draw now ?full)" using assms(1) by (intro true_Resync) (simp add: bump_def)
  moreover have "foldl depth_step (depth_after (pushed_updates (rn_acts r))) updates \<in> range B"
    using follows_ready [OF assms(2) assms(3) [OF False]] by simp
  then have "history_true (rn_acts r @ [ActPushed ?batch])"
    using assms(1) by (intro history_push) (simp_all add: depth_after_append)
  then have "true_inv (act (ActPushed ?batch) (r\<lparr>rn_ring := ring\<rparr>))"
    using assms(2) by (simp add: true_inv_def act_def depth_after_append)
  ultimately show ?thesis using False push by (simp add: runner_Publish_def)
qed

lemma true_live: "true_inv r \<Longrightarrow> true_inv (live_if_synced p r)"
  by (simp add: live_if_synced_def true_keeps [OF _ keeps_trans [OF keeps_prims(1) keeps_prims(4)]])

text \<open>An accepted input, recorded and published.\<close>

lemma true_accepted:
  assumes "runner_inv r" "true_inv r" "venue_input p (rn_protocol r) i = (s, kOk, updates)" "P i"
    and r': "rn_protocol r' = s" "rn_acts r' = rn_acts r @ [ActInput i]"
  shows "true_inv (runner_Publish p draw now updates r')"
proof (rule true_Publish)
  have "history_true (rn_acts r)" using assms(2) by (simp add: true_inv_def)
  then show "history_true (rn_acts r')" by (simp add: r' history_true_def)
  show "follows (rn_protocol r') (foldl depth_step (depth_after (pushed_updates (rn_acts r'))) updates)"
    using follows_input [OF _ assms(4,3)] assms(2) by (simp add: true_inv_def r')
  show "updates \<noteq> [] \<Longrightarrow> ready (rn_protocol r')"
    using input_baseline [OF _ assms(3)] assms(1) by (simp add: runner_inv_def r')
qed

lemma true_OnFrame:
  assumes "runner_inv r" "true_inv r" "P (WsFrame frame recv)"
  shows "true_inv (runner_OnFrame p draw frame recv now r)"
proof -
  obtain s v updates where out: "vp_OnFrame p (rn_protocol r) frame recv = (s, v, updates)"
    by (cases "vp_OnFrame p (rn_protocol r) frame recv")
  then have step: "venue_input p (rn_protocol r) (WsFrame frame recv) = (s, v, updates)" by simp
  let ?r1 = "bump (\<lambda>st. st\<lparr>vs_messages := vs_messages st + 1, vs_last_recv_ts_ns := recv\<rparr>)
    (r\<lparr>rn_last_activity := now\<rparr>)\<lparr>rn_protocol := s\<rparr>"
  have out1: "vp_OnFrame p (rn_protocol (bump f (r\<lparr>rn_last_activity := now\<rparr>))) frame recv = (s, v, updates)" for f
    using out by (simp add: bump_def)
  have hist: "history_true (rn_acts (bump f ?r1))" for f using assms(2) by (simp add: true_inv_def bump_def)
  show ?thesis
  proof (cases v)
    case kOk
    let ?r2 = "act (ActInput (WsFrame frame recv)) ?r1"
    let ?r3 = "bump (\<lambda>st. st\<lparr>vs_last_exchange_ts_ns := exchange_ts_ns (last updates)\<rparr>) ?r2"
    have pub: "true_inv (runner_Publish p draw now updates ?r2)" "true_inv (runner_Publish p draw now updates ?r3)"
      by (rule true_accepted [OF assms(1,2) step [unfolded kOk] assms(3)]; simp add: bump_def act_def)+
    moreover have "true_inv ?r2" if "updates = []" using pub(1) that by (simp add: runner_Publish_def)
    ultimately show ?thesis using kOk by (simp add: runner_OnFrame_def out1 Let_def true_live)
  next
    case kNeedsResync
    with true_Resync [OF hist] show ?thesis by (simp add: runner_OnFrame_def out1 Let_def)
  next
    case kParseError
    with true_Resync [OF hist] show ?thesis by (simp add: runner_OnFrame_def out1 Let_def)
  next
    case kFatal
    have "true_inv (SetState kDisconnected (bump (\<lambda>st. st\<lparr>vs_fatal := True\<rparr>) ?r1))"
      using assms(2) follows_fatal [OF _ step [unfolded kFatal]] by (simp add: true_inv_def runner_prims)
    from true_keeps [OF this keeps_prims(3)] kFatal show ?thesis by (simp add: runner_OnFrame_def out1 Let_def)
  qed
qed

lemma true_snapshot:
  assumes "runner_inv r" "true_inv r" "ok \<Longrightarrow> P (RestBody body recv)"
  shows "true_inv (on_snapshot p draw ok body recv now r)"
proof -
  obtain s v updates where out: "vp_OnRestSnapshot p (rn_protocol r) body recv = (s, v, updates)"
    by (cases "vp_OnRestSnapshot p (rn_protocol r) body recv")
  then have step: "venue_input p (rn_protocol r) (RestBody body recv) = (s, v, updates)" by simp
  have "true_inv (Resync p draw now (r\<lparr>rn_protocol := s\<rparr>))" using assms(2) by (intro true_Resync) (simp add: true_inv_def)
  moreover have "true_inv (runner_Publish p draw now updates (act (ActInput (RestBody body recv)) (r\<lparr>rn_protocol := s\<rparr>)))"
    if "v = kOk" ok
    by (rule true_accepted [OF assms(1,2) step [unfolded that(1)] assms(3) [OF that(2)]]) (simp_all add: act_def)
  ultimately show ?thesis
    using assms(2) out true_keeps [OF assms(2) keeps_OnClose] by (cases "v = kOk") (simp_all add: on_snapshot_def true_live)
qed

lemma true_Connect:
  assumes "true_inv r"
  shows "true_inv (Connect p now r)"
proof -
  let ?r1 = "reset_protocol p (SetState kConnecting (r\<lparr>rn_logged_live := False\<rparr>))"
  let ?g = "rn_reconnect_generation ?r1 + 1"
  let ?r2 = "(act (ActOpen ?g (vp_stream_url p)) (?r1\<lparr>rn_reconnect_generation := ?g, rn_connection := Some ?g\<rparr>))
               \<lparr>rn_last_activity := now\<rparr>"
  have "true_inv ?r1" using assms by (intro true_reset) (simp add: true_inv_def SetState_def)
  then have "true_inv ?r2" by (rule true_keeps) (simp add: keeps_def act_def)
  from true_keeps [OF this keeps_prims(5)] assms show ?thesis by (simp add: Connect_def Let_def)
qed

lemma true_event:
  assumes "runner_inv r" "true_inv r" "event_brings P e"
  shows "true_inv (runner_event p draw r e)"
proof -
  note k = true_keeps [OF assms(2)]
  from assms(3) show ?thesis
    by (cases e) (simp_all add: runner_event_def assms(2) true_Connect [OF assms(2)] true_OnFrame [OF assms(1,2)]
        true_snapshot [OF assms(1,2)] on_reconnect_timer_def k [OF keeps_OnOpen] k [OF keeps_close_callback]
        k [OF keeps_watchdog] k [OF keeps_stop(1)] k [OF keeps_stop(2)])
qed

lemma true_new: "vp_Reset p s = s \<Longrightarrow> true_inv (new_runner i s ring options seed now)"
  using follows_reset [of s] by (simp add: true_inv_def history_true_def new_runner_def)

text \<open>
  \<open>b\<close> is the engine's book: the batches taken from the ring so far, applied in order. \<open>fresh\<close> says that
  at least one has been taken.
\<close>

definition true_linked :: "('s, 'g) VenueRunner \<Rightarrow> VenueBook \<Rightarrow> bool \<Rightarrow> bool" where
  "true_linked r b fresh \<longleftrightarrow>
     linked r b \<and> true_inv r \<and>
     (\<exists>taken. pushed_batches (rn_acts r) = taken @ ring_contents (rn_ring r) \<and>
        b = foldl ApplyFeedUpdate empty_book (concat (map fb_updates taken)) \<and> (fresh \<longrightarrow> taken \<noteq> []))"

lemma true_linked_new:
  assumes "vp_Reset p s = s" "ring_ok ring" "ring_contents ring = []"
  shows "true_linked (new_runner i s ring options seed now) empty_book False"
proof -
  have "pushed_batches (rn_acts (new_runner i s ring options seed now)) = []"
    "rn_ring (new_runner i s ring options seed now) = ring" by (simp_all add: new_runner_def)
  with assms(3) show ?thesis by (simp add: true_linked_def linked_new [OF assms] true_new [OF assms(1)])
qed

lemma true_linked_event:
  assumes "true_linked r b fresh" "event_brings P e"
  shows "true_linked (runner_event p draw r e) b fresh \<and> rn_venue_index (runner_event p draw r e) = rn_venue_index r"
proof -
  let ?r = "runner_event p draw r e"
  have l: "linked r b" "true_inv r" "runner_inv r" "ring_ok (rn_ring r)" using assms(1) by (simp_all add: true_linked_def linked_def)
  obtain bs where "ring_contents (rn_ring ?r) = ring_contents (rn_ring r) @ bs"
    "pushed_batches (rn_acts ?r) = pushed_batches (rn_acts r) @ bs"
    using feeds_event [of r p draw e] l(4) by (auto simp: feeds_def)
  with assms(1) linked_event [OF l(1) assms(2), of draw] true_event [OF l(3,2) assms(2), of draw] show ?thesis
    by (auto simp: true_linked_def)
qed

lemma true_linked_pop:
  assumes "true_linked r b fresh" "Pop moved (rn_ring r) = (ring, x)"
  shows "true_linked (r\<lparr>rn_ring := ring\<rparr>) (case x of None \<Rightarrow> b | Some batch \<Rightarrow> foldl ApplyFeedUpdate b (fb_updates batch))
     (fresh \<or> x \<noteq> None)"
proof -
  have l: "linked r b" "true_inv r" "ring_ok (rn_ring r)" using assms(1) by (simp_all add: true_linked_def linked_def)
  obtain taken where taken: "pushed_batches (rn_acts r) = taken @ ring_contents (rn_ring r)"
    "b = foldl ApplyFeedUpdate empty_book (concat (map fb_updates taken))" "fresh \<longrightarrow> taken \<noteq> []"
    using assms(1) by (auto simp: true_linked_def)
  have "ring_contents (rn_ring r) = (case x of None \<Rightarrow> [] | Some v \<Rightarrow> [v]) @ ring_contents ring"
    using ring.pop_contents [OF l(3), of moved] assms(2) by simp
  with taken have "\<exists>taken. pushed_batches (rn_acts r) = taken @ ring_contents ring \<and>
      (case x of None \<Rightarrow> b | Some batch \<Rightarrow> foldl ApplyFeedUpdate b (fb_updates batch)) =
        foldl ApplyFeedUpdate empty_book (concat (map fb_updates taken)) \<and> (fresh \<or> x \<noteq> None \<longrightarrow> taken \<noteq> [])"
    by (intro exI [of _ "taken @ (case x of None \<Rightarrow> [] | Some v \<Rightarrow> [v])"]) (cases x; simp)
  moreover have "true_inv (r\<lparr>rn_ring := ring\<rparr>)" using l(2) by (simp add: true_inv_def)
  ultimately show ?thesis using linked_pop(1) [OF l(1) assms(2)] by (simp add: true_linked_def)
qed

lemma true_linked_book:
  assumes "true_linked r b True"
  shows "book_depth b \<in> range B"
proof -
  obtain taken where taken: "pushed_batches (rn_acts r) = taken @ ring_contents (rn_ring r)"
    "b = foldl ApplyFeedUpdate empty_book (concat (map fb_updates taken))" "taken \<noteq> []"
    and inv: "runner_inv r" "history_true (rn_acts r)"
    using assms by (auto simp: true_linked_def linked_def true_inv_def)
  have "list_all update_ok (concat (map fb_updates taken))"
    using inv(1) taken(1) by (simp add: runner_inv_def pushed_updates_batches)
  then have "book_depth b = depth_after (concat (map fb_updates taken))" using taken(2) depth_after_book by simp
  with inv(2) taken(1,3) show ?thesis unfolding history_true_def by (auto dest!: spec [of _ "length taken"])
qed

end

end
