(* ===== verification/Live_Book.thy ===== *)
theory Live_Book
  imports Follow Binance Okx Bybit
begin

text \<open>
  The runner with the three adapters: what a venue thread guarantees to the engine.
\<close>

section \<open>Properties of every venue\<close>

text \<open>C26: over any run of a runner, for time that does not go back, any more than the permitted number
  of consecutive snapshot requests span more than a minute, however often the feed gaps, the ring
  overflows or the connection drops.\<close>

theorem runner_request_rate:
  assumes "sorted (event_times es)"
  shows "spaced (nat (ro_max_resyncs_per_minute options)) minute_ns
     (request_times (rn_acts (runner_run p draw (new_runner i s ring options seed now) es)))"
proof -
  let ?r = "new_runner i s ring options seed now"
  let ?t = "case event_times es of [] \<Rightarrow> 0 | t # ts \<Rightarrow> t"
  have "within_budget (ro_max_resyncs_per_minute options) ?t ?r"
    by (simp add: within_budget_def new_runner_def new_budget_def budget_inv_def spaced_def)
  moreover have "sorted (?t # event_times es)" using assms by (cases "event_times es") auto
  ultimately show ?thesis by (rule run_budget)
qed

text \<open>C27: once a venue has reported a condition that will not go away, the runner never opens another
  connection and never schedules a reconnect, whatever happens afterwards.\<close>

theorem runner_fatal_is_final:
  assumes "vs_fatal (rn_stats (runner_run p draw r es))"
  shows "attempts (rn_acts (runner_run p draw r (es @ es'))) = attempts (rn_acts (runner_run p draw r es))"
  using down_run [of "runner_run p draw r es" p draw es'] assms by (simp add: stays_down_def runner_run_def)

section \<open>Live books\<close>

interpretation binance_run: venue_runner "binance_protocol js config" bn_synced binance_inv P for js config P
  by (rule venue_runner.intro [OF binance.venue_protocol_axioms], unfold_locales) (simp add: binance_protocol_def)

lemma binance_run_book:
  assumes "list_all (event_brings (binance_faithful js B)) es"
    and "r = runner_run (binance_protocol js config) draw (new_runner i new_binance ring options seed now) es"
    and "vs_state (rn_stats r) = kLive" "\<not> vs_fatal (rn_stats r)"
  shows "book_depth (foldl ApplyFeedUpdate empty_book (pushed_updates (rn_acts r))) = B (bn_last_update_id (rn_protocol r))"
proof -
  let ?p = "binance_protocol js config"
  have fresh: "vp_Reset ?p new_binance = new_binance"
    by (simp add: binance_protocol_def binance_Reset_def new_binance_def)
  obtain s0 "is" us b where "session ?p (vp_Reset ?p s0) is = Some (rn_protocol r, us)"
      "list_all (binance_faithful js B) is" "bn_synced (rn_protocol r)" "book_ok b"
      "foldl ApplyFeedUpdate empty_book (pushed_updates (rn_acts r)) = foldl ApplyFeedUpdate b us"
    using binance_run.live_session [OF fresh assms book_ok_empty] by blast
  with binance_session_book [of js config s0 "is" "rn_protocol r" us B b] show ?thesis
    by (simp add: binance_protocol_def)
qed


lemma binance_linked_book:
  fixes js :: "'e Dom"
  assumes "binance_run.linked TYPE('e) js config (binance_faithful js B) r b" "ring_contents (rn_ring r) = []"
    and "vs_state (rn_stats r) = kLive" "\<not> vs_fatal (rn_stats r)"
  shows "book_depth b = B (bn_last_update_id (rn_protocol r))"
proof -
  obtain s0 "is" us b' where "session (binance_protocol js config) (vp_Reset (binance_protocol js config) s0) is = Some (rn_protocol r, us)"
      "list_all (binance_faithful js B) is" "bn_synced (rn_protocol r)" "book_ok b'" "b = foldl ApplyFeedUpdate b' us"
    using assms by (rule binance_run.linked_session)
  with binance_session_book [of js config s0 "is" "rn_protocol r" us B b'] show ?thesis
    by (simp add: binance_protocol_def)
qed

interpretation bybit_run: venue_runner "bybit_protocol js config" by_synced "\<lambda>_. True" P for js config P
  by (rule venue_runner.intro [OF bybit.venue_protocol_axioms], unfold_locales) (simp add: bybit_protocol_def)


lemma bybit_linked_book:
  fixes js :: "'e Dom"
  assumes "bybit_run.linked TYPE('e) js config (bybit_faithful js B) r b" "ring_contents (rn_ring r) = []"
    and "vs_state (rn_stats r) = kLive" "\<not> vs_fatal (rn_stats r)"
  shows "book_depth b = B (by_last_update_id (rn_protocol r))"
proof -
  obtain s0 "is" us b' where "session (bybit_protocol js config) (vp_Reset (bybit_protocol js config) s0) is = Some (rn_protocol r, us)"
      "list_all (bybit_faithful js B) is" "by_synced (rn_protocol r)" "book_ok b'" "b = foldl ApplyFeedUpdate b' us"
    using assms by (rule bybit_run.linked_session)
  with bybit_session_book [of js config s0 "is" "rn_protocol r" us B b'] show ?thesis
    by (simp add: bybit_protocol_def)
qed

text \<open>OKX is only ever fed by its websocket: its runner never asks for a snapshot.\<close>

fun okx_input :: "'e Dom \<Rightarrow> TrueBook \<Rightarrow> VenueInput \<Rightarrow> bool" where
  "okx_input js B (WsFrame frame recv) = okx_faithful js B (WsFrame frame recv)"
| "okx_input js B (RestBody body recv) = False"

lemma okx_input_faithful: "okx_input js B i \<Longrightarrow> okx_faithful js B i"
  by (cases i) simp_all

interpretation okx_run: venue_runner "okx_protocol js config" ok_has_seq okx_inv "okx_input js' B" for js config js' B
  by (rule venue_runner.intro [OF okx.venue_protocol_axioms], unfold_locales) simp


lemma okx_linked_book:
  fixes js :: "'e Dom"
  assumes "okx_run.linked TYPE('e) TYPE('e) js config js B r b" "ring_contents (rn_ring r) = []"
    and "vs_state (rn_stats r) = kLive" "\<not> vs_fatal (rn_stats r)"
  shows "book_depth b = B (ok_last_seq_id (rn_protocol r))"
proof -
  obtain s0 "is" us b' where "session (okx_protocol js config) (vp_Reset (okx_protocol js config) s0) is = Some (rn_protocol r, us)"
      "list_all (okx_input js B) is" "ok_has_seq (rn_protocol r)" "book_ok b'" "b = foldl ApplyFeedUpdate b' us"
    using assms by (rule okx_run.linked_session)
  moreover from this(2) have "list_all (okx_faithful js B) is" by (auto simp: list_all_iff okx_input_faithful)
  ultimately show ?thesis
    using okx_session_book [of js config s0 "is" "rn_protocol r" us B b'] by (simp add: okx_protocol_def)
qed

section \<open>Every batch a true book\<close>

lemma session_one: "venue_input p s i = (s', kOk, us) \<Longrightarrow> session p s [i] = Some (s', us)"
  by simp

lemma binance_never_fatal: "venue_input (binance_protocol js config) s i \<noteq> (s', kFatal, us)"
proof (cases i)
  case (WsFrame frame recv)
  then show ?thesis
    by (auto simp: binance_protocol_def binance_OnFrame_def binance_on_event_def split: option.splits if_splits)
next
  case (RestBody body recv)
  then show ?thesis
    by (auto simp: binance_protocol_def binance_OnRestSnapshot_def binance_reconcile_def Let_def
        split: option.splits if_splits sum.splits prod.splits)
qed

interpretation binance_true: true_runner "binance_protocol js config" bn_synced binance_inv "binance_faithful js B" B
  "binance_tracks B" bn_last_update_id for js config B
proof (rule true_runner.intro [OF binance_run.venue_runner_axioms], unfold_locales)
  show "binance_tracks B (vp_Reset (binance_protocol js config) s) m" for s m
    by (simp add: binance_protocol_def binance_Reset_def binance_tracks_def)
  show "binance_tracks B s' (foldl depth_step m us)"
    if "binance_tracks B s m" "binance_faithful js B i" "venue_input (binance_protocol js config) s i = (s', kOk, us)" for s m i s' us
    by (rule binance_session_tracks [OF session_one [OF that(3)] that(1)]) (simp add: that(2))
qed (simp_all add: binance_never_fatal binance_tracks_def)

interpretation okx_true: true_runner "okx_protocol js config" ok_has_seq okx_inv "okx_input js B" B
  "\<lambda>s m. ok_has_seq s \<longrightarrow> m = B (ok_last_seq_id s)" ok_last_seq_id for js config B
proof (rule true_runner.intro [OF okx_run.venue_runner_axioms], unfold_locales)
  show "ok_has_seq s' \<longrightarrow> foldl depth_step m us = B (ok_last_seq_id s')"
    if "ok_has_seq s \<longrightarrow> m = B (ok_last_seq_id s)" "okx_input js B i" "venue_input (okx_protocol js config) s i = (s', kOk, us)" for s m i s' us
    by (rule okx_session_tracks [where B = B and m = m, OF session_one [OF that(3)] that(1)])
      (simp add: okx_input_faithful that(2))
  show "ok_has_seq s' \<longrightarrow> m = B (ok_last_seq_id s')"
    if "ok_has_seq s \<longrightarrow> m = B (ok_last_seq_id s)" "venue_input (okx_protocol js config) s i = (s', kFatal, us)" for s m i s' us
  proof (cases i)
    case (WsFrame frame recv)
    then have "okx_OnFrame js config s frame recv = (s', kFatal, us)" using that(2) by (simp add: okx_protocol_def)
    then show ?thesis by (cases rule: okx_OnFrame_cases) (use that(1) in \<open>auto elim: okx_on_data_cases\<close>)
  qed (use that in \<open>simp add: okx_protocol_def default_OnRestSnapshot_def\<close>)
qed (simp_all add: okx_protocol_def okx_Reset_def)

interpretation bybit_true: true_runner "bybit_protocol js config" by_synced "\<lambda>_. True" "bybit_faithful js B" B
  "bybit_tracks B" by_last_update_id for js config B
proof (rule true_runner.intro [OF bybit_run.venue_runner_axioms], unfold_locales)
  show "bybit_tracks B (vp_Reset (bybit_protocol js config) s) m" for s m
    by (simp add: bybit_protocol_def bybit_Reset_def bybit_tracks_def)
  show "bybit_tracks B s' (foldl depth_step m us)"
    if "bybit_tracks B s m" "bybit_faithful js B i" "venue_input (bybit_protocol js config) s i = (s', kOk, us)" for s m i s' us
    by (rule bybit_session_tracks [OF session_one [OF that(3)] that(1)]) (simp add: that(2))
  show "bybit_tracks B s' m"
    if "bybit_tracks B s m" "venue_input (bybit_protocol js config) s i = (s', kFatal, us)" for s m i s' us
  proof (cases i)
    case (WsFrame frame recv)
    then have "bybit_OnFrame js config s frame recv = (s', kFatal, us)" using that(2) by (simp add: bybit_protocol_def)
    then show ?thesis
      by (cases rule: bybit_OnFrame_cases)
        (use that(1) in \<open>auto simp: bybit_tracks_def elim: bybit_on_data_cases\<close>)
  qed (use that in \<open>simp add: bybit_protocol_def default_OnRestSnapshot_def\<close>)
qed (simp add: bybit_tracks_def)

section \<open>Recovery\<close>

definition alive :: "('s, 'g) VenueRunner \<Rightarrow> bool" where
  "alive r \<longleftrightarrow> \<not> rn_stopping r \<and> \<not> rn_io_stopped r"

lemma alive_OnOpen:
  fixes r :: "('s, 'g) VenueRunner"
  shows "alive r \<Longrightarrow> alive (runner_OnOpen p draw now r)"
proof -
  have sends: "alive (foldl (\<lambda>r frame. act (ActSend g frame) r) r frames) \<longleftrightarrow> alive r" for g frames and r :: "('s, 'g) VenueRunner"
    by (induction frames arbitrary: r) (simp_all add: alive_def act_def)
  have fetch: "alive (FetchSnapshot p draw now r) \<longleftrightarrow> alive r" for r :: "('s, 'g) VenueRunner"
    by (auto simp: alive_def FetchSnapshot_def ConsumeResyncToken_def ScheduleReconnect_def act_def split_beta Let_def)
  have "alive (act a r) \<longleftrightarrow> alive r" "alive (SetState st r) \<longleftrightarrow> alive r" for a st and r :: "('s, 'g) VenueRunner"
    by (simp_all add: alive_def act_def SetState_def)
  then show "alive r \<Longrightarrow> alive (runner_OnOpen p draw now r)"
    by (simp add: runner_OnOpen_def Let_def sends fetch split: option.splits)
qed

lemma reconnected:
  assumes "alive r" "\<not> vs_fatal (rn_stats r)"
  shows "alive (runner_run p draw r [EvReconnect no_error t1, EvOpen t2])"
    "rn_protocol (runner_run p draw r [EvReconnect no_error t1, EvOpen t2]) = vp_Reset p (rn_protocol r)"
    "rn_ring (runner_run p draw r [EvReconnect no_error t1, EvOpen t2]) = rn_ring r"
    "rn_venue_index (runner_run p draw r [EvReconnect no_error t1, EvOpen t2]) = rn_venue_index r"
proof -
  let ?r1 = "Connect p t1 r"
  have c: "alive ?r1" "rn_protocol ?r1 = vp_Reset p (rn_protocol r)" "rn_ring ?r1 = rn_ring r" "rn_venue_index ?r1 = rn_venue_index r"
    using assms by (simp_all add: alive_def Connect_def reset_protocol_def ArmWatchdog_def act_def SetState_def Let_def)
  have "runner_run p draw r [EvReconnect no_error t1, EvOpen t2] = runner_OnOpen p draw t2 ?r1"
    using assms c(1) by (simp add: runner_run_def runner_event_def on_reconnect_timer_def alive_def)
  with c alive_OnOpen [OF c(1)] keeps_OnOpen [of ?r1 p draw t2]
  show "alive (runner_run p draw r [EvReconnect no_error t1, EvOpen t2])"
    "rn_protocol (runner_run p draw r [EvReconnect no_error t1, EvOpen t2]) = vp_Reset p (rn_protocol r)"
    "rn_ring (runner_run p draw r [EvReconnect no_error t1, EvOpen t2]) = rn_ring r"
    "rn_venue_index (runner_run p draw r [EvReconnect no_error t1, EvOpen t2]) = rn_venue_index r"
    by (simp_all add: keeps_def)
qed

lemma Publish_room:
  assumes "ring_ok (rn_ring r)" "length (ring_contents (rn_ring r)) < ring_cap (rn_ring r)" "us \<noteq> []"
  shows "ring_contents (rn_ring (runner_Publish p draw now us r)) =
      ring_contents (rn_ring r) @ [\<lparr>fb_venue_index = rn_venue_index r, fb_updates = us\<rparr>]"
    "rn_protocol (runner_Publish p draw now us r) = rn_protocol r"
  using ring.push_room [OF assms(1,2)] assms(3) by (simp_all add: runner_Publish_def act_def split_beta Let_def)

text \<open>The event that brings an input.\<close>

fun brings :: "VenueInput \<Rightarrow> i64 \<Rightarrow> RunnerEvent" where
  "brings (WsFrame frame recv) now = EvFrame frame recv now"
| "brings (RestBody body recv) now = EvSnapshot True body recv now"

lemma live_after_input:
  assumes "alive r" "ring_ok (rn_ring r)" "length (ring_contents (rn_ring r)) < ring_cap (rn_ring r)"
    and "venue_input p (rn_protocol r) i = (s, kOk, us)" "us \<noteq> []" "vp_synced p s"
  shows "vs_state (rn_stats (runner_event p draw r (brings i now))) = kLive"
    "rn_protocol (runner_event p draw r (brings i now)) = s"
    "ring_contents (rn_ring (runner_event p draw r (brings i now))) =
       ring_contents (rn_ring r) @ [\<lparr>fb_venue_index = rn_venue_index r, fb_updates = us\<rparr>]"
proof -
  have live: "vs_state (rn_stats (live_if_synced p (runner_Publish p draw now us r'))) = kLive \<and>
      rn_protocol (live_if_synced p (runner_Publish p draw now us r')) = s \<and>
      ring_contents (rn_ring (live_if_synced p (runner_Publish p draw now us r'))) =
        ring_contents (rn_ring r) @ [\<lparr>fb_venue_index = rn_venue_index r, fb_updates = us\<rparr>]"
    if "rn_protocol r' = s" "rn_ring r' = rn_ring r" "rn_venue_index r' = rn_venue_index r" for r'
    using Publish_room [of r' us p draw now] assms that by (simp add: live_if_synced_def MarkHealthy_def SetState_def)
  show "vs_state (rn_stats (runner_event p draw r (brings i now))) = kLive"
    "rn_protocol (runner_event p draw r (brings i now)) = s"
    "ring_contents (rn_ring (runner_event p draw r (brings i now))) =
       ring_contents (rn_ring r) @ [\<lparr>fb_venue_index = rn_venue_index r, fb_updates = us\<rparr>]"
    using assms(1,4,5) by (cases i; simp add: alive_def runner_event_def runner_OnFrame_def on_snapshot_def act_def bump_def Let_def live)+
qed

text \<open>C28: a venue recovers: whatever happened to the runner before, as long as it has not been stopped and the
  venue has not reported a permanent condition, the next reconnect that opens and then delivers an
  input with which the freshly reset adapter is in sync (a snapshot) makes the venue live again, and
  the input's updates are in the ring, provided the ring has room.\<close>

theorem runner_recovers:
  assumes "\<not> rn_stopping r" "\<not> rn_io_stopped r" "\<not> vs_fatal (rn_stats r)"
    and "ring_ok (rn_ring r)" "length (ring_contents (rn_ring r)) < ring_cap (rn_ring r)"
    and "venue_input p (vp_Reset p (rn_protocol r)) i = (s, kOk, us)" "us \<noteq> []" "vp_synced p s"
  shows "let r' = runner_run p draw r [EvReconnect no_error t1, EvOpen t2, brings i t3]
         in vs_state (rn_stats r') = kLive \<and> rn_protocol r' = s \<and>
            ring_contents (rn_ring r') = ring_contents (rn_ring r) @ [\<lparr>fb_venue_index = rn_venue_index r, fb_updates = us\<rparr>]"
proof -
  let ?r = "runner_run p draw r [EvReconnect no_error t1, EvOpen t2]"
  have "alive r" using assms(1,2) by (simp add: alive_def)
  note o = reconnected [OF this assms(3), of p draw t1 t2]
  have "runner_run p draw r [EvReconnect no_error t1, EvOpen t2, brings i t3] = runner_event p draw ?r (brings i t3)"
    by (simp add: runner_run_def)
  with live_after_input [of ?r p i s us draw t3] o assms(4-8) show ?thesis by simp
qed

section \<open>Runs\<close>

definition example_ring :: FeedRing where
  "example_ring = (case new_ring \<lparr>fb_venue_index = 0, fb_updates = []\<rparr> 4 of Some ring \<Rightarrow> ring)"

definition low_draw :: "unit \<Rightarrow> int \<Rightarrow> int \<Rightarrow> int \<times> unit" where
  "low_draw g lo hi = (lo, g)"

abbreviation run_binance :: "RunnerEvent list \<Rightarrow> (Binance, unit) VenueRunner" where
  "run_binance es \<equiv> runner_run (binance_protocol example_js default_binance_config) low_draw
     (new_runner 0 new_binance example_ring default_runner_options () 0) es"

abbreviation run_okx :: "JsonTree Dom \<Rightarrow> RunnerEvent list \<Rightarrow> (Okx, unit) VenueRunner" where
  "run_okx js es \<equiv> runner_run (okx_protocol js default_okx_config) low_draw
     (new_runner 1 new_okx example_ring default_runner_options () 0) es"

abbreviation run_bybit :: "RunnerEvent list \<Rightarrow> (Bybit, unit) VenueRunner" where
  "run_bybit es \<equiv> runner_run (bybit_protocol example_bybit_js default_bybit_config) low_draw
     (new_runner 2 new_bybit example_ring default_runner_options () 0) es"

text \<open>Binance: connected, buffered, snapshot, live; then a reconnect whose snapshot makes it live again.\<close>

definition binance_events :: "RunnerEvent list" where
  "binance_events = [EvStart 1, EvOpen 2, EvFrame ''e1'' 10 10, EvSnapshot True ''snap'' 20 20,
     EvClosed 1, EvReconnect no_error 25, EvOpen 26, EvFrame ''e1'' 10 27, EvSnapshot True ''snap'' 20 28,
     EvFrame ''e2'' 30 30]"


definition bybit_events :: "RunnerEvent list" where
  "bybit_events = [EvStart 1, EvOpen 2, EvFrame ''s'' 1 3, EvFrame ''d'' 2 4]"


definition okx_events :: "RunnerEvent list" where
  "okx_events = [EvStart 1, EvOpen 2, EvFrame ''s'' 1 3, EvFrame ''pong'' 2 4, EvFrame ''u'' 3 5]"


text \<open>A connection that opens again and again: six snapshots in a minute, then no more until it has passed.\<close>

definition reopened :: "RunnerEvent list" where
  "reopened = map EvOpen [1, 2, 3, 4, 5, 6, 7, 8, 60000000002]"

theorem runner_request_rate_witness:
  "request_times (rn_acts (run_binance reopened)) = [1, 2, 3, 4, 5, 6, 60000000002] \<and>
   spaced 6 minute_ns (request_times (rn_acts (run_binance reopened)))"
proof -
  have "request_times (rn_acts (run_binance reopened)) = [1, 2, 3, 4, 5, 6, 60000000002]" by code_simp
  moreover have "sorted (event_times reopened)" by (simp add: reopened_def event_times_def)
  then have "spaced (nat (ro_max_resyncs_per_minute default_runner_options)) minute_ns
      (request_times (rn_acts (run_binance reopened)))" by (rule runner_request_rate)
  then have "spaced 6 minute_ns (request_times (rn_acts (run_binance reopened)))"
    by (simp add: default_runner_options_def)
  ultimately show ?thesis by blast
qed

definition rejecting_js :: "JsonTree Dom" where
  "rejecting_js = tree_js [(''no'', JObj [(''event'', JStr ''error''), (''msg'', JStr ''bad instrument'')])]"

theorem runner_fatal_is_final_witness:
  "vs_fatal (rn_stats (run_okx rejecting_js [EvStart 1, EvOpen 2, EvFrame ''no'' 3 3])) \<and>
   attempts (rn_acts (run_okx rejecting_js ([EvStart 1, EvOpen 2, EvFrame ''no'' 3 3] @ [EvClosed 1, EvReconnect no_error 9]))) =
     [ActOpen 1 (okc_stream_url default_okx_config)]"
proof -
  have "vs_fatal (rn_stats (run_okx rejecting_js [EvStart 1, EvOpen 2, EvFrame ''no'' 3 3]))"
    "attempts (rn_acts (run_okx rejecting_js [EvStart 1, EvOpen 2, EvFrame ''no'' 3 3])) =
       [ActOpen 1 (okc_stream_url default_okx_config)]" by code_simp+
  with runner_fatal_is_final [OF this(1), of "[EvClosed 1, EvReconnect no_error 9]"] show ?thesis by simp
qed

theorem runner_recovers_witness:
  "vs_state (rn_stats (runner_run (okx_protocol example_okx_js default_okx_config) low_draw
     (run_okx example_okx_js [EvStart 1, EvOpen 2, EvClosed 1]) [EvReconnect no_error 5, EvOpen 6, EvFrame ''s'' 1 7])) = kLive"
proof -
  let ?r = "run_okx example_okx_js [EvStart 1, EvOpen 2, EvClosed 1]" and ?p = "okx_protocol example_okx_js default_okx_config"
  have r: "\<not> rn_stopping ?r" "\<not> rn_io_stopped ?r" "\<not> vs_fatal (rn_stats ?r)" "ring_contents (rn_ring ?r) = []"
    "0 < ring_cap (rn_ring ?r)" by code_simp+
  have "rn_ring ?r = example_ring" by code_simp
  moreover have "ring_ok example_ring"
    using new_ring_ok [of 4 "\<lparr>fb_venue_index = 0, fb_updates = []\<rparr>"] by (auto simp: example_ring_def)
  ultimately have ok: "ring_ok (rn_ring ?r)" by simp
  obtain s v us where out: "venue_input ?p (vp_Reset ?p (rn_protocol ?r)) (WsFrame ''s'' 1) = (s, v, us)"
    by (cases "venue_input ?p (vp_Reset ?p (rn_protocol ?r)) (WsFrame ''s'' 1)")
  moreover have "case venue_input ?p (vp_Reset ?p (rn_protocol ?r)) (WsFrame ''s'' 1) of (s, v, us) \<Rightarrow> v = kOk \<and> us \<noteq> [] \<and> vp_synced ?p s"
    by code_simp
  ultimately have "v = kOk" "us \<noteq> []" "vp_synced ?p s" by simp_all
  with runner_recovers [of ?r ?p "WsFrame ''s'' 1" s us low_draw 5 6 7] r ok out show ?thesis by (simp add: Let_def)
qed

text \<open>
  A snapshot that could not be fetched makes the runner reconnect without closing the connection it has:
  the first connection is still open when the second one is, and both feed the same protocol.
\<close>

theorem reconnect_keeps_old_connection:
  "rn_acts (run_binance [EvStart 1, EvOpen 2, EvSnapshot False [] 3 3, EvReconnect no_error 4]) =
     [ActReset, ActOpen 1 (binance_stream_url default_binance_config), ActWatchdogAfter 15,
      ActStartKeepalive 1 [] 0, ActHttpGet (binance_RestSnapshotUrl default_binance_config) 2, ActReconnectAfter 250,
      ActReset, ActOpen 2 (binance_stream_url default_binance_config), ActWatchdogAfter 15]"
  by code_simp

end
