(* ===== verification/Pipeline.thy ===== *)
theory Pipeline
  imports Live_Book Engine
begin

text \<open>
  The aggregator as a whole (\<^verbatim>\<open>src/aggregator/main.cc\<close>): the three venue runners, each with its own ring, and
  the engine that drains the rings and publishes. The threads interleave: a step is one handler of a
  runner, the engine taking one batch from a ring, a publication, or a change of the subscribers. A
  pass of the engine's loop (\<open>engine_pass\<close>) is a sequence of such steps, between which the
  runners may do anything.
\<close>

section \<open>State and steps\<close>

record 'g Aggregator =
  ag_binance :: "(Binance, 'g) VenueRunner"
  ag_okx :: "(Okx, 'g) VenueRunner"
  ag_bybit :: "(Bybit, 'g) VenueRunner"
  ag_engine :: Engine

text \<open>Every adapter object has a JSON parser of its own.\<close>

record 'e Wiring =
  wi_binance_js :: "'e Dom"
  wi_okx_js :: "'e Dom"
  wi_bybit_js :: "'e Dom"
  wi_binance :: BinanceConfig
  wi_okx :: OkxConfig
  wi_bybit :: BybitConfig

datatype AggregatorStep =
    BinanceEvent RunnerEvent
  | OkxEvent RunnerEvent
  | BybitEvent RunnerEvent
  | DrainBinance
  | DrainOkx
  | DrainBybit
  | PublishBook i64 i64
  | Subscribe
  | Unsubscribe nat

text \<open>The engine's inner loop takes one batch, if there is one, and applies it.\<close>

definition drain_one ::
  "(FeedBatch \<Rightarrow> FeedBatch) \<Rightarrow> ('s, 'g) VenueRunner \<Rightarrow> Engine \<Rightarrow> (('s, 'g) VenueRunner \<times> Engine) option" where
  "drain_one moved r e =
     (case Pop moved (rn_ring r) of
        (ring, None) \<Rightarrow> Some (r\<lparr>rn_ring := ring\<rparr>, e)
      | (ring, Some batch) \<Rightarrow> map_option (\<lambda>e'. (r\<lparr>rn_ring := ring\<rparr>, e')) (engine_Apply e batch))"

text \<open>The engine reads the state each runner has published.\<close>

definition venue_states :: "'g Aggregator \<Rightarrow> VenueState list" where
  "venue_states a =
     [vs_state (rn_stats (ag_binance a)), vs_state (rn_stats (ag_okx a)), vs_state (rn_stats (ag_bybit a))]"

fun aggregator_step ::
  "'e Wiring \<Rightarrow> ('g \<Rightarrow> int \<Rightarrow> int \<Rightarrow> int \<times> 'g) \<Rightarrow> (FeedBatch \<Rightarrow> FeedBatch) \<Rightarrow> 'g Aggregator \<Rightarrow> AggregatorStep \<Rightarrow>
     'g Aggregator option" where
  "aggregator_step w draw moved a (BinanceEvent ev) =
     Some (a\<lparr>ag_binance := runner_event (binance_protocol (wi_binance_js w) (wi_binance w)) draw (ag_binance a) ev\<rparr>)"
| "aggregator_step w draw moved a (OkxEvent ev) =
     Some (a\<lparr>ag_okx := runner_event (okx_protocol (wi_okx_js w) (wi_okx w)) draw (ag_okx a) ev\<rparr>)"
| "aggregator_step w draw moved a (BybitEvent ev) =
     Some (a\<lparr>ag_bybit := runner_event (bybit_protocol (wi_bybit_js w) (wi_bybit w)) draw (ag_bybit a) ev\<rparr>)"
| "aggregator_step w draw moved a DrainBinance =
     map_option (\<lambda>(r, e). a\<lparr>ag_binance := r, ag_engine := e\<rparr>) (drain_one moved (ag_binance a) (ag_engine a))"
| "aggregator_step w draw moved a DrainOkx =
     map_option (\<lambda>(r, e). a\<lparr>ag_okx := r, ag_engine := e\<rparr>) (drain_one moved (ag_okx a) (ag_engine a))"
| "aggregator_step w draw moved a DrainBybit =
     map_option (\<lambda>(r, e). a\<lparr>ag_bybit := r, ag_engine := e\<rparr>) (drain_one moved (ag_bybit a) (ag_engine a))"
| "aggregator_step w draw moved a (PublishBook now_steady now_wall) =
     map_option (\<lambda>e. a\<lparr>ag_engine := e\<rparr>) (engine_Publish (venue_states a) now_steady now_wall (ag_engine a))"
| "aggregator_step w draw moved a Subscribe = Some (a\<lparr>ag_engine := fst (AddSubscriber (ag_engine a))\<rparr>)"
| "aggregator_step w draw moved a (Unsubscribe slot) = Some (a\<lparr>ag_engine := RemoveSubscriber (ag_engine a) slot\<rparr>)"

fun aggregator_run ::
  "'e Wiring \<Rightarrow> ('g \<Rightarrow> int \<Rightarrow> int \<Rightarrow> int \<times> 'g) \<Rightarrow> (FeedBatch \<Rightarrow> FeedBatch) \<Rightarrow> 'g Aggregator \<Rightarrow> AggregatorStep list \<Rightarrow>
     'g Aggregator option" where
  "aggregator_run w draw moved a [] = Some a"
| "aggregator_run w draw moved a (step # steps) =
     Option.bind (aggregator_step w draw moved a step) (\<lambda>a'. aggregator_run w draw moved a' steps)"

text \<open>
  What \<^verbatim>\<open>main\<close> builds when all three venues are selected: a ring each (\<^verbatim>\<open>main\<close> asks for 1024 batches), the
  runners numbered in the order in which the code adds them, and the engine over them.
\<close>

definition feed_ring :: "u64 \<Rightarrow> FeedRing" where
  "feed_ring capacity = (case new_ring \<lparr>fb_venue_index = 0, fb_updates = []\<rparr> capacity of Some ring \<Rightarrow> ring)"

definition new_aggregator ::
  "'e Wiring \<Rightarrow> EngineConfig \<Rightarrow> RunnerOptions \<Rightarrow> u64 \<Rightarrow> 'g \<Rightarrow> i64 \<Rightarrow> 'g Aggregator" where
  "new_aggregator w config options capacity seed now =
     \<lparr>ag_binance = new_runner 0 new_binance (feed_ring capacity) options seed now,
      ag_okx = new_runner 1 new_okx (feed_ring capacity) options seed now,
      ag_bybit = new_runner 2 new_bybit (feed_ring capacity) options seed now,
      ag_engine = new_engine config
        [\<lparr>vf_name = vp_name (binance_protocol (wi_binance_js w) (wi_binance w)),
          vf_venue_symbol = vp_venue_symbol (binance_protocol (wi_binance_js w) (wi_binance w))\<rparr>,
         \<lparr>vf_name = vp_name (okx_protocol (wi_okx_js w) (wi_okx w)),
          vf_venue_symbol = vp_venue_symbol (okx_protocol (wi_okx_js w) (wi_okx w))\<rparr>,
         \<lparr>vf_name = vp_name (bybit_protocol (wi_bybit_js w) (wi_bybit w)),
          vf_venue_symbol = vp_venue_symbol (bybit_protocol (wi_bybit_js w) (wi_bybit w))\<rparr>]\<rparr>"

section \<open>What a run is given\<close>

text \<open>The three venues' own books, as functions of their sequence numbers.\<close>

record TrueBooks =
  tb_binance :: TrueBook
  tb_okx :: TrueBook
  tb_bybit :: TrueBook

text \<open>Whatever reaches a runner is what the venue sent about its own book.\<close>

fun step_faithful :: "'e Wiring \<Rightarrow> TrueBooks \<Rightarrow> AggregatorStep \<Rightarrow> bool" where
  "step_faithful w B (BinanceEvent ev) = event_brings (binance_faithful (wi_binance_js w) (tb_binance B)) ev"
| "step_faithful w B (OkxEvent ev) = event_brings (okx_input (wi_okx_js w) (tb_okx B)) ev"
| "step_faithful w B (BybitEvent ev) = event_brings (bybit_faithful (wi_bybit_js w) (tb_bybit B)) ev"
| "step_faithful w B step = True"

text \<open>
  A venue is settled when it is shown as live and the engine has taken all its batches;
  \<open>venue_book\<close> is then the venue's own book at the last sequence number its runner applied.
\<close>

definition runner_settled :: "('s, 'g) VenueRunner \<Rightarrow> bool" where
  "runner_settled r \<longleftrightarrow>
     vs_state (rn_stats r) = kLive \<and> \<not> vs_fatal (rn_stats r) \<and> ring_contents (rn_ring r) = []"

definition settled :: "'g Aggregator \<Rightarrow> nat \<Rightarrow> bool" where
  "settled a v \<longleftrightarrow>
     (if v = 0 then runner_settled (ag_binance a) else if v = 1 then runner_settled (ag_okx a)
      else runner_settled (ag_bybit a))"

definition venue_book :: "TrueBooks \<Rightarrow> 'g Aggregator \<Rightarrow> nat \<Rightarrow> (Px \<rightharpoonup> Qty) \<times> (Px \<rightharpoonup> Qty)" where
  "venue_book B a v =
     (if v = 0 then tb_binance B (bn_last_update_id (rn_protocol (ag_binance a)))
      else if v = 1 then tb_okx B (ok_last_seq_id (rn_protocol (ag_okx a)))
      else tb_bybit B (by_last_update_id (rn_protocol (ag_bybit a))))"

section \<open>The invariant\<close>

definition aggregator_inv :: "'e Wiring \<Rightarrow> TrueBooks \<Rightarrow> 'g Aggregator \<Rightarrow> bool" where
  "aggregator_inv w B a \<longleftrightarrow>
     engine_ok (ag_engine a) \<and> length (en_venues (ag_engine a)) = 3 \<and>
     map vf_name (en_venues (ag_engine a)) = [''binance'', ''okx'', ''bybit''] \<and>
     rn_venue_index (ag_binance a) = 0 \<and> rn_venue_index (ag_okx a) = 1 \<and> rn_venue_index (ag_bybit a) = 2 \<and>
     binance_true.true_linked TYPE('e) (wi_binance_js w) (wi_binance w) (tb_binance B)
       (ag_binance a) (en_books (ag_engine a) ! 0) (en_last_recv_ns (ag_engine a) ! 0 \<noteq> 0) \<and>
     okx_true.true_linked TYPE('e) (wi_okx_js w) (wi_okx w) (tb_okx B)
       (ag_okx a) (en_books (ag_engine a) ! 1) (en_last_recv_ns (ag_engine a) ! 1 \<noteq> 0) \<and>
     bybit_true.true_linked TYPE('e) (wi_bybit_js w) (wi_bybit w) (tb_bybit B)
       (ag_bybit a) (en_books (ag_engine a) ! 2) (en_last_recv_ns (ag_engine a) ! 2 \<noteq> 0)"

context true_runner
begin

lemma true_linked_weaken: "true_linked r b fresh \<Longrightarrow> (fresh' \<Longrightarrow> fresh) \<Longrightarrow> true_linked r b fresh'"
  by (auto simp: true_linked_def)

lemma drain_one_linked:
  assumes "true_linked r (en_books e ! i) (en_last_recv_ns e ! i \<noteq> 0)" "rn_venue_index r = i" "engine_ok e" "i < length (en_venues e)"
  obtains r' e' where "drain_one moved r e = Some (r', e')"
    "true_linked r' (en_books e' ! i) (en_last_recv_ns e' ! i \<noteq> 0)" "rn_venue_index r' = i"
    "engine_ok e'" "en_venues e' = en_venues e" "\<And>j. j \<noteq> i \<Longrightarrow> en_books e' ! j = en_books e ! j"
    "\<And>j. j \<noteq> i \<Longrightarrow> en_last_recv_ns e' ! j = en_last_recv_ns e ! j"
proof -
  obtain ring x where pop: "Pop moved (rn_ring r) = (ring, x)" by fastforce
  note linked = true_linked_pop [OF assms(1) pop]
  have own: "x = Some batch \<Longrightarrow> fb_venue_index batch = rn_venue_index r \<and> list_all update_ok (fb_updates batch)" for batch
    using linked_pop(2) [OF _ pop, of "en_books e ! i"] assms(1) by (simp add: true_linked_def)
  show thesis
  proof (cases x)
    case None
    with linked pop assms that [of "r\<lparr>rn_ring := ring\<rparr>" e] show thesis by (simp add: drain_one_def)
  next
    case (Some batch)
    with own assms(2,4) have "batch_ok (length (en_venues e)) batch" by (simp add: batch_ok_def)
    with assms(3) obtain e' where e': "engine_Apply e batch = Some e'" "engine_ok e'" "en_venues e' = en_venues e"
      "en_books e' = (en_books e)[fb_venue_index batch := foldl ApplyFeedUpdate (en_books e ! fb_venue_index batch) (fb_updates batch)]"
      "\<And>j. j \<noteq> fb_venue_index batch \<Longrightarrow> en_last_recv_ns e' ! j = en_last_recv_ns e ! j"
      by (rule engine_Apply_ok) blast
    have "fb_venue_index batch = i" "i < length (en_books e)"
      using own Some assms by (simp_all add: engine_ok_def)
    with e' true_linked_weaken [OF linked] Some pop assms(2) that [of "r\<lparr>rn_ring := ring\<rparr>" e'] show thesis
      by (simp add: drain_one_def)
  qed
qed

end

lemma feed_ring_ok:
  assumes "capacity \<le> 2 ^ 63"
  shows "ring_ok (feed_ring capacity)" "ring_contents (feed_ring capacity) = []"
  using new_ring_ok [OF assms, of "\<lparr>fb_venue_index = 0, fb_updates = []\<rparr>"] by (auto simp: feed_ring_def)

lemma new_aggregator_inv:
  assumes "capacity \<le> 2 ^ 63"
  shows "aggregator_inv w B (new_aggregator w config options capacity seed now)"
proof -
  note ring = feed_ring_ok [OF assms]
  have fresh: "vp_Reset (binance_protocol js bc) new_binance = new_binance"
    "vp_Reset (okx_protocol js oc) new_okx = new_okx" "vp_Reset (bybit_protocol js yc) new_bybit = new_bybit" for js bc oc yc
    by (simp_all add: binance_protocol_def binance_Reset_def new_binance_def okx_protocol_def okx_Reset_def new_okx_def
        bybit_protocol_def bybit_Reset_def new_bybit_def)
  let ?a = "new_aggregator w config options capacity seed now"
  have a: "ag_binance ?a = new_runner 0 new_binance (feed_ring capacity) options seed now"
    "ag_okx ?a = new_runner 1 new_okx (feed_ring capacity) options seed now"
    "ag_bybit ?a = new_runner 2 new_bybit (feed_ring capacity) options seed now"
    "en_books (ag_engine ?a) = [empty_book, empty_book, empty_book]" "en_last_recv_ns (ag_engine ?a) = [0, 0, 0]" "length (en_venues (ag_engine ?a)) = 3"
    "map vf_name (en_venues (ag_engine ?a)) = [''binance'', ''okx'', ''bybit'']"
    by (simp_all add: new_aggregator_def new_engine_def binance_protocol_def okx_protocol_def bybit_protocol_def)
  have index: "rn_venue_index (ag_binance ?a) = 0" "rn_venue_index (ag_okx ?a) = 1" "rn_venue_index (ag_bybit ?a) = 2"
    by (simp_all add: a new_runner_def)
  have "engine_ok (ag_engine ?a)"
    unfolding new_aggregator_def Aggregator.simps by (rule new_engine_ok) (simp add: kMaxVenues_def)
  with index show ?thesis
    by (simp add: aggregator_inv_def a binance_true.true_linked_new [OF fresh(1) ring]
        okx_true.true_linked_new [OF fresh(2) ring] bybit_true.true_linked_new [OF fresh(3) ring])
qed

lemma subscriber_frame:
  "engine_ok e \<Longrightarrow> engine_ok (fst (AddSubscriber e))" "engine_ok e \<Longrightarrow> engine_ok (RemoveSubscriber e slot)"
  "en_books (fst (AddSubscriber e)) = en_books e" "en_books (RemoveSubscriber e slot) = en_books e"
  "en_venues (fst (AddSubscriber e)) = en_venues e" "en_venues (RemoveSubscriber e slot) = en_venues e"
  "en_last_recv_ns (fst (AddSubscriber e)) = en_last_recv_ns e" "en_last_recv_ns (RemoveSubscriber e slot) = en_last_recv_ns e"
  by (auto simp: engine_ok_def AddSubscriber_def RemoveSubscriber_def Let_def slots_stop_spec(1))

lemma aggregator_step_inv:
  assumes "aggregator_inv w B a" "step_faithful w B step"
  obtains a' where "aggregator_step w draw moved a step = Some a'" "aggregator_inv w B a'"
proof -
  let ?e = "ag_engine a"
  have e: "engine_ok ?e" "0 < length (en_venues ?e)" "1 < length (en_venues ?e)" "2 < length (en_venues ?e)"
    and index: "rn_venue_index (ag_binance a) = 0" "rn_venue_index (ag_okx a) = 1" "rn_venue_index (ag_bybit a) = 2"
    using assms(1) by (simp_all add: aggregator_inv_def)
  have bn: "binance_true.true_linked TYPE('a) (wi_binance_js w) (wi_binance w) (tb_binance B)
      (ag_binance a) (en_books ?e ! 0) (en_last_recv_ns ?e ! 0 \<noteq> 0)"
    and ok: "okx_true.true_linked TYPE('a) (wi_okx_js w) (wi_okx w) (tb_okx B)
      (ag_okx a) (en_books ?e ! 1) (en_last_recv_ns ?e ! 1 \<noteq> 0)"
    and bb: "bybit_true.true_linked TYPE('a) (wi_bybit_js w) (wi_bybit w) (tb_bybit B)
      (ag_bybit a) (en_books ?e ! 2) (en_last_recv_ns ?e ! 2 \<noteq> 0)"
    using assms(1) by (simp_all add: aggregator_inv_def)
  show thesis
  proof (cases step)
    case (BinanceEvent ev)
    then show thesis
      using that binance_true.true_linked_event [OF bn, of ev draw] assms by (simp add: aggregator_inv_def)
  next
    case (OkxEvent ev)
    then show thesis
      using that okx_true.true_linked_event [OF ok, of ev draw] assms by (simp add: aggregator_inv_def)
  next
    case (BybitEvent ev)
    then show thesis
      using that bybit_true.true_linked_event [OF bb, of ev draw] assms by (simp add: aggregator_inv_def)
  next
    case DrainBinance
    from bn index(1) e(1,2) show thesis
      by (rule binance_true.drain_one_linked [where moved = moved]) (use that DrainBinance assms(1) in \<open>simp add: aggregator_inv_def\<close>)
  next
    case DrainOkx
    from ok index(2) e(1,3) show thesis
      by (rule okx_true.drain_one_linked [where moved = moved]) (use that DrainOkx assms(1) in \<open>simp add: aggregator_inv_def\<close>)
  next
    case DrainBybit
    from bb index(3) e(1,4) show thesis
      by (rule bybit_true.drain_one_linked [where moved = moved]) (use that DrainBybit assms(1) in \<open>simp add: aggregator_inv_def\<close>)
  next
    case (PublishBook now_steady now_wall)
    from e(1) obtain book where "build_book ?e (venue_states a) now_steady now_wall = Some book" by (rule build_book_spec)
    with e(1) show thesis
      by (rule engine_Publish_ok) (use that PublishBook assms(1) in \<open>simp add: aggregator_inv_def\<close>)
  qed (use that assms(1) in \<open>simp_all add: aggregator_inv_def subscriber_frame\<close>)
qed

lemma aggregator_run_inv:
  assumes "aggregator_inv w B a" "list_all (step_faithful w B) steps"
  shows "\<exists>a'. aggregator_run w draw moved a steps = Some a' \<and> aggregator_inv w B a'"
  using assms
proof (induction steps arbitrary: a)
  case (Cons step steps)
  then obtain a1 where "aggregator_step w draw moved a step = Some a1" "aggregator_inv w B a1"
    using aggregator_step_inv [of w B a step draw moved] by auto
  with Cons show ?case by simp
qed simp

lemma aggregator_run_append:
  "aggregator_run w draw moved a (xs @ ys) = Option.bind (aggregator_run w draw moved a xs) (\<lambda>a'. aggregator_run w draw moved a' ys)"
  by (induction xs arbitrary: a) (simp_all split: bind_split)

lemma settled_book:
  assumes "aggregator_inv w B a" "v < 3" "settled a v"
  shows "book_depth (en_books (ag_engine a) ! v) = venue_book B a v"
proof -
  consider "v = 0" | "v = 1" | "v = 2" using assms(2) by linarith
  then show ?thesis
    using assms(1,3) binance_linked_book [of "wi_binance_js w" "wi_binance w" "tb_binance B" "ag_binance a" "en_books (ag_engine a) ! v"]
      okx_linked_book [of "wi_okx_js w" "wi_okx w" "tb_okx B" "ag_okx a" "en_books (ag_engine a) ! v"]
      bybit_linked_book [of "wi_bybit_js w" "wi_bybit w" "tb_bybit B" "ag_bybit a" "en_books (ag_engine a) ! v"]
    by cases (simp_all add: aggregator_inv_def settled_def runner_settled_def venue_book_def
        binance_true.true_linked_def okx_true.true_linked_def bybit_true.true_linked_def)
qed

section \<open>The published ladder\<close>

definition qty_of :: "(Px \<rightharpoonup> Qty) \<Rightarrow> Px \<Rightarrow> Qty" where
  "qty_of m px = (case m px of None \<Rightarrow> 0 | Some q \<Rightarrow> q)"

text \<open>A ladder over the venues \<open>C\<close>: best first, and at every price the sum of what the venues have there; what
  is left out is worse than everything that is in, and when it is not truncated nothing is left out.\<close>

definition sums_books :: "bool \<Rightarrow> (nat \<Rightarrow> Px \<rightharpoonup> Qty) \<Rightarrow> nat list \<Rightarrow> MergedLevel list \<Rightarrow> bool \<Rightarrow> bool" where
  "sums_books d side C out truncated \<longleftrightarrow>
     sorted_wrt (Better d) (map mpx out) \<and>
     (\<forall>l\<in>set out. mqty l = wrap64 (sum_list (map (\<lambda>v. qty_of (side v) (mpx l)) C))) \<and>
     mpx ` set out \<subseteq> (\<Union>v\<in>set C. dom (side v)) \<and>
     (\<forall>px\<in>(\<Union>v\<in>set C. dom (side v)) - mpx ` set out. \<forall>l\<in>set out. Better d (mpx l) px) \<and>
     (\<not> truncated \<longrightarrow> mpx ` set out = (\<Union>v\<in>set C. dom (side v)))"

lemma dom_depth: "dom (depth ls) = lpx ` set ls"
  by (induction ls) (auto simp: dom_def split: if_splits)

lemma publish_cut_sums:
  fixes levels :: "nat \<Rightarrow> Level list" and d C lim
  defines "L \<equiv> full_ladder d (map levels C)" and "out \<equiv> publish_cut d lim 0 0 None (full_ladder d (map levels C))"
  assumes "\<And>v. v \<in> set C \<Longrightarrow> depth (levels v) = side v"
  shows "sums_books d side C out (length out < length L)"
proof -
  have out: "out = take (length out) L"
    using publish_cut_prefix [of d lim 0 0 None L] by (simp add: out_def L_def)
  have total: "total_at (map levels C) px = sum_list (map (\<lambda>v. qty_of (side v) px) C)" for px
    unfolding total_at_def map_map by (rule arg_cong [of _ _ sum_list], rule map_cong) (simp_all add: qty_at_def qty_of_def assms(3))
  have "mpx ` set L = prices (map levels C)" unfolding L_def by (force simp: full_ladder_def)
  also have "\<dots> = (\<Union>v\<in>set C. dom (side v))" using assms(3) by (simp add: prices_def flip: dom_depth)
  finally have all: "mpx ` set L = (\<Union>v\<in>set C. dom (side v))" .
  have sub: "set out \<subseteq> set L" using out by (metis set_take_subset)
  have "mqty l = wrap64 (sum_list (map (\<lambda>v. qty_of (side v) (mpx l)) C))" if "l \<in> set out" for l
    using full_ladder_levels(2) [of l d "map levels C"] that sub by (auto simp: L_def total)
  moreover have "sorted_wrt (Better d) (map mpx out)"
    using full_ladder_sorted [of d "map levels C"] out unfolding L_def by (metis sorted_wrt_take take_map)
  moreover have "\<not> length out < length L \<Longrightarrow> out = L" using out by (metis not_less take_all)
  moreover have "Better d (mpx l) px" if "px \<in> mpx ` set L - mpx ` set out" "l \<in> set out" for px l
  proof -
    have split: "L = out @ drop (length out) L" using out by (metis append_take_drop_id)
    then have "px \<in> mpx ` set (drop (length out) L)" using that(1) by (metis DiffE UnE image_Un set_append)
    moreover have "sorted_wrt (Better d) (map mpx out @ map mpx (drop (length out) L))"
      using full_ladder_sorted [of d "map levels C"] split by (metis L_def map_append)
    ultimately show ?thesis using that(2) by (auto simp: sorted_wrt_append)
  qed
  ultimately show ?thesis using image_mono [OF sub, of mpx] all unfolding sums_books_def by (metis (no_types, lifting))
qed

text \<open>What a publication hands out, when \<open>m\<close> is the depth of the contributing venues' books.\<close>

lemma publish_sums:
  assumes "engine_ok e" "C = chosen e states now_steady" "\<And>v. v \<in> set C \<Longrightarrow> book_depth (en_books e ! v) = m v"
  obtains e' book where "engine_Publish states now_steady now_wall e = Some e'" "Latest e' = Some book"
    "en_store e' = publish_slots book (en_subscribers e) (en_store e)"
    "cb_contributing book = map (\<lambda>v. vf_name (en_venues e ! v)) C"
    "sums_books True (\<lambda>v. fst (m v)) C (cb_bids book) (cb_bids_truncated book)"
    "sums_books False (\<lambda>v. snd (m v)) C (cb_asks book) (cb_asks_truncated book)"
proof -
  from assms(3) have depth: "depth (sb_levels (vb_bids (en_books e ! v))) = fst (m v)"
    "depth (sb_levels (vb_asks (en_books e ! v))) = snd (m v)" if "v \<in> set C" for v
    using that by (simp_all add: book_depth_def prod_eq_iff)
  obtain book where b: "build_book e states now_steady now_wall = Some book"
    "cb_contributing book = map (\<lambda>i. vf_name (en_venues e ! i)) C"
    "cb_bids book = publish_cut True (publish_limits (en_config e)) 0 0 None (full_ladder True (chosen_bids e states now_steady))"
    "cb_bids_truncated book = (length (cb_bids book) < length (full_ladder True (chosen_bids e states now_steady)))"
    "cb_asks book = publish_cut False (publish_limits (en_config e)) 0 0 None (full_ladder False (chosen_asks e states now_steady))"
    "cb_asks_truncated book = (length (cb_asks book) < length (full_ladder False (chosen_asks e states now_steady)))"
    using assms(1) unfolding assms(2) by (rule build_book_spec)
  from assms(1) b(1) obtain e' where "engine_Publish states now_steady now_wall e = Some e'" "Latest e' = Some book"
    "en_store e' = publish_slots book (en_subscribers e) (en_store e)"
    by (rule engine_Publish_ok)
  moreover have "sums_books True (\<lambda>v. fst (m v)) C (cb_bids book) (cb_bids_truncated book)"
    unfolding b(4) unfolding b(3) chosen_bids_def assms(2) [symmetric] by (rule publish_cut_sums) (rule depth)
  moreover have "sums_books False (\<lambda>v. snd (m v)) C (cb_asks book) (cb_asks_truncated book)"
    unfolding b(6) unfolding b(5) chosen_asks_def assms(2) [symmetric] by (rule publish_cut_sums) (rule depth)
  ultimately show thesis using b(2) that by blast
qed

text \<open>
  A book is consistent with the venues when it is the sum, over the venues it names as contributing, of a
  book that each of them itself had at some sequence number: never a mixture of two of a venue's states,
  a half-applied update or a book with a lost update.
\<close>

definition venue_truth :: "TrueBooks \<Rightarrow> nat \<Rightarrow> TrueBook" where
  "venue_truth B v = (if v = 0 then tb_binance B else if v = 1 then tb_okx B else tb_bybit B)"

definition consistent :: "TrueBooks \<Rightarrow> ConsolidatedBook \<Rightarrow> bool" where
  "consistent B book \<longleftrightarrow>
     (\<exists>C m. distinct C \<and> set C \<subseteq> {0, 1, 2} \<and> cb_contributing book = map (\<lambda>v. [''binance'', ''okx'', ''bybit''] ! v) C \<and>
        (\<forall>v\<in>set C. m v \<in> range (venue_truth B v)) \<and>
        sums_books True (\<lambda>v. fst (m v)) C (cb_bids book) (cb_bids_truncated book) \<and>
        sums_books False (\<lambda>v. snd (m v)) C (cb_asks book) (cb_asks_truncated book))"

lemma chosen_book:
  assumes "aggregator_inv w B a" "v \<in> set (chosen (ag_engine a) states now_steady)"
  shows "book_depth (en_books (ag_engine a) ! v) \<in> range (venue_truth B v)"
proof -
  have v: "v < 3" "en_last_recv_ns (ag_engine a) ! v \<noteq> 0"
    using assms by (auto simp: aggregator_inv_def chosen_def venue_contributes_def Let_def)
  consider "v = 0" | "v = 1" | "v = 2" using v(1) by linarith
  then show ?thesis
    using assms(1) v(2)
      binance_true.true_linked_book [of "wi_binance_js w" "wi_binance w" "tb_binance B" "ag_binance a" "en_books (ag_engine a) ! v"]
      okx_true.true_linked_book [of "wi_okx_js w" "wi_okx w" "tb_okx B" "ag_okx a" "en_books (ag_engine a) ! v"]
      bybit_true.true_linked_book [of "wi_bybit_js w" "wi_bybit w" "tb_bybit B" "ag_bybit a" "en_books (ag_engine a) ! v"]
    by cases (simp_all add: aggregator_inv_def venue_truth_def)
qed

lemma publish_consistent:
  assumes "aggregator_inv w B a"
  obtains e book where "engine_Publish (venue_states a) now_steady now_wall (ag_engine a) = Some e" "Latest e = Some book"
    "en_store e = publish_slots book (en_subscribers (ag_engine a)) (en_store (ag_engine a))" "consistent B book"
proof -
  let ?e = "ag_engine a" and ?m = "\<lambda>v. book_depth (en_books (ag_engine a) ! v)"
  let ?C = "chosen ?e (venue_states a) now_steady"
  have e: "engine_ok ?e" "length (en_venues ?e) = 3" "map vf_name (en_venues ?e) = [''binance'', ''okx'', ''bybit'']"
    using assms by (simp_all add: aggregator_inv_def)
  have "set ?C \<subseteq> {..<3}" "distinct ?C" using e(2) by (auto simp: chosen_def)
  moreover have "map (\<lambda>v. vf_name (en_venues ?e ! v)) ?C = map (\<lambda>v. [''binance'', ''okx'', ''bybit''] ! v) ?C"
    using calculation(1) e(2) by (auto simp flip: e(3))
  moreover have "{..<3} = {0, 1, 2 :: nat}" by auto
  moreover obtain e' book where "engine_Publish (venue_states a) now_steady now_wall ?e = Some e'" "Latest e' = Some book"
    "en_store e' = publish_slots book (en_subscribers ?e) (en_store ?e)"
    "cb_contributing book = map (\<lambda>v. vf_name (en_venues ?e ! v)) ?C"
    "sums_books True (\<lambda>v. fst (?m v)) ?C (cb_bids book) (cb_bids_truncated book)"
    "sums_books False (\<lambda>v. snd (?m v)) ?C (cb_asks book) (cb_asks_truncated book)"
    using e(1) refl refl by (rule publish_sums)
  ultimately show thesis
    using chosen_book [OF assms] by (intro that [of e' book]) (auto simp: consistent_def intro!: exI [of _ ?C] exI [of _ ?m])
qed

lemma holds_drain: "drain_one moved r e = Some (r', e') \<Longrightarrow> engine_holds Q e \<Longrightarrow> engine_holds Q e'"
  by (auto simp: drain_one_def split: prod.splits option.splits intro: holds_Apply)

lemma step_holds:
  assumes "aggregator_inv w B a" "engine_holds (consistent B) (ag_engine a)" "aggregator_step w draw moved a step = Some a'"
  shows "engine_holds (consistent B) (ag_engine a')"
proof (cases step)
  case (PublishBook now_steady now_wall)
  obtain e book where "engine_Publish (venue_states a) now_steady now_wall (ag_engine a) = Some e" "Latest e = Some book"
    "en_store e = publish_slots book (en_subscribers (ag_engine a)) (en_store (ag_engine a))" "consistent B book"
    using assms(1) by (rule publish_consistent)
  with assms(2,3) PublishBook holds_Publish [OF assms(2), of e book] show ?thesis by auto
qed (use assms(2,3) in \<open>auto simp: holds_subscribers intro: holds_drain\<close>)

lemma aggregator_run_holds:
  assumes "aggregator_inv w B a" "engine_holds (consistent B) (ag_engine a)" "list_all (step_faithful w B) steps"
    and "aggregator_run w draw moved a steps = Some a'"
  shows "engine_holds (consistent B) (ag_engine a')"
  using assms
proof (induction steps arbitrary: a)
  case (Cons step steps)
  then obtain a1 where "aggregator_step w draw moved a step = Some a1" "aggregator_inv w B a1"
    using aggregator_step_inv [of w B a step draw moved] by auto
  with Cons step_holds show ?case by fastforce
qed simp

lemma new_aggregator_holds: "engine_holds Q (ag_engine (new_aggregator w config options capacity seed now))"
  by (simp add: new_aggregator_def new_engine_def engine_holds_def Latest_def)

section \<open>Properties\<close>




text \<open>A run in which OKX and Bybit go live and Binance is still connecting.\<close>

definition example_wiring :: "JsonTree Wiring" where
  "example_wiring =
     \<lparr>wi_binance_js = example_js, wi_okx_js = example_okx_js, wi_bybit_js = example_bybit_js,
      wi_binance = default_binance_config, wi_okx = default_okx_config, wi_bybit = default_bybit_config\<rparr>"

definition example_books :: TrueBooks where
  "example_books = \<lparr>tb_binance = example_book, tb_okx = example_okx_book, tb_bybit = example_bybit_book\<rparr>"

definition example_steps :: "AggregatorStep list" where
  "example_steps =
     [BinanceEvent (EvStart 1), OkxEvent (EvFrame ''s'' 1 3), BybitEvent (EvFrame ''s'' 1 3), DrainBybit, DrainOkx]"

abbreviation example_run :: "unit Aggregator option" where
  "example_run \<equiv> aggregator_run example_wiring low_draw (\<lambda>b. b)
     (new_aggregator example_wiring default_engine_config default_runner_options 4 () 0) example_steps"

lemma example_faithful: "list_all (step_faithful example_wiring example_books) example_steps"
  using example_okx_faithful example_bybit_faithful
  by (simp add: example_steps_def example_wiring_def example_books_def)

lemma example_settled:
  "case example_run of None \<Rightarrow> False
   | Some a \<Rightarrow> settled a 1 \<and> settled a 2 \<and> chosen (ag_engine a) (venue_states a) 40 = [1, 2] \<and>
       ok_last_seq_id (rn_protocol (ag_okx a)) = 10 \<and> by_last_update_id (rn_protocol (ag_bybit a)) = 7"
  by code_simp

lemma example_at:
  obtains a where "example_run = Some a" "settled a 1" "settled a 2" "chosen (ag_engine a) (venue_states a) 40 = [1, 2]"
    "venue_book example_books a 1 = example_okx_book 10" "venue_book example_books a 2 = example_bybit_book 7"
  using that example_settled by (auto split: option.splits simp: venue_book_def example_books_def)




end
