(* ===== verification/Service.thy ===== *)
theory Service
  imports Engine
begin

text \<open>
  The gRPC services (\<^verbatim>\<open>src/aggregator/service.h\<close>, \<^verbatim>\<open>src/aggregator/service.cc\<close>): three streams over
  one subscription loop, and the status call. The generated protobuf messages are records; gRPC's part
  (whether the call is cancelled, whether a write succeeds) is input, and so is what the engine's and the
  other handlers' threads do to the engine while a handler waits.
\<close>

section \<open>Messages\<close>

datatype GrpcStatus = StatusOk | InvalidArgument string

record Subscription =
  sn_instrument :: string
  sn_min_interval_micros :: int

record VenueClockMsg =
  vk_venue :: string
  vk_last_recv_ts_ns :: i64
  vk_last_exchange_ts_ns :: i64

record SnapshotMeta =
  me_instrument :: string
  me_sequence :: u64
  me_publish_ts_ns :: i64
  me_ingest_recv_ts_ns :: i64
  me_price_scale :: i64
  me_qty_scale :: i64
  me_bid_ladder_truncated :: bool
  me_ask_ladder_truncated :: bool
  me_contributing_venues :: "string list"
  me_stale_venues :: "string list"
  me_venue_clocks :: "VenueClockMsg list"

record TouchMsg =
  to_has_bid :: bool
  to_has_ask :: bool
  to_best_bid_e8 :: i64
  to_best_ask_e8 :: i64
  to_mid_price_e8 :: i64
  to_spread_e8 :: i64
  to_spread_bps_e8 :: i64
  to_crossed :: bool

record QuoteMsg =
  qu_price_e8 :: i64
  qu_qty_e8 :: i64
  qu_venues :: "(string \<times> i64) list"

record VolumeBandMsg =
  vm_notional_target_e8 :: i64
  vm_vwap_price_e8 :: i64
  vm_worst_price_e8 :: i64
  vm_filled_qty_e8 :: i64
  vm_filled_notional_e8 :: i64
  vm_fully_filled :: bool
  vm_levels_consumed :: int
  vm_open_ended :: bool

record PriceBandMsg =
  pm_offset_bps_e8 :: i64
  pm_bound_price_e8 :: i64
  pm_qty_e8 :: i64
  pm_notional_e8 :: i64
  pm_vwap_price_e8 :: i64
  pm_levels :: int
  pm_open_ended :: bool
  pm_depth_limited :: bool

record 'b Update =
  up_meta :: SnapshotMeta
  up_touch :: TouchMsg
  up_bid :: 'b
  up_ask :: 'b

type_synonym BboUpdate = "QuoteMsg Update"
type_synonym VolumeBandsUpdate = "VolumeBandMsg list Update"
type_synonym PriceBandsUpdate = "PriceBandMsg list Update"

section \<open>Filling messages\<close>

definition FillMeta :: "ConsolidatedBook \<Rightarrow> SnapshotMeta" where
  "FillMeta book =
     \<lparr>me_instrument = cb_instrument book, me_sequence = cb_sequence book,
      me_publish_ts_ns = cb_publish_ts_ns book, me_ingest_recv_ts_ns = cb_ingest_recv_ts_ns book,
      me_price_scale = kScale, me_qty_scale = kScale,
      me_bid_ladder_truncated = cb_bids_truncated book, me_ask_ladder_truncated = cb_asks_truncated book,
      me_contributing_venues = cb_contributing book, me_stale_venues = cb_stale book,
      me_venue_clocks =
        map (\<lambda>clock. \<lparr>vk_venue = vc_name clock, vk_last_recv_ts_ns = vc_last_recv_ts_ns clock,
                      vk_last_exchange_ts_ns = vc_last_exchange_ts_ns clock\<rparr>) (cb_clocks book)\<rparr>"

definition FillTouch :: "TouchInfo \<Rightarrow> TouchMsg" where
  "FillTouch touch =
     \<lparr>to_has_bid = has_bid touch, to_has_ask = has_ask touch, to_best_bid_e8 = best_bid touch,
      to_best_ask_e8 = best_ask touch, to_mid_price_e8 = mid touch, to_spread_e8 = spread_e8 touch,
      to_spread_bps_e8 = spread_bps_e8 touch, to_crossed = crossed touch\<rparr>"

text \<open>A message field that is not set is zero or empty.\<close>

definition FillQuote :: "MergedLevel list \<Rightarrow> VenueTouch list \<Rightarrow> QuoteMsg" where
  "FillQuote side touch =
     (case side of
        [] \<Rightarrow> \<lparr>qu_price_e8 = 0, qu_qty_e8 = 0, qu_venues = []\<rparr>
      | front # _ \<Rightarrow> \<lparr>qu_price_e8 = mpx front, qu_qty_e8 = mqty front,
                      qu_venues = map (\<lambda>contribution. (vt_venue contribution, vt_qty contribution)) touch\<rparr>)"

definition MakeView :: "ConsolidatedBook \<Rightarrow> bool \<Rightarrow> LadderView" where
  "MakeView book bids = \<lparr>lv_levels = (if bids then cb_bids book else cb_asks book), lv_descending = bids\<rparr>"

definition FillVolumeBands :: "SideBands \<Rightarrow> VolumeBandMsg list" where
  "FillVolumeBands bands =
     map (\<lambda>band. \<lparr>vm_notional_target_e8 = vb_target_e8 band, vm_vwap_price_e8 = vb_vwap_e8 band,
                  vm_worst_price_e8 = vb_worst_e8 band, vm_filled_qty_e8 = vb_filled_qty_e8 band,
                  vm_filled_notional_e8 = vb_filled_notional_e8 band, vm_fully_filled = vb_fully_filled band,
                  vm_levels_consumed = vb_levels_consumed band, vm_open_ended = vb_open_ended band\<rparr>)
       (sb_volume bands)"

definition FillPriceBands :: "SideBands \<Rightarrow> PriceBandMsg list" where
  "FillPriceBands bands =
     map (\<lambda>band. \<lparr>pm_offset_bps_e8 = pb_offset_bps_e8 band, pm_bound_price_e8 = pb_bound_e8 band,
                  pm_qty_e8 = pb_qty_e8 band, pm_notional_e8 = pb_notional_e8 band,
                  pm_vwap_price_e8 = pb_vwap_e8 band, pm_levels = pb_levels band,
                  pm_open_ended = pb_open_ended band, pm_depth_limited = pb_depth_limited band\<rparr>)
       (sb_price bands)"

text \<open>\<^verbatim>\<open>BeginUpdate\<close> with the two sides of the update.\<close>

definition BeginUpdate :: "ConsolidatedBook \<Rightarrow> 'b \<Rightarrow> 'b \<Rightarrow> 'b Update" where
  "BeginUpdate book bid ask =
     \<lparr>up_meta = FillMeta book, up_touch = FillTouch (ComputeTouch (MakeView book True) (MakeView book False)),
      up_bid = bid, up_ask = ask\<rparr>"

definition bbo_update :: "ConsolidatedBook \<Rightarrow> BboUpdate" where
  "bbo_update book =
     BeginUpdate book (FillQuote (cb_bids book) (cb_bid_touch book)) (FillQuote (cb_asks book) (cb_ask_touch book))"

definition volume_bands_update :: "BandConfig \<Rightarrow> ConsolidatedBook \<Rightarrow> VolumeBandsUpdate" where
  "volume_bands_update config book =
     BeginUpdate book (FillVolumeBands (ComputeSideBands (MakeView book True) config))
       (FillVolumeBands (ComputeSideBands (MakeView book False) config))"

definition price_bands_update :: "BandConfig \<Rightarrow> ConsolidatedBook \<Rightarrow> PriceBandsUpdate" where
  "price_bands_update config book =
     BeginUpdate book (FillPriceBands (ComputeSideBands (MakeView book True) config))
       (FillPriceBands (ComputeSideBands (MakeView book False) config))"

section \<open>Requests\<close>

definition kMaxBandsPerRequest :: int where
  "kMaxBandsPerRequest = 32"

definition DefaultNotionalBands :: "Notional list" where
  "DefaultNotionalBands =
     [1000000 * kScale, 5000000 * kScale, 10000000 * kScale, 25000000 * kScale, 50000000 * kScale]"

definition DefaultBpsOffsets :: "i64 list" where
  "DefaultBpsOffsets = [50 * kScale, 100 * kScale, 200 * kScale, 500 * kScale, 1000 * kScale]"

text \<open>\<^verbatim>\<open>std::adjacent_find\<close>: the first value that equals its successor.\<close>

fun adjacent_find :: "i64 list \<Rightarrow> i64 option" where
  "adjacent_find (x # y # xs) = (if x = y then Some x else adjacent_find (y # xs))"
| "adjacent_find xs = None"

definition NormaliseBands :: "string \<Rightarrow> i64 list \<Rightarrow> i64 list \<Rightarrow> GrpcStatus + i64 list" where
  "NormaliseBands field requested defaults =
     (if requested = [] then Inr defaults
      else if int (length requested) > kMaxBandsPerRequest
      then Inl (InvalidArgument (field @ '': at most '' @ int_to_string kMaxBandsPerRequest @
                '' bands per request, got '' @ int_to_string (int (length requested))))
      else case find (\<lambda>value. value \<le> 0) requested of
             Some value \<Rightarrow> Inl (InvalidArgument (field @ '': values must be positive, got '' @ int_to_string value))
           | None \<Rightarrow>
               (case adjacent_find (sort requested) of
                  Some duplicate \<Rightarrow> Inl (InvalidArgument (field @ '': duplicate value '' @ int_to_string duplicate))
                | None \<Rightarrow> Inr (sort requested)))"

definition MakeVolumeConfig :: "i64 list \<Rightarrow> GrpcStatus + BandConfig" where
  "MakeVolumeConfig requested =
     (case NormaliseBands ''notional_bands_e8'' requested DefaultNotionalBands of
        Inl status \<Rightarrow> Inl status
      | Inr bands \<Rightarrow> Inr \<lparr>notionals_e8 = bands, offsets_bps_e8 = []\<rparr>)"

definition MakePriceConfig :: "i64 list \<Rightarrow> GrpcStatus + BandConfig" where
  "MakePriceConfig requested =
     (case NormaliseBands ''offsets_bps_e8'' requested DefaultBpsOffsets of
        Inl status \<Rightarrow> Inl status
      | Inr bands \<Rightarrow> Inr \<lparr>notionals_e8 = [], offsets_bps_e8 = bands\<rparr>)"

definition CheckInstrument :: "Engine \<Rightarrow> Subscription \<Rightarrow> GrpcStatus" where
  "CheckInstrument e subscription =
     (if sn_instrument subscription \<noteq> [] \<and> sn_instrument subscription \<noteq> ec_instrument (en_config e)
      then InvalidArgument (''this server aggregates '' @ ec_instrument (en_config e) @ '', not '' @ sn_instrument subscription)
      else StatusOk)"

section \<open>The subscription loop\<close>

text \<open>
  One turn of the loop: whether the call is found cancelled, what the other threads do to the engine
  until the bounded wait is over, the clock, and whether the write succeeds. The code reads the slot's
  stopped flag after the wait; a stop that falls between the two has the effect of one before the wait,
  since the book that the wait returned is then dropped.
\<close>

record StreamTurn =
  tu_cancelled :: bool
  tu_world :: "Engine \<Rightarrow> Engine"
  tu_now :: i64
  tu_write_ok :: bool

text \<open>The handler's variables; \<open>sm_sent\<close> records the books written and when.\<close>

record Stream =
  sm_slot :: nat
  sm_last_sent :: "i64 option"
  sm_last_sequence :: u64
  sm_open :: bool
  sm_sent :: "(i64 \<times> ConsolidatedBook) list"

definition micros_ns :: "int \<Rightarrow> i64" where
  "micros_ns micros = micros * 1000"

definition wait_slot :: "nat \<Rightarrow> Engine \<Rightarrow> Engine \<times> BookSlot \<times> ConsolidatedBook option" where
  "wait_slot slot e =
     (case WaitNextFor True (en_store e ! slot) of
        None \<Rightarrow> (e, en_store e ! slot, None)
      | Some (s, book) \<Rightarrow> (e\<lparr>en_store := (en_store e)[slot := s]\<rparr>, s, book))"

definition write_book :: "StreamTurn \<Rightarrow> ConsolidatedBook \<Rightarrow> Stream \<Rightarrow> Stream" where
  "write_book turn book m =
     (if tu_write_ok turn then m\<lparr>sm_sent := sm_sent m @ [(tu_now turn, book)]\<rparr> else m\<lparr>sm_open := False\<rparr>)"

definition stream_turn :: "Subscription \<Rightarrow> Engine \<times> Stream \<Rightarrow> StreamTurn \<Rightarrow> Engine \<times> Stream" where
  "stream_turn subscription em turn =
     (let (e, m) = em
      in if \<not> sm_open m then (e, m)
         else if tu_cancelled turn then (e, m\<lparr>sm_open := False\<rparr>)
         else
           let (e1, slot, waited) = wait_slot (sm_slot m) (tu_world turn e)
           in if cs_stopped slot then (e1, m\<lparr>sm_open := False\<rparr>)
              else case waited of
                None \<Rightarrow> (e1, m)
              | Some book \<Rightarrow>
                  if cb_sequence book \<le> sm_last_sequence m then (e1, m)
                  else
                    let m1 = m\<lparr>sm_last_sequence := cb_sequence book\<rparr>;
                        min_interval = micros_ns (sn_min_interval_micros subscription)
                    in if min_interval > 0 then
                         if (case sm_last_sent m1 of None \<Rightarrow> False | Some sent \<Rightarrow> tu_now turn - sent < min_interval)
                         then (e1, m1)
                         else (e1, write_book turn book (m1\<lparr>sm_last_sent := Some (tu_now turn)\<rparr>))
                       else (e1, write_book turn book m1))"

text \<open>
  Before the loop: the slot is registered, then the current book is sent, if there is one. The other
  threads may run between the two, so a book can be published into the slot and be the current one as
  well.
\<close>

definition stream_subscribe :: "Engine \<Rightarrow> Engine \<times> Stream" where
  "stream_subscribe e =
     (let (e1, slot) = AddSubscriber e
      in (e1, \<lparr>sm_slot = slot, sm_last_sent = None, sm_last_sequence = 0, sm_open = True, sm_sent = []\<rparr>))"

definition stream_initial :: "i64 \<Rightarrow> bool \<Rightarrow> Engine \<times> Stream \<Rightarrow> Engine \<times> Stream" where
  "stream_initial now write_ok em =
     (let (e, m) = em
      in case Latest e of
           None \<Rightarrow> (e, m)
         | Some initial \<Rightarrow>
             if \<not> write_ok then (e, m\<lparr>sm_open := False\<rparr>)
             else (e, m\<lparr>sm_sent := sm_sent m @ [(now, initial)], sm_last_sequence := cb_sequence initial,
                        sm_last_sent := Some now\<rparr>))"

definition stream_begin :: "Engine \<Rightarrow> (Engine \<Rightarrow> Engine) \<Rightarrow> i64 \<Rightarrow> bool \<Rightarrow> Engine \<times> Stream" where
  "stream_begin e world now write_ok =
     (let (e1, m) = stream_subscribe e in stream_initial now write_ok (world e1, m))"

text \<open>
  The handler up to the end of the given turns: its status, the engine, what was written, and whether it
  is still running; when it ends, its subscriber is removed.
\<close>

definition RunStream ::
  "Engine \<Rightarrow> Subscription \<Rightarrow> (Engine \<Rightarrow> Engine) \<Rightarrow> i64 \<Rightarrow> bool \<Rightarrow> StreamTurn list \<Rightarrow> GrpcStatus \<times> Engine \<times> (i64 \<times> ConsolidatedBook) list \<times> bool" where
  "RunStream e subscription world now write_ok turns =
     (if CheckInstrument e subscription \<noteq> StatusOk then (CheckInstrument e subscription, e, [], False)
      else
        let (e1, m) = foldl (stream_turn subscription) (stream_begin e world now write_ok) turns
        in if sm_open m then (StatusOk, e1, sm_sent m, True)
           else (StatusOk, RemoveSubscriber e1 (sm_slot m), sm_sent m, False))"

definition bbo_Stream ::
  "Engine \<Rightarrow> Subscription \<Rightarrow> (Engine \<Rightarrow> Engine) \<Rightarrow> i64 \<Rightarrow> bool \<Rightarrow> StreamTurn list \<Rightarrow> GrpcStatus \<times> Engine \<times> BboUpdate list \<times> bool" where
  "bbo_Stream e subscription world now write_ok turns =
     (let (status, e1, sent, running) = RunStream e subscription world now write_ok turns
      in (status, e1, map (bbo_update \<circ> snd) sent, running))"

definition volume_bands_Stream ::
  "Engine \<Rightarrow> Subscription \<Rightarrow> i64 list \<Rightarrow> (Engine \<Rightarrow> Engine) \<Rightarrow> i64 \<Rightarrow> bool \<Rightarrow> StreamTurn list \<Rightarrow>
     GrpcStatus \<times> Engine \<times> VolumeBandsUpdate list \<times> bool" where
  "volume_bands_Stream e subscription notional_bands world now write_ok turns =
     (case MakeVolumeConfig notional_bands of
        Inl status \<Rightarrow> (status, e, [], False)
      | Inr config \<Rightarrow>
          let (status, e1, sent, running) = RunStream e subscription world now write_ok turns
          in (status, e1, map (volume_bands_update config \<circ> snd) sent, running))"

definition price_bands_Stream ::
  "Engine \<Rightarrow> Subscription \<Rightarrow> i64 list \<Rightarrow> (Engine \<Rightarrow> Engine) \<Rightarrow> i64 \<Rightarrow> bool \<Rightarrow> StreamTurn list \<Rightarrow>
     GrpcStatus \<times> Engine \<times> PriceBandsUpdate list \<times> bool" where
  "price_bands_Stream e subscription offsets world now write_ok turns =
     (case MakePriceConfig offsets of
        Inl status \<Rightarrow> (status, e, [], False)
      | Inr config \<Rightarrow>
          let (status, e1, sent, running) = RunStream e subscription world now write_ok turns
          in (status, e1, map (price_bands_update config \<circ> snd) sent, running))"

section \<open>The status call\<close>

record VenueStatusMsg =
  vx_venue :: string
  vx_venue_symbol :: string
  vx_state :: VenueState
  vx_last_recv_ts_ns :: i64
  vx_last_exchange_ts_ns :: i64
  vx_messages :: u64
  vx_resyncs :: u64
  vx_sequence_gaps :: u64
  vx_ring_overflows :: u64
  vx_bid_levels :: nat
  vx_ask_levels :: nat
  vx_best_bid_e8 :: i64
  vx_best_ask_e8 :: i64

record VenueStatusResponse =
  sr_venues :: "VenueStatusMsg list"
  sr_aggregation_latency :: LatencySummary
  sr_published_snapshots :: u64
  sr_server_ts_ns :: i64
  sr_uptime_ns :: i64

definition venue_status :: "VenueFeed \<Rightarrow> VenueStats \<Rightarrow> VenueStatusMsg" where
  "venue_status venue stats =
     \<lparr>vx_venue = vf_name venue, vx_venue_symbol = vf_venue_symbol venue, vx_state = vs_state stats,
      vx_last_recv_ts_ns = vs_last_recv_ts_ns stats, vx_last_exchange_ts_ns = vs_last_exchange_ts_ns stats,
      vx_messages = vs_messages stats, vx_resyncs = vs_resyncs stats, vx_sequence_gaps = vs_sequence_gaps stats,
      vx_ring_overflows = vs_ring_overflows stats, vx_bid_levels = 0, vx_ask_levels = 0, vx_best_bid_e8 = 0,
      vx_best_ask_e8 = 0\<rparr>"

definition add_depth :: "VenueStatusMsg \<Rightarrow> VenueClockInfo \<Rightarrow> VenueStatusMsg" where
  "add_depth status clock =
     status\<lparr>vx_bid_levels := vc_bid_levels clock, vx_ask_levels := vc_ask_levels clock,
            vx_best_bid_e8 := vc_best_bid clock, vx_best_ask_e8 := vc_best_ask clock\<rparr>"

text \<open>The statuses beyond the clocks of the latest book keep their zero depth.\<close>

definition GetVenueStatus :: "Engine \<Rightarrow> VenueStats list \<Rightarrow> i64 \<Rightarrow> i64 \<Rightarrow> VenueStatusResponse" where
  "GetVenueStatus e stats now_wall now_wall2 =
     (let venues = map2 venue_status (en_venues e) stats;
          clocks = (case Latest e of None \<Rightarrow> [] | Some book \<Rightarrow> cb_clocks book)
      in \<lparr>sr_venues = map2 add_depth venues clocks @ drop (length clocks) venues,
          sr_aggregation_latency = Latency e, sr_published_snapshots = en_published e,
          sr_server_ts_ns = now_wall, sr_uptime_ns = wrap64 (now_wall2 - en_start_wall_ns e)\<rparr>)"

section \<open>Band lists\<close>

lemma adjacent_find_distinct: "sorted xs \<Longrightarrow> adjacent_find xs = None \<longleftrightarrow> distinct xs"
  by (induction xs rule: adjacent_find.induct) auto

lemma NormaliseBands_valid:
  "NormaliseBands field requested defaults = Inr bands \<longleftrightarrow>
     (if requested = [] then bands = defaults
      else length requested \<le> 32 \<and> list_all (\<lambda>v. 0 < v) requested \<and> distinct requested \<and> bands = sort requested)"
proof -
  have pos: "find (\<lambda>v. v \<le> 0) requested = None \<longleftrightarrow> list_all (\<lambda>v. 0 < v) requested"
    by (auto simp: find_None_iff list_all_iff not_le)
  have dup: "adjacent_find (sort requested) = None \<longleftrightarrow> distinct requested"
    using adjacent_find_distinct [of "sort requested"] by simp
  show ?thesis
    by (cases "find (\<lambda>v. v \<le> 0) requested"; cases "adjacent_find (sort requested)")
      (use pos dup in \<open>auto simp: NormaliseBands_def kMaxBandsPerRequest_def\<close>)
qed

definition band_list :: "i64 list \<Rightarrow> i64 list \<Rightarrow> i64 list" where
  "band_list requested defaults = (if requested = [] then defaults else sort requested)"

lemma NormaliseBands_sorted:
  assumes "NormaliseBands field requested defaults = Inr bands" "sorted defaults"
  shows "bands = band_list requested defaults" "sorted bands"
  using assms by (auto simp: NormaliseBands_valid band_list_def split: if_splits)

lemma defaults_sorted: "sorted DefaultNotionalBands" "sorted DefaultBpsOffsets"
  by (simp_all add: DefaultNotionalBands_def DefaultBpsOffsets_def kScale_def)

section \<open>Streams\<close>

text \<open>
  What holds of a handler between two turns: sequence numbers increase, the floor between two messages
  is kept, and the handler knows its last message.
\<close>

definition kept_apart :: "i64 \<Rightarrow> i64 list \<Rightarrow> bool" where
  "kept_apart gap ts \<longleftrightarrow> (\<forall>i. Suc i < length ts \<longrightarrow> ts ! Suc i - ts ! i \<ge> gap)"

lemma kept_apart_snoc:
  "kept_apart gap (ts @ [t]) \<longleftrightarrow> kept_apart gap ts \<and> (ts \<noteq> [] \<longrightarrow> t - last ts \<ge> gap)"
proof (cases ts rule: rev_cases)
  case (snoc us u)
  show ?thesis
  proof
    assume all: "kept_apart gap (ts @ [t])"
    have "ts ! Suc i - ts ! i \<ge> gap" if "Suc i < length ts" for i
      using all [unfolded kept_apart_def, rule_format, of i] that by (simp add: nth_append)
    moreover have "t - last ts \<ge> gap"
      using all [unfolded kept_apart_def, rule_format, of "length us"] snoc by (simp add: nth_append)
    ultimately show "kept_apart gap ts \<and> (ts \<noteq> [] \<longrightarrow> t - last ts \<ge> gap)" by (simp add: kept_apart_def)
  next
    assume parts: "kept_apart gap ts \<and> (ts \<noteq> [] \<longrightarrow> t - last ts \<ge> gap)"
    show "kept_apart gap (ts @ [t])"
      unfolding kept_apart_def
    proof (intro allI impI)
      fix i
      assume i: "Suc i < length (ts @ [t])"
      show "(ts @ [t]) ! Suc i - (ts @ [t]) ! i \<ge> gap"
      proof (cases "Suc i < length ts")
        case True
        with parts show ?thesis by (simp add: kept_apart_def nth_append)
      next
        case False
        with i snoc have "i = length us" by simp
        with parts snoc show ?thesis by (simp add: nth_append)
      qed
    qed
  qed
qed (simp add: kept_apart_def)

definition stream_inv :: "Subscription \<Rightarrow> Stream \<Rightarrow> bool" where
  "stream_inv subscription m \<longleftrightarrow>
     (let gap = micros_ns (sn_min_interval_micros subscription)
      in sorted_wrt (<) (map (cb_sequence \<circ> snd) (sm_sent m)) \<and>
         (gap > 0 \<longrightarrow> kept_apart gap (map fst (sm_sent m))) \<and>
         (sm_sent m \<noteq> [] \<longrightarrow> cb_sequence (snd (last (sm_sent m))) \<le> sm_last_sequence m) \<and>
         (sm_open m \<and> gap > 0 \<and> sm_sent m \<noteq> [] \<longrightarrow> sm_last_sent m = Some (fst (last (sm_sent m)))))"

lemma sorted_wrt_snoc_last:
  "sorted_wrt (<) (xs @ [x :: 'a :: linorder]) \<longleftrightarrow> sorted_wrt (<) xs \<and> (xs \<noteq> [] \<longrightarrow> last xs < x)"
proof (cases xs rule: rev_cases)
  case (snoc ys y)
  then show ?thesis by (auto simp: sorted_wrt_append)
qed simp

lemma begin_inv: "stream_inv subscription (snd (stream_begin e world now write_ok))"
  by (auto simp: stream_begin_def stream_subscribe_def stream_initial_def stream_inv_def AddSubscriber_def Let_def kept_apart_def split: option.splits)

lemma write_inv:
  assumes "stream_inv subscription m" "sm_last_sequence m < cb_sequence book"
    and "sm_sent m' = sm_sent m" "sm_last_sequence m' = cb_sequence book"
    and "micros_ns (sn_min_interval_micros subscription) > 0 \<Longrightarrow> sm_last_sent m' = Some (tu_now turn) \<and>
      (sm_sent m \<noteq> [] \<longrightarrow> tu_now turn - fst (last (sm_sent m)) \<ge> micros_ns (sn_min_interval_micros subscription))"
  shows "stream_inv subscription (write_book turn book m')"
proof (cases "tu_write_ok turn")
  case True
  have "sm_sent m \<noteq> [] \<longrightarrow> cb_sequence (snd (last (sm_sent m))) < cb_sequence book"
    using assms(1,2) by (auto simp: stream_inv_def Let_def)
  then have "sorted_wrt (<) (map (cb_sequence \<circ> snd) (sm_sent m) @ [cb_sequence book])"
    using assms(1) by (simp add: sorted_wrt_snoc_last stream_inv_def Let_def last_map)
  moreover have "micros_ns (sn_min_interval_micros subscription) > 0 \<longrightarrow>
      kept_apart (micros_ns (sn_min_interval_micros subscription)) (map fst (sm_sent m) @ [tu_now turn])"
    using assms(1,5) by (auto simp: kept_apart_snoc stream_inv_def Let_def last_map)
  ultimately show ?thesis using True assms(3-5) by (simp add: write_book_def stream_inv_def Let_def)
next
  case False
  with assms show ?thesis by (auto simp: write_book_def stream_inv_def Let_def)
qed

lemma turn_inv:
  assumes "stream_inv subscription (snd em)"
  shows "stream_inv subscription (snd (stream_turn subscription em turn))"
proof -
  obtain e m where em: "em = (e, m)" by (cases em)
  obtain e1 slot waited where w: "wait_slot (sm_slot m) (tu_world turn e) = (e1, slot, waited)"
    by (cases "wait_slot (sm_slot m) (tu_world turn e)")
  let ?gap = "micros_ns (sn_min_interval_micros subscription)"
  have inv: "stream_inv subscription m" using assms em by simp
  have closed: "stream_inv subscription (m\<lparr>sm_open := False\<rparr>)" using inv by (simp add: stream_inv_def Let_def)
  have skip: "stream_inv subscription (m\<lparr>sm_last_sequence := cb_sequence book\<rparr>)"
    if "sm_last_sequence m < cb_sequence book" for book
    using inv that by (auto simp: stream_inv_def Let_def)
  have paced: "stream_inv subscription (write_book turn book
      (m\<lparr>sm_last_sequence := cb_sequence book, sm_last_sent := Some (tu_now turn)\<rparr>))"
    if "sm_open m" "sm_last_sequence m < cb_sequence book"
      "\<not> (case sm_last_sent m of None \<Rightarrow> False | Some sent \<Rightarrow> tu_now turn - sent < ?gap)" for book
    by (rule write_inv [OF inv that(2)]) (use that inv in \<open>auto simp: stream_inv_def Let_def\<close>)
  have unpaced: "stream_inv subscription (write_book turn book (m\<lparr>sm_last_sequence := cb_sequence book\<rparr>))"
    if "sm_last_sequence m < cb_sequence book" "\<not> ?gap > 0" for book
    by (rule write_inv [OF inv that(1)]) (use that(2) in simp_all)
  show ?thesis
    using inv closed skip paced unpaced
    by (auto simp: stream_turn_def em w Let_def not_le split: option.splits)
qed

lemma turns_inv: "stream_inv subscription (snd em) \<Longrightarrow> stream_inv subscription (snd (foldl (stream_turn subscription) em turns))"
  by (induction turns arbitrary: em) (simp_all add: turn_inv)

section \<open>What a stream sends\<close>

lemma wait_slot_frame:
  assumes "wait_slot i e = (e', slot, x)"
  shows "en_venues e' = en_venues e" "en_books e' = en_books e" "en_last_recv_ns e' = en_last_recv_ns e"
    "en_subscribers e' = en_subscribers e" "en_config e' = en_config e" "length (en_store e') = length (en_store e)"
    "map cs_stopped (en_store e') = map cs_stopped (en_store e)" "engine_ok e \<Longrightarrow> engine_ok e'"
proof -
  have stopped: "(map cs_stopped (en_store e))[i := cs_stopped (en_store e ! i)] = map cs_stopped (en_store e)"
    by (cases "i < length (en_store e)") (simp_all add: list_update_same_conv list_update_beyond)
  show "en_venues e' = en_venues e" "en_books e' = en_books e" "en_last_recv_ns e' = en_last_recv_ns e"
    "en_subscribers e' = en_subscribers e" "en_config e' = en_config e" "length (en_store e') = length (en_store e)"
    "map cs_stopped (en_store e') = map cs_stopped (en_store e)" "engine_ok e \<Longrightarrow> engine_ok e'"
    using assms stopped
    by (auto simp: wait_slot_def WaitNextFor_def take_pending_def engine_ok_def map_update split: option.splits if_splits)
qed

text \<open>
  What the handlers rely on: as long as \<open>G\<close> holds of the engine, every book that it hands out, as the latest one
  or through a slot, satisfies \<open>Q\<close>, and the handlers' own operations keep \<open>G\<close>.
\<close>

locale book_supply =
  fixes G :: "Engine \<Rightarrow> bool" and Q :: "ConsolidatedBook \<Rightarrow> bool"
  assumes supply_latest: "G e \<Longrightarrow> Latest e = Some book \<Longrightarrow> Q book"
    and supply_wait: "G e \<Longrightarrow> i < length (en_store e) \<Longrightarrow> wait_slot i e = (e', slot, x) \<Longrightarrow> G e' \<and> pred_option Q x"
    and supply_add: "G e \<Longrightarrow> G (fst (AddSubscriber e))"
    and supply_remove: "G e \<Longrightarrow> G (RemoveSubscriber e i)"
begin

text \<open>What the other threads do keeps \<open>G\<close> and the slots there are.\<close>

definition benign :: "(Engine \<Rightarrow> Engine) \<Rightarrow> bool" where
  "benign world \<longleftrightarrow> (\<forall>e. G e \<longrightarrow> G (world e) \<and> length (en_store e) \<le> length (en_store (world e)))"

definition supplied :: "Engine \<times> Stream \<Rightarrow> bool" where
  "supplied em \<longleftrightarrow> G (fst em) \<and> sm_slot (snd em) < length (en_store (fst em)) \<and> list_all (Q \<circ> snd) (sm_sent (snd em))"

lemma subscribe_supplied: "G e \<Longrightarrow> supplied (stream_subscribe e)"
  using supply_add [of e] by (simp add: supplied_def stream_subscribe_def AddSubscriber_def Let_def)

lemma initial_supplied: "supplied em \<Longrightarrow> supplied (stream_initial now write_ok em)"
  using supply_latest [of "fst em"] by (auto simp: supplied_def stream_initial_def split_beta split: option.splits)

lemma turn_supplied:
  assumes "supplied em" "benign (tu_world turn)"
  shows "supplied (stream_turn subscription em turn)"
proof -
  obtain e m where em: "em = (e, m)" by (cases em)
  obtain e1 slot waited where w: "wait_slot (sm_slot m) (tu_world turn e) = (e1, slot, waited)"
    by (cases "wait_slot (sm_slot m) (tu_world turn e)")
  have "G (tu_world turn e)" "sm_slot m < length (en_store (tu_world turn e))"
    using assms em by (auto simp: supplied_def benign_def intro: less_le_trans)
  moreover from supply_wait [OF this w] have "G e1" "pred_option Q waited" by simp_all
  moreover have "length (en_store e1) = length (en_store (tu_world turn e))" by (rule wait_slot_frame(6) [OF w])
  ultimately show ?thesis
    using assms(1) em w by (auto simp: supplied_def stream_turn_def write_book_def Let_def split: option.splits)
qed

lemma turns_supplied:
  "supplied em \<Longrightarrow> \<forall>turn\<in>set turns. benign (tu_world turn) \<Longrightarrow> supplied (foldl (stream_turn subscription) em turns)"
  by (induction turns arbitrary: em) (simp_all add: turn_supplied)

lemma run_sends:
  assumes "RunStream e subscription world now write_ok turns = (status, e', sent, running)" "G e"
    and "benign world" "\<forall>turn\<in>set turns. benign (tu_world turn)"
  shows "G e' \<and> list_all (Q \<circ> snd) sent"
proof -
  let ?em = "foldl (stream_turn subscription) (stream_begin e world now write_ok) turns"
  obtain e1 m where sub: "stream_subscribe e = (e1, m)" by fastforce
  have "supplied (world e1, m)"
    using subscribe_supplied [OF assms(2)] assms(3) sub by (auto simp: supplied_def benign_def intro: less_le_trans)
  then have "supplied ?em" unfolding stream_begin_def sub by (simp add: initial_supplied turns_supplied assms(4))
  with assms(1,2) supply_remove show ?thesis by (auto simp: supplied_def RunStream_def split_beta Let_def split: if_splits)
qed

end

lemma holds_wait:
  assumes "engine_holds Q e" "i < length (en_store e)" "wait_slot i e = (e', slot, x)"
  shows "engine_holds Q e' \<and> pred_option Q x"
proof -
  have "pred_option Q (cs_pending (en_store e ! i))" using assms(1,2) by (simp add: engine_holds_def list_all_length)
  moreover have "list_all (\<lambda>slot. pred_option Q (cs_pending slot)) ((en_store e)[i := s])"
    if "pred_option Q (cs_pending s)" for s
    using assms(1,2) that by (auto simp: engine_holds_def list_all_length nth_list_update)
  ultimately show ?thesis
    using assms by (auto simp: wait_slot_def WaitNextFor_def take_pending_def engine_holds_def Latest_def split: option.splits if_splits)
qed

interpretation holding: book_supply "engine_holds Q" Q for Q
proof
  show "engine_holds Q e \<Longrightarrow> Latest e = Some book \<Longrightarrow> Q book" for e book by (simp add: engine_holds_def)
qed (rule holds_wait holds_subscribers, assumption+)+

section \<open>Properties\<close>

text \<open>C20: what a stream writes has strictly increasing sequence numbers, so nothing is written twice or out of
  order, whatever the engine and the other handlers do between two turns or between the registration and
  the first message; and when the client asked for
  a minimum interval, two consecutive messages are at least that far apart, the first one included.\<close>

theorem RunStream_order_and_pace:
  assumes "RunStream e subscription world now write_ok turns = (status, e', sent, running)"
  shows "sorted_wrt (<) (map (cb_sequence \<circ> snd) sent) \<and>
     (sn_min_interval_micros subscription > 0 \<longrightarrow>
        kept_apart (micros_ns (sn_min_interval_micros subscription)) (map fst sent))"
proof -
  let ?em = "foldl (stream_turn subscription) (stream_begin e world now write_ok) turns"
  have inv: "stream_inv subscription (snd ?em)" by (rule turns_inv [OF begin_inv])
  have "sent = sm_sent (snd ?em) \<or> sent = []"
    using assms by (auto simp: RunStream_def split_beta Let_def split: if_splits)
  then show ?thesis using inv by (auto simp: stream_inv_def Let_def micros_ns_def kept_apart_def)
qed

definition stream_book :: "nat \<Rightarrow> ConsolidatedBook" where
  "stream_book n = empty_consolidated\<lparr>cb_sequence := of_nat n\<rparr>"

text \<open>The engine publishes the books of a list while the handler waits.\<close>

definition publishing :: "nat list \<Rightarrow> i64 \<Rightarrow> StreamTurn" where
  "publishing ns now =
     \<lparr>tu_cancelled = False, tu_world = (\<lambda>e. foldl (\<lambda>e n. e\<lparr>en_store := publish_slots (stream_book n) (en_subscribers e) (en_store e)\<rparr>) e ns),
      tu_now = now, tu_write_ok = True\<rparr>"

definition example_turns :: "StreamTurn list" where
  "example_turns = [publishing [1, 2] 5, publishing [] 6, publishing [3] 7, publishing [4, 5] 2000]"

theorem RunStream_order_and_pace_witness:
  "case RunStream (new_engine default_engine_config []) \<lparr>sn_instrument = [], sn_min_interval_micros = 1\<rparr> (\<lambda>e. e) 0 True example_turns
   of (status, e', sent, running) \<Rightarrow>
     map (cb_sequence \<circ> snd) sent = [2, 5] \<and> running \<and> kept_apart 1000 (map fst sent)"
proof -
  let ?s = "\<lparr>sn_instrument = [], sn_min_interval_micros = 1\<rparr>"
  let ?r = "RunStream (new_engine default_engine_config []) ?s (\<lambda>e. e) 0 True example_turns"
  obtain status e' sent running where r: "?r = (status, e', sent, running)" by (cases ?r)
  have "(case ?r of (status, e', sent, running) \<Rightarrow> map (cb_sequence \<circ> snd) sent = [2, 5] \<and> running)" by code_simp
  moreover have "kept_apart 1000 (map fst sent)"
    using RunStream_order_and_pace [OF r] by (simp add: micros_ns_def)
  ultimately show ?thesis using r by simp
qed

text \<open>A band list is accepted exactly when it is empty, and then stands for the defaults, or holds at
  most 32 values that are all positive and all different, and then is used in ascending order; every
  other list is refused as an invalid argument.\<close>

theorem NormaliseBands_iff:
  "(NormaliseBands field requested defaults = Inr bands \<longleftrightarrow>
      (if requested = [] then bands = defaults
       else length requested \<le> 32 \<and> list_all (\<lambda>v. 0 < v) requested \<and> distinct requested \<and> bands = sort requested)) \<and>
   ((\<exists>why. NormaliseBands field requested defaults = Inl (InvalidArgument why)) \<longleftrightarrow>
      requested \<noteq> [] \<and> \<not> (length requested \<le> 32 \<and> list_all (\<lambda>v. 0 < v) requested \<and> distinct requested))"
proof
  note valid = NormaliseBands_valid [of field requested defaults]
  show "NormaliseBands field requested defaults = Inr bands \<longleftrightarrow>
      (if requested = [] then bands = defaults
       else length requested \<le> 32 \<and> list_all (\<lambda>v. 0 < v) requested \<and> distinct requested \<and> bands = sort requested)"
    by (rule valid)
  show "(\<exists>why. NormaliseBands field requested defaults = Inl (InvalidArgument why)) \<longleftrightarrow>
      requested \<noteq> [] \<and> \<not> (length requested \<le> 32 \<and> list_all (\<lambda>v. 0 < v) requested \<and> distinct requested)"
    (is "?refused \<longleftrightarrow> ?bad")
  proof
    assume ?refused
    then show ?bad using valid [of defaults] valid [of "sort requested"] by (cases "requested = []") auto
  next
    assume bad: ?bad
    show ?refused
    proof (cases "NormaliseBands field requested defaults")
      case (Inl status)
      moreover have "status \<noteq> StatusOk" using Inl by (auto simp: NormaliseBands_def split: option.splits if_splits)
      ultimately show ?thesis by (cases status) simp_all
    next
      case (Inr bs)
      with valid [of bs] bad show ?thesis by auto
    qed
  qed
qed


definition banded_book :: ConsolidatedBook where
  "banded_book = empty_consolidated
     \<lparr>cb_bids := [\<lparr>mpx = 9900000000, mqty = 200000000\<rparr>, \<lparr>mpx = 9800000000, mqty = 100000000\<rparr>],
      cb_asks := [\<lparr>mpx = 10000000000, mqty = 200000000\<rparr>]\<rparr>"


end
