(* ===== verification/System.thy ===== *)
theory System
  imports Pipeline Service
begin

text \<open>
  The running server: the aggregator (\<open>Pipeline\<close>) and the calls of the streaming services (\<open>Service\<close>), whose
  handler threads share the engine with it. A step is a step of the aggregator, one atomic part of a
  handler (registering, sending the current book, one turn of the loop, leaving), or \<^verbatim>\<open>Engine::Stop\<close>.
\<close>

section \<open>State and steps\<close>

text \<open>A call: whether the current book has been dealt with, and whether the handler has returned.\<close>

record StreamCall =
  sc_subscription :: Subscription
  sc_started :: bool
  sc_ended :: bool
  sc_stream :: Stream

record 'g System =
  sy_aggregator :: "'g Aggregator"
  sy_calls :: "StreamCall list"

datatype SystemStep =
    Aggregate AggregatorStep
  | OpenCall Subscription
  | StartCall nat i64 bool
  | TurnCall nat bool i64 bool
  | EndCall nat
  | StopEngine

definition turn_now :: "bool \<Rightarrow> i64 \<Rightarrow> bool \<Rightarrow> StreamTurn" where
  "turn_now cancelled now write_ok =
     \<lparr>tu_cancelled = cancelled, tu_world = (\<lambda>e. e), tu_now = now, tu_write_ok = write_ok\<rparr>"

definition call_update :: "nat \<Rightarrow> (StreamCall \<Rightarrow> StreamCall) \<Rightarrow> Engine \<times> Stream \<Rightarrow> StreamCall list \<Rightarrow> Engine \<times> StreamCall list" where
  "call_update i f em calls = (fst em, calls[i := f ((calls ! i)\<lparr>sc_stream := snd em\<rparr>)])"

text \<open>The handlers' steps; one that does not apply to the call changes nothing.\<close>

fun service_step :: "Engine \<times> StreamCall list \<Rightarrow> SystemStep \<Rightarrow> Engine \<times> StreamCall list" where
  "service_step (e, calls) (Aggregate step) = (e, calls)"
| "service_step (e, calls) (OpenCall subscription) =
     (if CheckInstrument e subscription \<noteq> StatusOk then (e, calls)
      else (fst (stream_subscribe e),
            calls @ [\<lparr>sc_subscription = subscription, sc_started = False, sc_ended = False,
                      sc_stream = snd (stream_subscribe e)\<rparr>]))"
| "service_step (e, calls) (StartCall i now write_ok) =
     (if i < length calls \<and> \<not> sc_started (calls ! i)
      then call_update i (\<lambda>c. c\<lparr>sc_started := True\<rparr>) (stream_initial now write_ok (e, sc_stream (calls ! i))) calls
      else (e, calls))"
| "service_step (e, calls) (TurnCall i cancelled now write_ok) =
     (if i < length calls \<and> sc_started (calls ! i)
      then call_update i (\<lambda>c. c)
             (stream_turn (sc_subscription (calls ! i)) (e, sc_stream (calls ! i)) (turn_now cancelled now write_ok)) calls
      else (e, calls))"
| "service_step (e, calls) (EndCall i) =
     (if i < length calls \<and> sc_started (calls ! i) \<and> \<not> sm_open (sc_stream (calls ! i))
      then call_update i (\<lambda>c. c\<lparr>sc_ended := True\<rparr>)
             (RemoveSubscriber e (sm_slot (sc_stream (calls ! i))), sc_stream (calls ! i)) calls
      else (e, calls))"
| "service_step (e, calls) StopEngine = (engine_Stop e, calls)"

fun system_step ::
  "'e Wiring \<Rightarrow> ('g \<Rightarrow> int \<Rightarrow> int \<Rightarrow> int \<times> 'g) \<Rightarrow> (FeedBatch \<Rightarrow> FeedBatch) \<Rightarrow> 'g System \<Rightarrow> SystemStep \<Rightarrow> 'g System option" where
  "system_step w draw moved s (Aggregate step) =
     map_option (\<lambda>a. s\<lparr>sy_aggregator := a\<rparr>) (aggregator_step w draw moved (sy_aggregator s) step)"
| "system_step w draw moved s step =
     (let (e, calls) = service_step (ag_engine (sy_aggregator s), sy_calls s) step
      in Some \<lparr>sy_aggregator = (sy_aggregator s)\<lparr>ag_engine := e\<rparr>, sy_calls = calls\<rparr>)"

fun system_run ::
  "'e Wiring \<Rightarrow> ('g \<Rightarrow> int \<Rightarrow> int \<Rightarrow> int \<times> 'g) \<Rightarrow> (FeedBatch \<Rightarrow> FeedBatch) \<Rightarrow> 'g System \<Rightarrow> SystemStep list \<Rightarrow> 'g System option" where
  "system_run w draw moved s [] = Some s"
| "system_run w draw moved s (step # steps) =
     Option.bind (system_step w draw moved s step) (\<lambda>s'. system_run w draw moved s' steps)"

definition new_system :: "'g Aggregator \<Rightarrow> 'g System" where
  "new_system a = \<lparr>sy_aggregator = a, sy_calls = []\<rparr>"

fun system_faithful :: "'e Wiring \<Rightarrow> TrueBooks \<Rightarrow> SystemStep \<Rightarrow> bool" where
  "system_faithful w B (Aggregate step) = step_faithful w B step"
| "system_faithful w B step = True"

section \<open>Slots\<close>

text \<open>A slot that is served either belongs to a subscriber that the engine knows, or is stopped.\<close>

definition slot_served :: "Engine \<Rightarrow> nat \<Rightarrow> bool" where
  "slot_served e i \<longleftrightarrow> i < length (en_store e) \<and> (i \<in> set (en_subscribers e) \<or> map cs_stopped (en_store e) ! i)"

definition serves_on :: "Engine \<Rightarrow> Engine \<Rightarrow> bool" where
  "serves_on e e' \<longleftrightarrow> length (en_store e) \<le> length (en_store e') \<and> (\<forall>i. slot_served e i \<longrightarrow> slot_served e' i)"

lemma serves_on_same:
  "en_subscribers e' = en_subscribers e \<Longrightarrow> map cs_stopped (en_store e') = map cs_stopped (en_store e) \<Longrightarrow> serves_on e e'"
  using map_eq_imp_length_eq [of cs_stopped "en_store e'" cs_stopped "en_store e"] by (auto simp: serves_on_def slot_served_def)

lemma stopped_publish_slots: "map cs_stopped (publish_slots book ids store) = map cs_stopped store"
  unfolding publish_slots_def
proof (induction ids arbitrary: store)
  case (Cons i ids)
  have "map cs_stopped (store[i := fst (slot_publish (store ! i) (Some book))]) = map cs_stopped store"
    by (cases "i < length store") (simp_all add: slot_publish_def map_update list_update_same_conv list_update_beyond)
  with Cons.IH show ?case by simp
qed simp

lemma serves_on_subscribers:
  "serves_on e (fst (AddSubscriber e))" "serves_on e (RemoveSubscriber e slot)" "serves_on e (engine_Stop e)"
  by (auto simp: serves_on_def slot_served_def AddSubscriber_def RemoveSubscriber_def engine_Stop_def Let_def nth_append
      slots_stop_spec slot_stop_def)

lemma serves_on_Apply: "engine_Apply e batch = Some e' \<Longrightarrow> serves_on e e'"
proof -
  have "en_subscribers (foldl (apply_update v) e us) = en_subscribers e \<and> en_store (foldl (apply_update v) e us) = en_store e" for v us
    by (induction us arbitrary: e) (simp_all add: apply_update_def)
  then show "engine_Apply e batch = Some e' \<Longrightarrow> serves_on e e'"
    by (auto simp: engine_Apply_def Let_def split: if_splits intro!: serves_on_same)
qed

lemma serves_on_drain: "drain_one moved r e = Some (r', e') \<Longrightarrow> serves_on e e'"
  by (auto simp: drain_one_def split: prod.splits option.splits intro: serves_on_Apply serves_on_same)

lemma serves_on_Publish: "engine_Publish states now_steady now_wall e = Some e' \<Longrightarrow> serves_on e e'"
  by (auto simp: engine_Publish_def Let_def stopped_publish_slots split: option.splits if_splits intro!: serves_on_same)

lemma serves_on_step: "aggregator_step w draw moved a step = Some a' \<Longrightarrow> serves_on (ag_engine a) (ag_engine a')"
  by (cases step) (auto simp: serves_on_subscribers intro: serves_on_drain serves_on_Publish serves_on_same)

section \<open>The invariant\<close>

definition call_ok :: "TrueBooks \<Rightarrow> Engine \<Rightarrow> StreamCall \<Rightarrow> bool" where
  "call_ok B e c \<longleftrightarrow>
     stream_inv (sc_subscription c) (sc_stream c) \<and> list_all (consistent B \<circ> snd) (sm_sent (sc_stream c)) \<and>
     slot_served e (sm_slot (sc_stream c)) \<and> (\<not> sc_started c \<longrightarrow> sm_sent (sc_stream c) = [])"

definition calls_ok :: "TrueBooks \<Rightarrow> Engine \<times> StreamCall list \<Rightarrow> bool" where
  "calls_ok B ec \<longleftrightarrow> engine_holds (consistent B) (fst ec) \<and> list_all (call_ok B (fst ec)) (snd ec) \<and>
     distinct (map (sm_slot \<circ> sc_stream) (snd ec))"

definition system_inv :: "'e Wiring \<Rightarrow> TrueBooks \<Rightarrow> 'g System \<Rightarrow> bool" where
  "system_inv w B s \<longleftrightarrow>
     aggregator_inv w B (sy_aggregator s) \<and> calls_ok B (ag_engine (sy_aggregator s), sy_calls s)"

text \<open>What the aggregator's invariant knows of the engine.\<close>

definition same_feeds :: "Engine \<Rightarrow> Engine \<Rightarrow> bool" where
  "same_feeds e e' \<longleftrightarrow> (engine_ok e \<longrightarrow> engine_ok e') \<and> en_venues e' = en_venues e \<and> en_books e' = en_books e \<and>
     en_last_recv_ns e' = en_last_recv_ns e \<and> serves_on e e'"

lemma same_feeds_refl: "same_feeds e e"
  by (simp add: same_feeds_def serves_on_def)

lemma aggregator_inv_engine:
  "aggregator_inv w B a \<Longrightarrow> same_feeds (ag_engine a) e \<Longrightarrow> aggregator_inv w B (a\<lparr>ag_engine := e\<rparr>)"
  by (simp add: aggregator_inv_def same_feeds_def)

lemma stop_ok: "engine_ok e \<Longrightarrow> engine_ok (engine_Stop e)"
  by (simp add: engine_ok_def engine_Stop_def)

lemma same_feeds_subscribers:
  "same_feeds e (fst (AddSubscriber e))" "same_feeds e (RemoveSubscriber e slot)" "same_feeds e (engine_Stop e)"
  using subscriber_frame [of e] serves_on_subscribers [of e] stop_ok [of e] by (simp_all add: same_feeds_def engine_Stop_def)

lemma same_feeds_wait: "wait_slot i e = (e', slot, x) \<Longrightarrow> same_feeds e e'"
  by (simp add: same_feeds_def wait_slot_frame serves_on_same)

lemma calls_ok_serves:
  assumes "calls_ok B (e, calls)" "serves_on e e'" "engine_holds (consistent B) e'"
  shows "calls_ok B (e', calls)"
  using assms by (auto simp: calls_ok_def call_ok_def serves_on_def list_all_iff)

section \<open>Handlers\<close>

lemma stream_slot:
  "sm_slot (snd (stream_initial now write_ok em)) = sm_slot (snd em)" "sm_slot (snd (stream_turn subscription em turn)) = sm_slot (snd em)"
  by (auto simp: stream_initial_def stream_turn_def write_book_def split_beta Let_def split: option.splits)

lemma initial_inv:
  assumes "stream_inv subscription m" "sm_sent m = []"
  shows "stream_inv subscription (snd (stream_initial now write_ok (e, m)))"
  using assms by (auto simp: stream_initial_def stream_inv_def Let_def kept_apart_def split: option.splits)

lemma stream_engine:
  "fst (stream_initial now write_ok (e, m)) = e"
  "same_feeds e (fst (stream_turn subscription (e, m) (turn_now cancelled now write_ok)))"
proof -
  show "fst (stream_initial now write_ok (e, m)) = e" by (simp add: stream_initial_def split: option.splits)
  obtain e1 slot waited where w: "wait_slot (sm_slot m) e = (e1, slot, waited)" by (cases "wait_slot (sm_slot m) e")
  from same_feeds_wait [OF w] show "same_feeds e (fst (stream_turn subscription (e, m) (turn_now cancelled now write_ok)))"
    by (auto simp: stream_turn_def turn_now_def w same_feeds_refl Let_def split: option.splits)
qed

lemma call_update_ok:
  assumes "calls_ok B (e, calls)" "i < length calls" "serves_on e (fst em)" "engine_holds (consistent B) (fst em)"
    and "call_ok B (fst em) (f ((calls ! i)\<lparr>sc_stream := snd em\<rparr>))"
    and "sm_slot (sc_stream (f ((calls ! i)\<lparr>sc_stream := snd em\<rparr>))) = sm_slot (sc_stream (calls ! i))"
  shows "calls_ok B (call_update i f em calls)"
proof -
  have "calls_ok B (fst em, calls)" by (rule calls_ok_serves [OF assms(1,3,4)])
  moreover have "map (sm_slot \<circ> sc_stream) (calls[i := f ((calls ! i)\<lparr>sc_stream := snd em\<rparr>)]) = map (sm_slot \<circ> sc_stream) calls"
    using assms(2,6) by (simp add: map_update list_update_same_conv)
  ultimately show ?thesis
    using assms(2,5) by (auto simp: calls_ok_def call_update_def list_all_length nth_list_update)
qed

lemma open_call_ok:
  assumes "calls_ok B (e, calls)"
  shows "calls_ok B (fst (stream_subscribe e), calls @ [\<lparr>sc_subscription = subscription, sc_started = False, sc_ended = False,
     sc_stream = snd (stream_subscribe e)\<rparr>])"
proof -
  have e: "fst (stream_subscribe e) = fst (AddSubscriber e)" by (simp add: stream_subscribe_def split_beta Let_def)
  have holds: "engine_holds (consistent B) (fst (AddSubscriber e))"
    using assms holds_subscribers(1) by (simp add: calls_ok_def)
  have "calls_ok B (fst (AddSubscriber e), calls)" by (rule calls_ok_serves [OF assms serves_on_subscribers(1) holds])
  moreover have "sm_slot (sc_stream c) < length (en_store e)" if "c \<in> set calls" for c
    using assms that by (auto simp: calls_ok_def call_ok_def slot_served_def list_all_iff)
  ultimately show ?thesis
    unfolding e
    by (fastforce simp: calls_ok_def call_ok_def stream_subscribe_def AddSubscriber_def Let_def stream_inv_def kept_apart_def
        slot_served_def)
qed

lemma turn_call_ok:
  assumes "calls_ok B (e, calls)" "i < length calls" "sc_started (calls ! i)"
  shows "calls_ok B (call_update i (\<lambda>c. c)
     (stream_turn (sc_subscription (calls ! i)) (e, sc_stream (calls ! i)) (turn_now cancelled now write_ok)) calls)"
proof -
  let ?c = "calls ! i" and ?turn = "turn_now cancelled now write_ok"
  let ?em = "stream_turn (sc_subscription ?c) (e, sc_stream ?c) ?turn"
  have c: "call_ok B e ?c" "engine_holds (consistent B) e" using assms(1,2) by (simp_all add: calls_ok_def list_all_length)
  have serves: "serves_on e (fst ?em)" using stream_engine(2) by (simp add: same_feeds_def)
  have sup: "holding.supplied (consistent B) ?em"
  proof (rule holding.turn_supplied)
    show "holding.supplied (consistent B) (e, sc_stream ?c)"
      using c by (simp add: holding.supplied_def call_ok_def slot_served_def)
    show "holding.benign (consistent B) (tu_world ?turn)" by (simp add: holding.benign_def turn_now_def)
  qed
  moreover have "stream_inv (sc_subscription ?c) (snd ?em)" using turn_inv [of "sc_subscription ?c" "(e, sc_stream ?c)"] c(1) by (simp add: call_ok_def)
  ultimately have "call_ok B (fst ?em) (?c\<lparr>sc_stream := snd ?em\<rparr>)"
    using c(1) serves assms(3) by (simp add: call_ok_def holding.supplied_def serves_on_def stream_slot)
  with sup show ?thesis
    by (intro call_update_ok [OF assms(1,2) serves]) (simp_all add: holding.supplied_def stream_slot)
qed

lemma start_call_ok:
  assumes "calls_ok B (e, calls)" "i < length calls" "\<not> sc_started (calls ! i)"
  shows "calls_ok B (call_update i (\<lambda>c. c\<lparr>sc_started := True\<rparr>) (stream_initial now write_ok (e, sc_stream (calls ! i))) calls)"
proof -
  let ?c = "calls ! i" let ?em = "stream_initial now write_ok (e, sc_stream ?c)"
  have c: "call_ok B e ?c" "engine_holds (consistent B) e" using assms(1,2) by (simp_all add: calls_ok_def list_all_length)
  have "holding.supplied (consistent B) (e, sc_stream ?c)"
    using c by (simp add: holding.supplied_def call_ok_def slot_served_def)
  then have sup: "holding.supplied (consistent B) ?em" by (rule holding.initial_supplied)
  moreover have "stream_inv (sc_subscription ?c) (snd ?em)" using c(1) assms(3) by (intro initial_inv) (simp_all add: call_ok_def)
  ultimately have "call_ok B e (?c\<lparr>sc_stream := snd ?em, sc_started := True\<rparr>)"
    using c(1) by (simp add: call_ok_def holding.supplied_def stream_slot)
  with c(2) show ?thesis
    by (intro call_update_ok [OF assms(1,2)]) (simp_all add: stream_engine stream_slot serves_on_def)
qed

lemma service_step_ok:
  assumes "calls_ok B (e, calls)"
  shows "calls_ok B (service_step (e, calls) step) \<and> same_feeds e (fst (service_step (e, calls) step))"
proof (cases step)
  case (OpenCall subscription)
  have "fst (stream_subscribe e) = fst (AddSubscriber e)" by (simp add: stream_subscribe_def split_beta Let_def)
  with OpenCall assms open_call_ok [OF assms, of subscription] show ?thesis by (simp add: same_feeds_refl same_feeds_subscribers)
next
  case (StartCall i now write_ok)
  with assms start_call_ok [OF assms, of i now write_ok] show ?thesis
    by (simp add: call_update_def stream_engine same_feeds_refl)
next
  case (TurnCall i cancelled now write_ok)
  with assms turn_call_ok [OF assms, of i cancelled now write_ok] show ?thesis
    by (simp add: call_update_def stream_engine same_feeds_refl)
next
  case (EndCall i)
  have "calls_ok B (call_update i (\<lambda>c. c\<lparr>sc_ended := True\<rparr>) (RemoveSubscriber e slot, sc_stream (calls ! i)) calls)"
    if "i < length calls" "sc_started (calls ! i)" for slot
  proof -
    have "call_ok B e (calls ! i)" "engine_holds (consistent B) e" using assms that by (simp_all add: calls_ok_def list_all_length)
    with serves_on_subscribers(2) [of e slot] that show ?thesis
      by (intro call_update_ok [OF assms that(1)]) (simp_all add: holds_subscribers call_ok_def serves_on_def)
  qed
  with EndCall assms show ?thesis by (simp add: call_update_def same_feeds_refl same_feeds_subscribers)
next
  case StopEngine
  have "calls_ok B (engine_Stop e, calls)"
    using assms by (intro calls_ok_serves [OF assms serves_on_subscribers(3)]) (simp add: calls_ok_def holds_subscribers)
  with StopEngine show ?thesis by (simp add: same_feeds_subscribers)
qed (use assms same_feeds_refl in simp_all)

section \<open>Runs\<close>

lemma system_service_step:
  "\<nexists>step'. step = Aggregate step' \<Longrightarrow> system_step w draw moved s step =
     (let (e, calls) = service_step (ag_engine (sy_aggregator s), sy_calls s) step
      in Some \<lparr>sy_aggregator = (sy_aggregator s)\<lparr>ag_engine := e\<rparr>, sy_calls = calls\<rparr>)"
  by (cases step) auto

lemma system_step_inv:
  assumes "system_inv w B s" "system_faithful w B step"
  obtains s' where "system_step w draw moved s step = Some s'" "system_inv w B s'"
proof (cases "\<exists>step'. step = Aggregate step'")
  case True
  then obtain step' where step: "step = Aggregate step'" by blast
  have inv: "aggregator_inv w B (sy_aggregator s)" "calls_ok B (ag_engine (sy_aggregator s), sy_calls s)" "step_faithful w B step'"
    using assms step by (simp_all add: system_inv_def)
  from inv(1,3) obtain a where a: "aggregator_step w draw moved (sy_aggregator s) step' = Some a" "aggregator_inv w B a"
    by (rule aggregator_step_inv)
  have "engine_holds (consistent B) (ag_engine a)" using step_holds [OF inv(1) _ a(1)] inv(2) by (simp add: calls_ok_def)
  with a step that [of "s\<lparr>sy_aggregator := a\<rparr>"] calls_ok_serves [OF inv(2) serves_on_step [OF a(1)]] show thesis
    by (simp add: system_inv_def)
next
  case False
  obtain e calls where out: "service_step (ag_engine (sy_aggregator s), sy_calls s) step = (e, calls)" by fastforce
  with assms(1) service_step_ok [of B "ag_engine (sy_aggregator s)" "sy_calls s" step] aggregator_inv_engine
  have "system_inv w B \<lparr>sy_aggregator = (sy_aggregator s)\<lparr>ag_engine := e\<rparr>, sy_calls = calls\<rparr>"
    by (auto simp: system_inv_def)
  with that False out system_service_step [of step w draw moved s] show thesis by auto
qed

lemma system_run_inv:
  assumes "system_inv w B s" "list_all (system_faithful w B) steps"
  shows "\<exists>s'. system_run w draw moved s steps = Some s' \<and> system_inv w B s'"
  using assms
proof (induction steps arbitrary: s)
  case (Cons step steps)
  then obtain s1 where "system_step w draw moved s step = Some s1" "system_inv w B s1"
    using system_step_inv [of w B s step draw moved] by auto
  with Cons show ?case by simp
qed simp

lemma new_system_inv:
  "capacity \<le> 2 ^ 63 \<Longrightarrow> system_inv w B (new_system (new_aggregator w config options capacity seed now))"
  by (simp add: system_inv_def new_system_def calls_ok_def new_aggregator_inv new_aggregator_holds)

section \<open>The life of the process\<close>

text \<open>
  What \<^verbatim>\<open>main\<close> does around serving, with all three venues: the engine and the runners are started, the server is
  bound, the process serves until the server is shut down, then each runner is stopped (the flag is set,
  the posted handler runs, with anything in between) and last the engine. When the server cannot be bound
  the destructors stop the engine first, then the runners.
\<close>

datatype Venue = VBinance | VOkx | VBybit

instantiation Venue :: enum
begin

definition enum_Venue :: "Venue list" where
  "enum_Venue = [VBinance, VOkx, VBybit]"

definition enum_all_Venue :: "(Venue \<Rightarrow> bool) \<Rightarrow> bool" where
  "enum_all_Venue P \<longleftrightarrow> P VBinance \<and> P VOkx \<and> P VBybit"

definition enum_ex_Venue :: "(Venue \<Rightarrow> bool) \<Rightarrow> bool" where
  "enum_ex_Venue P \<longleftrightarrow> P VBinance \<or> P VOkx \<or> P VBybit"

instance
proof
  have all: "(\<forall>v. P v) \<longleftrightarrow> P VBinance \<and> P VOkx \<and> P VBybit" for P by (metis Venue.exhaust)
  have ex: "(\<exists>v. P v) \<longleftrightarrow> P VBinance \<or> P VOkx \<or> P VBybit" for P by (metis Venue.exhaust)
  show "(UNIV :: Venue set) = set enum_class.enum" unfolding set_eq_iff all by (simp add: enum_Venue_def)
  show "distinct (enum_class.enum :: Venue list)" by (simp add: enum_Venue_def)
  show "enum_class.enum_all P \<longleftrightarrow> Ball UNIV P" for P :: "Venue \<Rightarrow> bool" by (simp add: enum_all_Venue_def all)
  show "enum_class.enum_ex P \<longleftrightarrow> Bex UNIV P" for P :: "Venue \<Rightarrow> bool" by (simp add: enum_ex_Venue_def ex)
qed

end

text \<open>The runners in the order of \<^verbatim>\<open>main\<close>'s vector are the enumeration of the type.\<close>

fun runner_step :: "Venue \<Rightarrow> RunnerEvent \<Rightarrow> SystemStep" where
  "runner_step VBinance ev = Aggregate (BinanceEvent ev)"
| "runner_step VOkx ev = Aggregate (OkxEvent ev)"
| "runner_step VBybit ev = Aggregate (BybitEvent ev)"

definition stop_runner :: "Venue \<Rightarrow> SystemStep list \<Rightarrow> SystemStep list" where
  "stop_runner v between = runner_step v EvStop # between @ [runner_step v EvStopPosted]"

definition stop_runners :: "(Venue \<Rightarrow> SystemStep list) \<Rightarrow> SystemStep list" where
  "stop_runners between = concat (map (\<lambda>v. stop_runner v (between v)) enum_class.enum)"

definition main_serve ::
  "'e Wiring \<Rightarrow> ('g \<Rightarrow> int \<Rightarrow> int \<Rightarrow> int \<times> 'g) \<Rightarrow> (FeedBatch \<Rightarrow> FeedBatch) \<Rightarrow> 'g Aggregator \<Rightarrow> i64 \<Rightarrow> SystemStep list \<Rightarrow> bool \<Rightarrow>
     SystemStep list \<Rightarrow> (Venue \<Rightarrow> SystemStep list) \<Rightarrow> ('g System \<times> int) option" where
  "main_serve w draw moved a now_wall before bound serving between =
     Option.bind (system_run w draw moved (new_system (a\<lparr>ag_engine := engine_Start now_wall (ag_engine a)\<rparr>)) before)
       (\<lambda>s. if \<not> bound
             then map_option (\<lambda>s'. (s', 1)) (system_run w draw moved s (StopEngine # stop_runners between))
             else map_option (\<lambda>s'. (s', 0)) (system_run w draw moved s (serving @ stop_runners between @ [StopEngine])))"

definition runner_off :: "'g System \<Rightarrow> Venue \<Rightarrow> bool" where
  "runner_off s v =
     (case v of VBinance \<Rightarrow> rn_io_stopped (ag_binance (sy_aggregator s)) | VOkx \<Rightarrow> rn_io_stopped (ag_okx (sy_aggregator s))
      | VBybit \<Rightarrow> rn_io_stopped (ag_bybit (sy_aggregator s)))"

lemma system_run_append:
  "system_run w draw moved s (xs @ ys) = Option.bind (system_run w draw moved s xs) (\<lambda>s'. system_run w draw moved s' ys)"
  by (induction xs arbitrary: s) (simp_all split: bind_split)

lemma service_aggregator:
  assumes "\<nexists>step'. step = Aggregate step'" "system_step w draw moved s step = Some s'"
  shows "ag_binance (sy_aggregator s') = ag_binance (sy_aggregator s)" "ag_okx (sy_aggregator s') = ag_okx (sy_aggregator s)"
    "ag_bybit (sy_aggregator s') = ag_bybit (sy_aggregator s)"
  using assms(2) unfolding system_service_step [OF assms(1)] by (auto simp: split_beta Let_def)

lemma drain_io: "drain_one moved r e = Some (r', e') \<Longrightarrow> rn_io_stopped r' = rn_io_stopped r"
  by (auto simp: drain_one_def split: prod.splits option.splits)

lemma runner_off_step:
  assumes "system_step w draw moved s step = Some s'" "runner_off s v"
  shows "runner_off s' v"
proof (cases "\<exists>step'. step = Aggregate step'")
  case True
  then obtain step' where step: "step = Aggregate step'" by blast
  with assms show ?thesis
    by (cases step'; cases v) (auto simp: runner_off_def runner_event_def dest: drain_io split: if_splits)
next
  case False
  from service_aggregator [OF False assms(1)] assms(2) show ?thesis by (simp add: runner_off_def split: Venue.splits)
qed

lemma runner_off_run: "system_run w draw moved s steps = Some s' \<Longrightarrow> runner_off s v \<Longrightarrow> runner_off s' v"
  by (induction steps arbitrary: s) (auto split: bind_splits dest: runner_off_step)

lemma stop_runner_off:
  assumes "system_run w draw moved s (stop_runner v between) = Some s'"
  shows "runner_off s' v"
proof -
  from assms obtain s1 where "system_step w draw moved s1 (runner_step v EvStopPosted) = Some s'"
    by (auto simp: stop_runner_def system_run_append split: bind_splits)
  then show ?thesis by (cases v) (auto simp: runner_off_def runner_event_def perform_stop_def)
qed

lemma stop_runners_off:
  assumes "system_run w draw moved s (stop_runners between) = Some s'"
  shows "runner_off s' v"
proof -
  from assms obtain s1 s2 where r: "system_run w draw moved s (stop_runner VBinance (between VBinance)) = Some s1"
    "system_run w draw moved s1 (stop_runner VOkx (between VOkx)) = Some s2"
    "system_run w draw moved s2 (stop_runner VBybit (between VBybit)) = Some s'"
    by (auto simp: stop_runners_def enum_Venue_def system_run_append split: bind_splits)
  with runner_off_run stop_runner_off show ?thesis by (metis Venue.exhaust)
qed

abbreviation stopping :: "'g System \<Rightarrow> bool" where
  "stopping s \<equiv> en_stopping (ag_engine (sy_aggregator s))"

lemma stopping_Apply: "engine_Apply e batch = Some e' \<Longrightarrow> en_stopping e' = en_stopping e"
proof -
  have "en_stopping (foldl (apply_update v) e us) = en_stopping e" for v us
    by (induction us arbitrary: e) (simp_all add: apply_update_def)
  then show "engine_Apply e batch = Some e' \<Longrightarrow> en_stopping e' = en_stopping e"
    by (auto simp: engine_Apply_def Let_def split: if_splits)
qed

lemma stopping_ops:
  "drain_one moved r e = Some (r', e') \<Longrightarrow> en_stopping e' = en_stopping e"
  "engine_Publish states now_steady now_wall e = Some e' \<Longrightarrow> en_stopping e' = en_stopping e"
  "en_stopping (fst (AddSubscriber e)) = en_stopping e" "en_stopping (RemoveSubscriber e slot) = en_stopping e"
  "wait_slot i e = (e', b, x) \<Longrightarrow> en_stopping e' = en_stopping e" "en_stopping (engine_Stop e)"
  by (auto simp: drain_one_def engine_Publish_def RecordLatency_def AddSubscriber_def RemoveSubscriber_def Let_def wait_slot_def
      engine_Stop_def split: prod.splits option.splits if_splits dest: stopping_Apply)

lemma stopping_stream:
  "en_stopping (fst (stream_subscribe e)) = en_stopping e" "en_stopping (fst (stream_initial now write_ok (e, m))) = en_stopping e"
  "en_stopping (fst (stream_turn subscription (e, m) (turn_now cancelled now write_ok))) = en_stopping e"
proof -
  show "en_stopping (fst (stream_subscribe e)) = en_stopping e"
    using stopping_ops(3) [of e] by (simp add: stream_subscribe_def split_beta Let_def)
  show "en_stopping (fst (stream_initial now write_ok (e, m))) = en_stopping e" by (simp add: stream_engine)
  obtain e1 slot waited where w: "wait_slot (sm_slot m) e = (e1, slot, waited)" by (cases "wait_slot (sm_slot m) e")
  from stopping_ops(5) [OF w] show "en_stopping (fst (stream_turn subscription (e, m) (turn_now cancelled now write_ok))) = en_stopping e"
    by (auto simp: stream_turn_def turn_now_def w Let_def split: option.splits)
qed

lemma stopping_step:
  assumes "system_step w draw moved s step = Some s'" "stopping s"
  shows "stopping s'"
proof (cases step)
  case (Aggregate step')
  with assms show ?thesis by (cases step') (auto simp: stopping_ops)
qed (use assms in \<open>auto simp: call_update_def stopping_stream stopping_ops split: if_splits\<close>)

lemma stopping_run: "system_run w draw moved s steps = Some s' \<Longrightarrow> stopping s \<Longrightarrow> stopping s'"
  by (induction steps arbitrary: s) (auto split: bind_splits dest: stopping_step)

section \<open>Ending a call\<close>

text \<open>A turn ends the handler only when the call is cancelled, a write fails or the slot is stopped.\<close>

lemma turn_ends_only:
  assumes "sm_open m" "\<not> sm_open (snd (stream_turn subscription (e, m) (turn_now cancelled now write_ok)))"
  shows "cancelled \<or> \<not> write_ok \<or> cs_stopped (en_store e ! sm_slot m)"
  using assms
  by (auto simp: stream_turn_def turn_now_def wait_slot_def WaitNextFor_def take_pending_def write_book_def Let_def
      split: option.splits if_splits)

lemma turn_ends:
  assumes "cs_stopped (en_store e ! sm_slot m)"
  shows "\<not> sm_open (snd (stream_turn subscription (e, m) (turn_now cancelled now write_ok)))"
    "sm_sent (snd (stream_turn subscription (e, m) (turn_now cancelled now write_ok))) = sm_sent m"
  using assms
  by (auto simp: stream_turn_def turn_now_def wait_slot_def WaitNextFor_def take_pending_def Let_def split: option.splits if_splits)

lemma stop_stops_served:
  assumes "slot_served e i" "\<not> en_stopping e"
  shows "cs_stopped (en_store (engine_Stop e) ! i)"
  using assms by (auto simp: slot_served_def engine_Stop_def slots_stop_spec slot_stop_def)

section \<open>Waiting for the clients\<close>

text \<open>
  Steps in which no client gives up: calls are not cancelled and writes succeed, nobody takes a subscriber away
  from outside, and the engine is not stopped.
\<close>

fun patient :: "SystemStep \<Rightarrow> bool" where
  "patient (Aggregate (Unsubscribe slot)) = False"
| "patient (StartCall i now write_ok) = write_ok"
| "patient (TurnCall i cancelled now write_ok) = (\<not> cancelled \<and> write_ok)"
| "patient StopEngine = False"
| "patient step = True"

definition runs_on :: "Engine \<times> StreamCall list \<Rightarrow> nat \<Rightarrow> bool" where
  "runs_on ec i \<longleftrightarrow> i < length (snd ec) \<and> sm_open (sc_stream (snd ec ! i)) \<and>
     sm_slot (sc_stream (snd ec ! i)) < length (en_store (fst ec)) \<and>
     \<not> map cs_stopped (en_store (fst ec)) ! sm_slot (sc_stream (snd ec ! i))"

definition stopped_prefix :: "Engine \<Rightarrow> Engine \<Rightarrow> bool" where
  "stopped_prefix e e' \<longleftrightarrow> (\<exists>later. map cs_stopped (en_store e') = map cs_stopped (en_store e) @ later)"

lemma stopped_prefix_same: "map cs_stopped (en_store e') = map cs_stopped (en_store e) \<Longrightarrow> stopped_prefix e e'"
  by (auto simp: stopped_prefix_def)

lemma stopped_prefix_Apply: "engine_Apply e batch = Some e' \<Longrightarrow> stopped_prefix e e'"
proof -
  have "en_store (foldl (apply_update v) e us) = en_store e" for v us
    by (induction us arbitrary: e) (simp_all add: apply_update_def)
  then show "engine_Apply e batch = Some e' \<Longrightarrow> stopped_prefix e e'"
    by (auto simp: engine_Apply_def Let_def split: if_splits intro!: stopped_prefix_same)
qed

lemma stopped_prefix_drain: "drain_one moved r e = Some (r', e') \<Longrightarrow> stopped_prefix e e'"
  by (auto simp: drain_one_def split: prod.splits option.splits intro: stopped_prefix_Apply stopped_prefix_same)

lemma stopped_prefix_Publish: "engine_Publish states now_steady now_wall e = Some e' \<Longrightarrow> stopped_prefix e e'"
  by (auto simp: engine_Publish_def Let_def stopped_publish_slots split: option.splits if_splits intro!: stopped_prefix_same)

lemma stopped_prefix_add: "stopped_prefix e (fst (AddSubscriber e))" "stopped_prefix e (fst (stream_subscribe e))"
  by (auto simp: stopped_prefix_def AddSubscriber_def stream_subscribe_def Let_def)

lemma stopped_prefix_step:
  "aggregator_step w draw moved a step = Some a' \<Longrightarrow> patient (Aggregate step) \<Longrightarrow> stopped_prefix (ag_engine a) (ag_engine a')"
  by (cases step) (auto simp: stopped_prefix_add intro: stopped_prefix_drain stopped_prefix_Publish stopped_prefix_same)

lemma runs_on_prefix:
  assumes "runs_on (e, calls) i" "stopped_prefix e e'"
  shows "runs_on (e', calls @ later) i"
proof -
  obtain zs where zs: "map cs_stopped (en_store e') = map cs_stopped (en_store e) @ zs" using assms(2) by (auto simp: stopped_prefix_def)
  then have "length (en_store e) \<le> length (en_store e')" by (metis le_add1 length_append length_map)
  with assms(1) show ?thesis by (auto simp: runs_on_def zs nth_append simp del: nth_map)
qed

lemma runs_on_service:
  assumes "calls_ok B (e, calls)" "runs_on (e, calls) i" "patient step"
  shows "runs_on (service_step (e, calls) step) i"
proof (cases step)
  case (Aggregate step')
  with assms show ?thesis by simp
next
  case (OpenCall subscription)
  with assms runs_on_prefix [OF assms(2) stopped_prefix_add(2)] show ?thesis by simp
next
  case (StartCall j now write_ok)
  with assms(2,3) show ?thesis
    by (cases "j = i") (auto simp: runs_on_def call_update_def stream_initial_def split: option.splits)
next
  case (TurnCall j cancelled now write_ok)
  let ?turn = "turn_now cancelled now write_ok"
  let ?em = "stream_turn (sc_subscription (calls ! j)) (e, sc_stream (calls ! j)) ?turn"
  obtain e1 slot waited where w: "wait_slot (sm_slot (sc_stream (calls ! j))) e = (e1, slot, waited)"
    by (cases "wait_slot (sm_slot (sc_stream (calls ! j))) e")
  have stopped: "map cs_stopped (en_store (fst ?em)) = map cs_stopped (en_store e)"
    using wait_slot_frame(7) [OF w] by (auto simp: stream_turn_def turn_now_def w Let_def split: option.splits)
  have "length (en_store (fst ?em)) = length (en_store e)" using stopped by (rule map_eq_imp_length_eq)
  moreover have "sm_open (snd ?em)" if "j = i"
  proof (rule ccontr)
    assume "\<not> sm_open (snd ?em)"
    with assms(2) that have "cancelled \<or> \<not> write_ok \<or> cs_stopped (en_store e ! sm_slot (sc_stream (calls ! j)))"
      by (intro turn_ends_only) (auto simp: runs_on_def)
    with assms(2,3) TurnCall that show False by (auto simp: runs_on_def)
  qed
  ultimately show ?thesis
    using assms(2) TurnCall stopped by (cases "j = i") (auto simp: runs_on_def call_update_def stream_slot simp del: nth_map)
next
  case (EndCall j)
  show ?thesis
  proof (cases "j < length calls \<and> sc_started (calls ! j) \<and> \<not> sm_open (sc_stream (calls ! j))")
    case True
    with assms(2) have "j \<noteq> i" by (auto simp: runs_on_def)
    moreover have "sm_slot (sc_stream (calls ! j)) \<noteq> sm_slot (sc_stream (calls ! i))"
      using assms(1,2) True \<open>j \<noteq> i\<close> nth_eq_iff_index_eq [of "map (sm_slot \<circ> sc_stream) calls" j i]
      by (auto simp: calls_ok_def runs_on_def)
    ultimately show ?thesis
      using assms(2) EndCall True
      by (auto simp: runs_on_def call_update_def RemoveSubscriber_def slots_stop_spec)
  qed (use assms EndCall in auto)
qed (use assms in simp_all)

lemma runs_on_run:
  assumes "system_inv w B s" "list_all (system_faithful w B) steps" "list_all patient steps"
    and "runs_on (ag_engine (sy_aggregator s), sy_calls s) i" "system_run w draw moved s steps = Some s'"
  shows "runs_on (ag_engine (sy_aggregator s'), sy_calls s') i"
  using assms
proof (induction steps arbitrary: s)
  case (Cons step steps)
  then obtain s1 where s1: "system_step w draw moved s step = Some s1" "system_inv w B s1"
    using system_step_inv [of w B s step draw moved] by auto
  have "runs_on (ag_engine (sy_aggregator s1), sy_calls s1) i"
  proof (cases "\<exists>step'. step = Aggregate step'")
    case True
    then obtain step' where "step = Aggregate step'" by blast
    with s1(1) Cons.prems(3,4) show ?thesis
      using stopped_prefix_step [of w draw moved "sy_aggregator s" step'] runs_on_prefix [of "ag_engine (sy_aggregator s)" "sy_calls s" i _ "[]"]
      by auto
  next
    case False
    with s1(1) Cons.prems(1,3,4) show ?thesis
      using runs_on_service [of B "ag_engine (sy_aggregator s)" "sy_calls s" i step]
      by (auto simp: system_service_step system_inv_def split_beta Let_def)
  qed
  with Cons s1 show ?case by simp
qed simp

section \<open>Properties\<close>


text \<open>The best price over the books of the venues \<open>C\<close>, with the sum of what they have there.\<close>

definition best_of :: "bool \<Rightarrow> (nat \<Rightarrow> Px \<rightharpoonup> Qty) \<Rightarrow> nat list \<Rightarrow> QuoteMsg \<Rightarrow> bool" where
  "best_of d side C quote \<longleftrightarrow>
     qu_price_e8 quote \<in> (\<Union>v\<in>set C. dom (side v)) \<and>
     (\<forall>px\<in>(\<Union>v\<in>set C. dom (side v)). px = qu_price_e8 quote \<or> Better d (qu_price_e8 quote) px) \<and>
     qu_qty_e8 quote = wrap64 (sum_list (map (\<lambda>v. qty_of (side v) (qu_price_e8 quote)) C))"

lemma quote_best:
  assumes "sums_books d side C ladder truncated" "qu_price_e8 (FillQuote ladder touch) \<noteq> 0"
  shows "best_of d side C (FillQuote ladder touch)"
proof -
  obtain l ls where ladder: "ladder = l # ls" using assms(2) by (cases ladder) (auto simp: FillQuote_def)
  have "px = mpx l \<or> Better d (mpx l) px" if "px \<in> (\<Union>v\<in>set C. dom (side v))" for px
  proof (cases "px \<in> mpx ` set ladder")
    case True
    then show ?thesis using assms(1) ladder by (auto simp: sums_books_def)
  next
    case False
    then show ?thesis using assms(1) ladder that unfolding sums_books_def by (metis DiffI list.set_intros(1))
  qed
  moreover have "mpx l \<in> (\<Union>v\<in>set C. dom (side v))" "mqty l = wrap64 (sum_list (map (\<lambda>v. qty_of (side v) (mpx l)) C))"
    using assms(1) ladder unfolding sums_books_def by auto
  ultimately show ?thesis by (simp add: best_of_def FillQuote_def ladder)
qed



text \<open>Stopping the engine ends the streams: a call that has been opened when the engine is stopped for the first
  time ends in its next turn, without writing anything more.\<close>

theorem engine_stop_ends_calls:
  assumes "capacity \<le> 2 ^ 63" "list_all (system_faithful w B) steps"
    and "system_run w draw moved (new_system (new_aggregator w config options capacity seed now)) steps = Some s"
    and "i < length (sy_calls s)" "sc_started (sy_calls s ! i)" "\<not> stopping s"
  shows "\<exists>s1 s2. system_step w draw moved s StopEngine = Some s1 \<and>
     system_step w draw moved s1 (TurnCall i cancelled t write_ok) = Some s2 \<and>
     \<not> sm_open (sc_stream (sy_calls s2 ! i)) \<and>
     sm_sent (sc_stream (sy_calls s2 ! i)) = sm_sent (sc_stream (sy_calls s ! i))"
proof -
  let ?c = "sy_calls s ! i" and ?e = "ag_engine (sy_aggregator s)"
  have "system_inv w B s" using system_run_inv [OF new_system_inv [OF assms(1)] assms(2), of draw moved config options seed now] assms(3) by auto
  then have "slot_served ?e (sm_slot (sc_stream ?c))"
    using assms(4) by (auto simp: system_inv_def calls_ok_def call_ok_def list_all_length)
  from stop_stops_served [OF this assms(6)] have "cs_stopped (en_store (engine_Stop ?e) ! sm_slot (sc_stream ?c))" .
  from turn_ends [OF this] assms(4,5) show ?thesis by (simp add: call_update_def split_beta Let_def)
qed


text \<open>A call registers, a book is published, and only then the call sends the current book: the same book waits in
  its slot and is not sent again.\<close>

definition example_system_steps :: "SystemStep list" where
  "example_system_steps = map Aggregate example_steps @
     [OpenCall \<lparr>sn_instrument = [], sn_min_interval_micros = 0\<rparr>, Aggregate (PublishBook 40 7), StartCall 0 41 True, TurnCall 0 False 42 True]"

abbreviation example_system :: "unit System option" where
  "example_system \<equiv> system_run example_wiring low_draw (\<lambda>b. b)
     (new_system (new_aggregator example_wiring default_engine_config default_runner_options 4 () 0)) example_system_steps"

lemma example_system_faithful: "list_all (system_faithful example_wiring example_books) example_system_steps"
  using example_faithful by (simp add: example_system_steps_def list_all_iff)

lemma example_system_sent:
  "case example_system of None \<Rightarrow> False
   | Some s \<Rightarrow> map (\<lambda>c. (sc_started c, map (\<lambda>(t, book). (t, cb_sequence book, qu_price_e8 (up_bid (bbo_update book)))) (sm_sent (sc_stream c))))
       (sy_calls s) = [(True, [(41, 1, 10000000000)])] \<and> \<not> stopping s \<and>
       list_all (\<lambda>c. sm_open (sc_stream c) \<and> \<not> cs_stopped (en_store (ag_engine (sy_aggregator s)) ! sm_slot (sc_stream c))) (sy_calls s)"
  by code_simp

lemma example_system_at:
  obtains s c book where "example_system = Some s" "sy_calls s = [c]" "sc_started c" "sm_sent (sc_stream c) = [(41, book)]"
    "qu_price_e8 (up_bid (bbo_update book)) = 10000000000" "\<not> stopping s"
    "sm_open (sc_stream c)" "\<not> cs_stopped (en_store (ag_engine (sy_aggregator s)) ! sm_slot (sc_stream c))"
  using example_system_sent by (auto split: option.splits)

lemma four_small: "(4 :: u64) \<le> 2 ^ 63"
  by simp




theorem engine_stop_ends_calls_witness:
  "\<exists>s s1 s2. example_system = Some s \<and> system_step example_wiring low_draw (\<lambda>b. b) s StopEngine = Some s1 \<and>
     system_step example_wiring low_draw (\<lambda>b. b) s1 (TurnCall 0 False 50 True) = Some s2 \<and>
     \<not> sm_open (sc_stream (sy_calls s2 ! 0)) \<and> length (sm_sent (sc_stream (sy_calls s2 ! 0))) = 1"
proof -
  obtain s c book where s: "example_system = Some s" "sy_calls s = [c]" "sc_started c" "sm_sent (sc_stream c) = [(41, book)]" "\<not> stopping s"
    by (rule example_system_at)
  from engine_stop_ends_calls [OF four_small example_system_faithful s(1), of 0 False 50 True] s show ?thesis by auto
qed


end
