(* ===== verification/Venue_Thread.thy ===== *)
theory Venue_Thread
  imports Live_Book Ws_Client Http_Client
begin

text \<open>
  A venue thread as a whole: the runner (\<^verbatim>\<open>src/venues/runner.cc\<close>) with the websocket connections
  it has made, its snapshot requests, its two timers and the handlers posted to its \<^verbatim>\<open>io_context\<close>.
  What a handler of the runner asks for is done to the connection, the request or the timer it names,
  and what those call back is an event of the runner. A connection is kept after it has been replaced,
  as its own pending operations keep it alive in the code; the last one made is \<^verbatim>\<open>connection_\<close>.

  A callback made by a call before it returns (a close before the handshake, a malformed URL) waits in
  \<open>vt_due\<close> and is delivered before any other handler runs. A callback made by a connection's own
  handler is handled on the spot, and the calls that the runner then makes on that connection are the
  \<open>cp_reaction\<close> of the handler.
\<close>

section \<open>Data\<close>

datatype PostedCall = PostConnect | PostStop

text \<open>The waits of a timer are listed with whether they have been cancelled.\<close>

record ('s, 'g) VenueThread =
  vt_runner :: "('s, 'g) VenueRunner"
  vt_started :: bool
  vt_posted :: "PostedCall list"
  vt_conns :: "WsConnection list"
  vt_requests :: "HttpSession list"
  vt_reconnect :: "bool list"
  vt_watchdog :: "bool list"
  vt_due :: "RunnerEvent list"

definition new_thread :: "('s, 'g) VenueRunner \<Rightarrow> ('s, 'g) VenueThread" where
  "new_thread r =
     \<lparr>vt_runner = r, vt_started = False, vt_posted = [], vt_conns = [], vt_requests = [], vt_reconnect = [],
      vt_watchdog = [], vt_due = []\<rparr>"

section \<open>What the runner asks for\<close>

text \<open>The generation of the connection with an index: \<^verbatim>\<open>++reconnect_generation_\<close> counts them.\<close>

definition generation :: "nat \<Rightarrow> u64" where
  "generation i = of_nat (Suc i)"

text \<open>The \<^verbatim>\<open>on_close\<close> callbacks that a connection has made between two states.\<close>

definition close_callbacks :: "nat \<Rightarrow> WsConnection \<Rightarrow> WsConnection \<Rightarrow> RunnerEvent list" where
  "close_callbacks i c c' = replicate (closes (ws_trace c') - closes (ws_trace c)) (EvClosed (generation i))"

definition answers :: "i64 \<Rightarrow> i64 \<Rightarrow> (bool \<times> string \<times> string) list \<Rightarrow> RunnerEvent list" where
  "answers recv now calls = map (\<lambda>(ok, body, error). EvSnapshot ok body recv now) calls"

definition update_conn :: "nat \<Rightarrow> WsConnection \<Rightarrow> ('s, 'g) VenueThread \<Rightarrow> ('s, 'g) VenueThread" where
  "update_conn i c s =
     s\<lparr>vt_conns := (vt_conns s)[i := c], vt_due := vt_due s @ close_callbacks i (vt_conns s ! i) c\<rparr>"

text \<open>A call on \<^verbatim>\<open>connection_\<close>.\<close>

fun call_of :: "RunnerAct \<Rightarrow> WsCall option" where
  "call_of (ActSend g frame) = Some (CallSend frame)"
| "call_of (ActStartKeepalive g frame interval) = Some (CallStartKeepalive frame interval)"
| "call_of (ActClose g) = Some CallClose"
| "call_of a = None"

definition call_last :: "WsCall \<Rightarrow> ('s, 'g) VenueThread \<Rightarrow> ('s, 'g) VenueThread" where
  "call_last call s =
     (if vt_conns s = [] then s
      else update_conn (length (vt_conns s) - 1) (ws_call (last (vt_conns s)) call) s)"

text \<open>\<^verbatim>\<open>expires_after\<close> cancels the waits of the timer, \<^verbatim>\<open>async_wait\<close> adds one.\<close>

definition rearm :: "bool list \<Rightarrow> bool list" where
  "rearm waits = map (\<lambda>_. True) waits @ [False]"

definition perform :: "i64 \<Rightarrow> ('s, 'g) VenueThread \<Rightarrow> RunnerAct \<Rightarrow> ('s, 'g) VenueThread" where
  "perform now s a =
     (case a of
        ActOpen g url \<Rightarrow>
          let c = ws_Open url now new_ws
          in s\<lparr>vt_conns := vt_conns s @ [c], vt_due := vt_due s @ close_callbacks (length (vt_conns s)) new_ws c\<rparr>
      | ActHttpGet url t \<Rightarrow>
          let q = HttpGet url
          in s\<lparr>vt_requests := vt_requests s @ [q], vt_due := vt_due s @ answers t t (hs_calls q)\<rparr>
      | ActReconnectAfter delay \<Rightarrow> s\<lparr>vt_reconnect := rearm (vt_reconnect s)\<rparr>
      | ActWatchdogAfter delay \<Rightarrow> s\<lparr>vt_watchdog := rearm (vt_watchdog s)\<rparr>
      | ActCancelTimers \<Rightarrow>
          s\<lparr>vt_reconnect := map (\<lambda>_. True) (vt_reconnect s), vt_watchdog := map (\<lambda>_. True) (vt_watchdog s)\<rparr>
      | _ \<Rightarrow> (case call_of a of None \<Rightarrow> s | Some call \<Rightarrow> call_last call s))"

text \<open>The runner handles an event, and what it asks for is done.\<close>

definition new_acts :: "('s, 'g) VenueRunner \<Rightarrow> ('s, 'g) VenueRunner \<Rightarrow> RunnerAct list" where
  "new_acts r r' = drop (length (rn_acts r)) (rn_acts r')"

definition handle ::
  "'s VenueProtocol \<Rightarrow> ('g \<Rightarrow> int \<Rightarrow> int \<Rightarrow> int \<times> 'g) \<Rightarrow> i64 \<Rightarrow> RunnerEvent \<Rightarrow> ('s, 'g) VenueThread \<Rightarrow>
     ('s, 'g) VenueThread" where
  "handle p draw now e s =
     (let r' = runner_handle p draw (vt_runner s) e
      in foldl (perform now) (s\<lparr>vt_runner := r'\<rparr>) (new_acts (vt_runner s) r'))"

section \<open>What calls the runner\<close>

text \<open>The callback that the completion of a connection's operation makes first.\<close>

fun op_event :: "WsOp \<Rightarrow> Completion \<Rightarrow> i64 \<Rightarrow> i64 \<Rightarrow> RunnerEvent option" where
  "op_event OpHandshake cp recv now = (if cp_ec cp = no_error then Some (EvOpen now) else None)"
| "op_event OpRead cp recv now = (if cp_ec cp = no_error then Some (EvFrame (cp_frame cp) recv now) else None)"
| "op_event op cp recv now = None"

definition calls_of :: "RunnerAct list \<Rightarrow> WsCall list" where
  "calls_of acts = List.map_filter call_of acts"

definition complete_op ::
  "'s VenueProtocol \<Rightarrow> ('g \<Rightarrow> int \<Rightarrow> int \<Rightarrow> int \<times> 'g) \<Rightarrow> nat \<Rightarrow> nat \<Rightarrow> Completion \<Rightarrow> i64 \<Rightarrow> i64 \<Rightarrow>
     ('s, 'g) VenueThread \<Rightarrow> ('s, 'g) VenueThread" where
  "complete_op p draw i k cp recv now s =
     (let c = vt_conns s ! i;
          op = ws_ops c ! k;
          r = vt_runner s;
          r' = (case op_event op cp recv now of None \<Rightarrow> r | Some e \<Rightarrow> runner_handle p draw r e);
          acts = new_acts r r';
          own = (Suc i = length (vt_conns s));
          reaction = (if own then calls_of acts else []);
          others = (if own then filter (\<lambda>a. call_of a = None) acts else acts);
          c' = complete (cp\<lparr>cp_reaction := reaction\<rparr>) op (c\<lparr>ws_ops := take k (ws_ops c) @ drop (Suc k) (ws_ops c)\<rparr>)
      in foldl (perform now) (update_conn i c' (s\<lparr>vt_runner := r'\<rparr>)) others)"

definition complete_request :: "nat \<Rightarrow> HttpReport \<Rightarrow> i64 \<Rightarrow> i64 \<Rightarrow> ('s, 'g) VenueThread \<Rightarrow> ('s, 'g) VenueThread option" where
  "complete_request i report recv now s =
     (let q = vt_requests s ! i
      in case hs_op q of
           None \<Rightarrow> None
         | Some op \<Rightarrow>
             let q' = http_completed op report (q\<lparr>hs_op := None\<rparr>)
             in Some (s\<lparr>vt_requests := (vt_requests s)[i := q'],
                        vt_due := vt_due s @ answers recv now (drop (length (hs_calls q)) (hs_calls q'))\<rparr>))"

section \<open>Steps\<close>

datatype ThreadStep =
    StStart
  | StStop
  | StDue
  | StPosted nat i64
  | StWs nat nat Completion i64 i64
  | StHttp nat HttpReport i64 i64
  | StReconnect nat error_code i64
  | StWatchdog nat error_code i64

definition remove_nth :: "nat \<Rightarrow> 'a list \<Rightarrow> 'a list" where
  "remove_nth k xs = take k xs @ drop (Suc k) xs"

text \<open>A handler of the context starts only when no other is running and the context is not stopped.\<close>

definition runnable :: "('s, 'g) VenueThread \<Rightarrow> bool" where
  "runnable s \<longleftrightarrow> vt_due s = [] \<and> \<not> rn_io_stopped (vt_runner s)"

text \<open>A wait ends with an error only when it has been cancelled.\<close>

definition wait_ends :: "bool list \<Rightarrow> nat \<Rightarrow> error_code \<Rightarrow> bool" where
  "wait_ends waits k ec \<longleftrightarrow> k < length waits \<and> (ec \<noteq> no_error \<longrightarrow> waits ! k)"

fun posted_event :: "PostedCall \<Rightarrow> i64 \<Rightarrow> RunnerEvent" where
  "posted_event PostConnect now = EvStart now"
| "posted_event PostStop now = EvStopPosted"

fun thread_step ::
  "'s VenueProtocol \<Rightarrow> ('g \<Rightarrow> int \<Rightarrow> int \<Rightarrow> int \<times> 'g) \<Rightarrow> ('s, 'g) VenueThread \<Rightarrow> ThreadStep \<Rightarrow>
     ('s, 'g) VenueThread option" where
  "thread_step p draw s StStart =
     (if vt_started s then None else Some (s\<lparr>vt_started := True, vt_posted := vt_posted s @ [PostConnect]\<rparr>))"
| "thread_step p draw s StStop =
     (if rn_stopping (vt_runner s) then Some s
      else Some (s\<lparr>vt_runner := request_stop (vt_runner s), vt_posted := vt_posted s @ [PostStop]\<rparr>))"
| "thread_step p draw s StDue =
     (case vt_due s of [] \<Rightarrow> None | e # es \<Rightarrow> Some (handle p draw 0 e (s\<lparr>vt_due := es\<rparr>)))"
| "thread_step p draw s (StPosted k now) =
     (if runnable s \<and> k < length (vt_posted s)
      then Some (handle p draw now (posted_event (vt_posted s ! k) now) (s\<lparr>vt_posted := remove_nth k (vt_posted s)\<rparr>))
      else None)"
| "thread_step p draw s (StWs i k cp recv now) =
     (if runnable s \<and> i < length (vt_conns s) \<and> k < length (ws_ops (vt_conns s ! i))
      then Some (complete_op p draw i k cp recv now s) else None)"
| "thread_step p draw s (StHttp i report recv now) =
     (if runnable s \<and> i < length (vt_requests s) then complete_request i report recv now s else None)"
| "thread_step p draw s (StReconnect k ec now) =
     (if runnable s \<and> wait_ends (vt_reconnect s) k ec
      then Some (handle p draw now (EvReconnect ec now) (s\<lparr>vt_reconnect := remove_nth k (vt_reconnect s)\<rparr>)) else None)"
| "thread_step p draw s (StWatchdog k ec now) =
     (if runnable s \<and> wait_ends (vt_watchdog s) k ec
      then Some (handle p draw now (EvWatchdog ec now) (s\<lparr>vt_watchdog := remove_nth k (vt_watchdog s)\<rparr>)) else None)"

fun thread_run ::
  "'s VenueProtocol \<Rightarrow> ('g \<Rightarrow> int \<Rightarrow> int \<Rightarrow> int \<times> 'g) \<Rightarrow> ('s, 'g) VenueThread \<Rightarrow> ThreadStep list \<Rightarrow>
     ('s, 'g) VenueThread option" where
  "thread_run p draw s [] = Some s"
| "thread_run p draw s (st # sts) =
     (case thread_step p draw s st of None \<Rightarrow> None | Some s' \<Rightarrow> thread_run p draw s' sts)"

section \<open>Connections\<close>

text \<open>A close has been asked for and something is outstanding that will end the connection.\<close>

definition closing :: "WsConnection \<Rightarrow> bool" where
  "closing c \<longleftrightarrow> ws_close_pending c \<and> ws_writing c \<or> pending is_close (ws_ops c) > 0"

definition ending :: "WsConnection \<Rightarrow> bool" where
  "ending c \<longleftrightarrow> closing c \<or> ws_finished c"

text \<open>What every call and every completion keeps of a connection.\<close>

definition conn_advances :: "WsConnection \<Rightarrow> WsConnection \<Rightarrow> bool" where
  "conn_advances c c' \<longleftrightarrow>
     (ws_state c \<noteq> kIdle \<longrightarrow> ws_state c' \<noteq> kIdle) \<and> (ws_finished c \<longrightarrow> ws_finished c') \<and> (ending c \<longrightarrow> ending c')"

lemma conn_advances_refl [simp]: "conn_advances c c"
  by (simp add: conn_advances_def)

lemma conn_advances_trans: "conn_advances a b \<Longrightarrow> conn_advances b c \<Longrightarrow> conn_advances a c"
  by (auto simp: conn_advances_def)

lemmas advancing = conn_advances_def ending_def closing_def

lemma start_advances: "op \<noteq> OpClose \<Longrightarrow> conn_advances c (start_op op c)"
  by (auto simp: advancing start_op_def)

lemma Finish_advances: "conn_advances c (ws_Finish reason c)" "ws_finished (ws_Finish reason c)"
  by (auto simp: advancing ws_Finish_def ws_prims)

lemma Fail_advances: "conn_advances c (ws_Fail ec stage c)" "ws_finished (ws_Fail ec stage c)"
  by (simp_all add: ws_Fail_def Finish_advances)

lemma DoWrite_advances: "\<not> ws_writing c \<Longrightarrow> conn_advances c (DoWrite c)"
  by (cases "ws_write_queue c") (auto simp: advancing DoWrite_def ws_prims)

lemma Send_advances: "conn_advances c (ws_Send payload c)"
proof -
  let ?c1 = "note_event (Queued payload) (c\<lparr>ws_write_queue := ws_write_queue c @ [payload]\<rparr>)"
  have "conn_advances c ?c1" by (simp add: advancing ws_prims)
  then show ?thesis using conn_advances_trans [OF _ DoWrite_advances [of ?c1]] by (simp add: ws_Send_def Let_def)
qed

lemma ArmKeepalive_advances: "conn_advances c (ArmKeepalive c)"
  by (auto simp: advancing ArmKeepalive_def ws_prims)

text \<open>A connection that is told to close is on its way out.\<close>

lemma Close_ends:
  assumes "ws_core c"
  shows "ending (ws_Close c)" "ws_state (ws_Close c) \<noteq> kIdle"
proof -
  have "ws_url c \<noteq> None" if "ws_state c = kOpen" using assms that by (simp add: ws_core_def)
  then show "ending (ws_Close c)" using Finish_advances(2) [of _ c]
    by (auto simp: ws_Close_def ending_def closing_def ws_prims)
  have "ws_state (ws_Finish reason c) \<noteq> kIdle" for reason
    using assms by (auto simp: ws_Finish_def ws_prims ws_core_def)
  then show "ws_state (ws_Close c) \<noteq> kIdle" by (auto simp: ws_Close_def ws_prims)
qed

lemma Close_advances: "ws_core c \<Longrightarrow> conn_advances c (ws_Close c)"
  using Close_ends [of c] Finish_advances(2) by (auto simp: conn_advances_def ws_Close_def ws_prims)

lemma call_advances:
  assumes "ws_core c"
  shows "conn_advances c (ws_call c call)"
proof (cases call)
  case (CallStartKeepalive payload interval)
  have "conn_advances c (c\<lparr>ws_keepalive_payload := payload, ws_keepalive_interval := interval\<rparr>)"
    by (simp add: advancing)
  from conn_advances_trans [OF this ArmKeepalive_advances] CallStartKeepalive show ?thesis by (simp add: StartKeepalive_def)
qed (simp_all add: Send_advances Close_advances assms)

lemma calls_advance: "ws_core c \<Longrightarrow> conn_advances c (foldl ws_call c calls)"
proof (induction calls arbitrary: c)
  case (Cons call calls)
  from conn_advances_trans [OF call_advances Cons.IH [OF call_core]] Cons.prems show ?case by simp
qed simp

lemma callback_advances:
  assumes "ws_core c" "closes [e] = 0" "queued [e] = []" "written [e] = []"
  shows "conn_advances c (callback e reaction c)"
proof -
  have "ws_core (note_event e c)" using assms by (simp add: ws_core_def note_event_def)
  moreover have "conn_advances c (note_event e c)" by (simp add: advancing note_event_def)
  ultimately show ?thesis unfolding callback_def using conn_advances_trans calls_advance by blast
qed

lemma DoRead_advances: "conn_advances c (DoRead c)"
  by (simp add: DoRead_def start_advances)

text \<open>Taking an operation out does not end an ending unless the operation is the one that ends it.\<close>

lemma taken_advances:
  assumes "ws_ops c = xs @ op # ys" "\<not> is_close op"
  shows "conn_advances c (c\<lparr>ws_ops := xs @ ys\<rparr>)"
  using assms by (simp add: advancing del: is_close.simps)

lemma OnWebsocketHandshake_advances:
  assumes "ws_core c" "ws_ops c = xs @ OpHandshake # ys"
  shows "conn_advances (c\<lparr>ws_ops := xs @ ys\<rparr>) (OnWebsocketHandshake ec now reaction (c\<lparr>ws_ops := xs @ ys\<rparr>))"
proof (cases "ec = no_error")
  case True
  let ?c = "c\<lparr>ws_ops := xs @ ys, ws_state := kOpen, ws_last_inbound := now\<rparr>"
  let ?c1 = "DoRead (callback OnOpenCb reaction ?c)"
  note pre = taken_chain [OF assms] taken_pre [OF assms]
  obtain u where "ws_url c = Some u" using pre by auto
  with pre have core: "ws_core ?c" by (simp add: ws_core_def)
  have "conn_advances (c\<lparr>ws_ops := xs @ ys\<rparr>) ?c" by (simp add: advancing)
  from conn_advances_trans [OF conn_advances_trans [OF this callback_advances [OF core]] DoRead_advances]
  have "conn_advances (c\<lparr>ws_ops := xs @ ys\<rparr>) ?c1" by simp
  with conn_advances_trans [OF this DoWrite_advances] True show ?thesis by (simp add: OnWebsocketHandshake_def Let_def)
qed (simp add: OnWebsocketHandshake_def Fail_advances)

lemma OnRead_advances:
  assumes "ws_core c"
  shows "conn_advances c (OnRead ec frame now reaction c)"
proof -
  have core: "ws_core (c\<lparr>ws_last_inbound := now\<rparr>)" using assms by (simp add: ws_core_def)
  have "conn_advances c (c\<lparr>ws_last_inbound := now\<rparr>)" by (simp add: advancing)
  from conn_advances_trans [OF conn_advances_trans [OF this callback_advances [OF core]] DoRead_advances]
  show ?thesis by (simp add: OnRead_def Fail_advances)
qed

lemma OnWrite_advances:
  assumes "ws_inv c" "ws_ops c = xs @ OpWrite payload # ys"
  shows "conn_advances c (OnWrite ec payload (c\<lparr>ws_ops := xs @ ys\<rparr>))"
proof -
  let ?c1 = "c\<lparr>ws_ops := xs @ ys, ws_writing := False\<rparr>"
  let ?c2 = "note_event (Written payload) (?c1\<lparr>ws_write_queue := tl (ws_write_queue c)\<rparr>)"
  note taken = taken_write [OF assms]
  have core1: "ws_core ?c1" using taken(1) by (simp add: ws_inv_def)
  have "OpWrite p \<notin> set (xs @ ys)" for p using no_write [OF taken(3)] .
  moreover have "queued (ws_trace c) = written (ws_trace c) @ payload # tl (ws_write_queue c)"
    using core1 taken(2) by (simp add: ws_core_def)
  ultimately have core3: "ws_core (?c2\<lparr>ws_close_pending := False\<rparr>)" using core1 by (simp add: ws_core_def note_event_def)
  have ends: "conn_advances c c'" if "ws_state c' \<noteq> kIdle" "ending c'" "ws_finished c \<longrightarrow> ws_finished c'" for c'
    using that by (simp add: conn_advances_def)
  show ?thesis
  proof (cases "ec = no_error")
    case False
    let ?f = "ws_Fail ec ''write'' ?c1"
    have "ws_core ?f" "ws_finished ?f" using Fail_inv [OF core1] Fail_advances(2) by (simp_all add: ws_inv_def)
    then have "conn_advances c ?f" using finished_state [of ?f] by (intro ends) (auto simp: ending_def)
    with False show ?thesis by (simp add: OnWrite_def)
  next
    case ok: True
    show ?thesis
    proof (cases "ws_close_pending c")
      case True
      let ?c3 = "?c2\<lparr>ws_close_pending := False\<rparr>"
      have "ws_finished c \<longrightarrow> ws_finished (ws_Close ?c3)"
        using Close_advances [OF core3] by (simp add: conn_advances_def note_event_def)
      with ends Close_ends [OF core3] have "conn_advances c (ws_Close ?c3)" by blast
      with True ok show ?thesis by (simp add: OnWrite_def Let_def note_event_def)
    next
      case False
      then have c2: "conn_advances c ?c2" using assms(2) by (simp add: advancing note_event_def)
      with conn_advances_trans [OF c2 DoWrite_advances] False ok show ?thesis
        by (cases "tl (ws_write_queue c) = []") (simp_all add: OnWrite_def Let_def note_event_def)
    qed
  qed
qed

lemma OnKeepalive_advances: "conn_advances c (OnKeepalive ec c)"
  using conn_advances_trans [OF Send_advances ArmKeepalive_advances] by (simp add: OnKeepalive_def ArmKeepalive_advances)

lemma complete_advances:
  assumes "ws_inv c" "ws_ops c = xs @ op # ys"
  shows "conn_advances c (complete cp op (c\<lparr>ws_ops := xs @ ys\<rparr>))"
proof -
  let ?c = "c\<lparr>ws_ops := xs @ ys\<rparr>"
  have core: "ws_core c" using assms(1) by (simp add: ws_inv_def)
  note taken = taken_advances [OF assms(2)]
  note go = conn_advances_trans [OF taken]
  show ?thesis
  proof (cases op)
    case OpResolve with go show ?thesis by (simp add: OnResolve_def Fail_advances start_advances)
  next
    case OpConnect with go show ?thesis
      by (simp add: OnConnect_def StartWebsocketHandshake_def Fail_advances start_advances)
  next
    case OpTlsHandshake with go show ?thesis
      by (simp add: OnTlsHandshake_def StartWebsocketHandshake_def Fail_advances start_advances)
  next
    case OpHandshake with core assms go show ?thesis by (simp add: OnWebsocketHandshake_advances)
  next
    case OpRead
    with taken_chain(1) [OF core assms(2)] have "ws_core ?c" by simp
    from go [OF _ OnRead_advances [OF this]] OpRead show ?thesis by simp
  next
    case OpWrite with assms show ?thesis by (simp add: OnWrite_advances)
  next
    case OpClose
    have "ws_core (ws_Finish ''closed'' ?c)" using OnClose_inv [OF core] assms(2) OpClose by (simp add: ws_inv_def)
    from finished_state [OF this Finish_advances(2)] OpClose show ?thesis
      using Finish_advances(2) [of _ ?c] by (auto simp: conn_advances_def ending_def)
  next
    case OpKeepalive with go show ?thesis by (simp add: OnKeepalive_advances)
  qed
qed

text \<open>The operations that lead to the handshake's end follow each other without a break.\<close>

definition connecting :: "WsConnection \<Rightarrow> bool" where
  "connecting c \<longleftrightarrow> pending is_pre (ws_ops c) > 0"

lemma call_connecting: "connecting (ws_call c call) = connecting c"
  using call_chain [of c call] by (simp add: connecting_def same_chain_def)

lemma complete_connecting:
  assumes "ws_inv c" "ws_ops c = xs @ op # ys" "connecting c" "\<not> (op = OpHandshake \<and> cp_ec cp = no_error)"
  shows "connecting (complete cp op (c\<lparr>ws_ops := xs @ ys\<rparr>)) \<or> ws_finished (complete cp op (c\<lparr>ws_ops := xs @ ys\<rparr>))"
proof -
  have core: "ws_core c" using assms(1) by (simp add: ws_inv_def)
  obtain u where url: "ws_url c = Some u" using ops_url [OF core assms(2)] by blast
  have start: "connecting (start_op next_op (c\<lparr>ws_ops := xs @ ys\<rparr>))" if "is_pre next_op" for next_op
    using url that by (simp add: connecting_def start_op_def del: is_pre.simps)
  have alone: "pending is_read (ws_ops c) = 0" "\<not> ws_writing c" "pending is_close (ws_ops c) = 0"
    using core assms(3) by (auto simp: ws_core_def connecting_def)
  have "pending is_write (ws_ops c) = 0" using core alone(2) by (simp add: ws_core_def)
  with alone assms(2) consider "is_pre op" | cancelled where "op = OpKeepalive cancelled" by (cases op) auto
  then show ?thesis
  proof cases
    case 1
    then show ?thesis
      using assms(4) Fail_advances(2) start
      by (auto simp: OnResolve_def OnConnect_def OnTlsHandshake_def StartWebsocketHandshake_def OnWebsocketHandshake_def)
  next
    case 2
    have "same_chain c' (OnKeepalive ec c')" for ec c'
      using same_chain_trans [OF Send_chain ArmKeepalive_chain] by (simp add: OnKeepalive_def ArmKeepalive_chain)
    from this [of "c\<lparr>ws_ops := xs @ ys\<rparr>" "cp_ec cp"]
    have "pending is_pre (ws_ops (OnKeepalive (cp_ec cp) (c\<lparr>ws_ops := xs @ ys\<rparr>))) = pending is_pre (xs @ ys)"
      by (simp add: same_chain_def)
    with 2 assms(2,3) show ?thesis by (simp add: connecting_def)
  qed
qed

lemma taken_nth: "k < length ops \<Longrightarrow> ops = take k ops @ ops ! k # drop (Suc k) ops"
  by (rule id_take_nth_drop)

section \<open>What the runner's handlers ask for\<close>

text \<open>Every handler but those that connect and stop asks only for what is plain.\<close>

fun plain :: "RunnerAct \<Rightarrow> bool" where
  "plain (ActOpen g url) \<longleftrightarrow> False"
| "plain ActCancelTimers \<longleftrightarrow> False"
| "plain a \<longleftrightarrow> True"

definition quiet :: "('s, 'g) VenueRunner \<Rightarrow> ('s, 'g) VenueRunner \<Rightarrow> bool" where
  "quiet r r' \<longleftrightarrow>
     (\<exists>acts. rn_acts r' = rn_acts r @ acts \<and> list_all plain acts) \<and>
     rn_connection r' = rn_connection r \<and> rn_reconnect_generation r' = rn_reconnect_generation r \<and>
     rn_stopping r' = rn_stopping r \<and> rn_io_stopped r' = rn_io_stopped r"

lemma quiet_refl [simp]: "quiet r r"
  by (simp add: quiet_def)

lemma quiet_trans: "quiet a b \<Longrightarrow> quiet b c \<Longrightarrow> quiet a c"
  by (auto simp: quiet_def)

lemma quiet_same:
  "rn_acts r' = rn_acts r \<Longrightarrow> rn_connection r' = rn_connection r \<Longrightarrow>
   rn_reconnect_generation r' = rn_reconnect_generation r \<Longrightarrow> rn_stopping r' = rn_stopping r \<Longrightarrow>
   rn_io_stopped r' = rn_io_stopped r \<Longrightarrow> quiet r r'"
  by (simp add: quiet_def)

lemma quiet_act: "plain a \<Longrightarrow> quiet r (act a r)"
  by (simp add: quiet_def act_def)

lemma quiet_prims [simp]:
  "quiet r (SetState st r)" "quiet r (bump f r)" "quiet r (close_connection r)" "quiet r (MarkHealthy r)"
  "quiet r (ArmWatchdog r)" "quiet r (ScheduleReconnect draw r)" "quiet r (fst (ConsumeResyncToken now r))"
  "quiet r (reset_protocol p r)" "quiet r (r\<lparr>rn_protocol := s\<rparr>)" "quiet r (r\<lparr>rn_ring := ring\<rparr>)"
  "quiet r (r\<lparr>rn_last_activity := now\<rparr>)"
  by (auto simp: quiet_def runner_prims ArmWatchdog_def ScheduleReconnect_def ConsumeResyncToken_def reset_protocol_def
      split_beta Let_def split: option.splits)

lemma quiet_OnClose: "quiet r (runner_OnClose draw r)"
  using quiet_trans [OF quiet_prims(1) quiet_prims(6)] by (auto simp: runner_OnClose_def Let_def)

lemma quiet_FetchSnapshot: "quiet r (FetchSnapshot p draw now r)"
proof -
  obtain r1 ok where c: "ConsumeResyncToken now r = (r1, ok)" by fastforce
  have k: "quiet r r1" using quiet_prims(7) [of r now] c by simp
  from quiet_trans [OF k quiet_act [of "ActHttpGet (vp_RestSnapshotUrl p) now"]] quiet_trans [OF k quiet_prims(6)]
  show ?thesis by (simp add: FetchSnapshot_def c)
qed

lemma quiet_Resync: "quiet r (Resync p draw now r)"
proof -
  let ?r1 = "reset_protocol p (SetState kSyncing (bump (\<lambda>st. st\<lparr>vs_resyncs := vs_resyncs st + 1\<rparr>) r))"
  have r1: "quiet r ?r1" using quiet_trans [OF quiet_prims(2) quiet_trans [OF quiet_prims(1) quiet_prims(8)]] .
  from quiet_trans [OF r1 quiet_FetchSnapshot] quiet_trans [OF r1 quiet_prims(3)] show ?thesis by (simp add: Resync_def Let_def)
qed

lemma quiet_Publish: "quiet r (runner_Publish p draw now updates r)"
proof -
  let ?batch = "\<lparr>fb_venue_index = rn_venue_index r, fb_updates = updates\<rparr>"
  obtain ring ok where push: "Push (rn_ring r) ?batch = (ring, ok)" by fastforce
  from quiet_trans [OF quiet_prims(10) [of r] quiet_act [of "ActPushed ?batch"]]
    quiet_trans [OF quiet_prims(10) [of r] quiet_trans [OF quiet_prims(2) quiet_Resync]] push
  show ?thesis by (simp add: runner_Publish_def)
qed

lemma quiet_live: "quiet r (live_if_synced p r)"
  using quiet_trans [OF quiet_prims(1) quiet_prims(4)] by (auto simp: live_if_synced_def)

lemma quiet_OnFrame: "quiet r (runner_OnFrame p draw frame recv now r)"
proof -
  let ?b = "bump (\<lambda>st. st\<lparr>vs_messages := vs_messages st + 1, vs_last_recv_ts_ns := recv\<rparr>) (r\<lparr>rn_last_activity := now\<rparr>)"
  obtain s v updates where out: "vp_OnFrame p (rn_protocol ?b) frame recv = (s, v, updates)"
    by (cases "vp_OnFrame p (rn_protocol ?b) frame recv")
  have r1: "quiet r (?b\<lparr>rn_protocol := s\<rparr>)" using quiet_trans [OF quiet_prims(11) quiet_trans [OF quiet_prims(2) quiet_prims(9)]] .
  note r2 = quiet_trans [OF r1 quiet_act [of "ActInput (WsFrame frame recv)"]]
  note r3 = quiet_trans [OF r2 quiet_prims(2)]
  note pub = quiet_trans [OF quiet_Publish quiet_live]
  show ?thesis
    using quiet_trans [OF r1 quiet_trans [OF quiet_prims(2) quiet_Resync]] r2 quiet_trans [OF r2 pub] quiet_trans [OF r3 pub]
      quiet_trans [OF r1 quiet_trans [OF quiet_prims(2) quiet_trans [OF quiet_prims(1) quiet_prims(3)]]]
    by (cases v) (simp_all add: runner_OnFrame_def out Let_def)
qed

lemma quiet_snapshot: "quiet r (on_snapshot p draw ok body recv now r)"
proof -
  obtain s v updates where out: "vp_OnRestSnapshot p (rn_protocol r) body recv = (s, v, updates)"
    by (cases "vp_OnRestSnapshot p (rn_protocol r) body recv")
  from quiet_trans [OF quiet_prims(9) [of r] quiet_Resync]
    quiet_trans [OF quiet_prims(9) [of r] quiet_trans [OF quiet_act [of "ActInput (RestBody body recv)"] quiet_trans [OF quiet_Publish quiet_live]]]
  show ?thesis by (simp add: on_snapshot_def out Let_def quiet_OnClose)
qed

lemma quiet_sends: "quiet r (foldl (\<lambda>r frame. act (ActSend g frame) r) r frames)"
proof (induction frames arbitrary: r)
  case (Cons f frames)
  from quiet_trans [OF quiet_act Cons.IH] show ?case by simp
qed simp

lemma quiet_OnOpen: "quiet r (runner_OnOpen p draw now r)"
proof -
  let ?r1 = "SetState kSyncing r"
  have sent: "quiet r (act (ActStartKeepalive g (vp_KeepaliveFrame p) (vp_keepalive_interval p))
      (foldl (\<lambda>r frame. act (ActSend g frame) r) ?r1 (vp_SubscribeFrames p)))" for g
    by (rule quiet_trans [OF quiet_prims(1) quiet_trans [OF quiet_sends quiet_act]]) simp
  from quiet_trans [OF sent quiet_FetchSnapshot] quiet_trans [OF quiet_prims(1) [of r] quiet_FetchSnapshot] sent
  show ?thesis by (simp add: runner_OnOpen_def Let_def split: option.splits)
qed

lemma quiet_watchdog: "quiet r (on_watchdog ec now r)"
  using quiet_trans [OF quiet_prims(1) quiet_prims(3)] by (auto simp: on_watchdog_def)

fun quiet_event :: "RunnerEvent \<Rightarrow> bool" where
  "quiet_event (EvStart now) \<longleftrightarrow> False"
| "quiet_event (EvReconnect ec now) \<longleftrightarrow> False"
| "quiet_event EvStop \<longleftrightarrow> False"
| "quiet_event EvStopPosted \<longleftrightarrow> False"
| "quiet_event e \<longleftrightarrow> True"

lemma quiet_handle: "quiet_event e \<Longrightarrow> quiet r (runner_handle p draw r e)"
  by (cases e) (simp_all add: quiet_OnOpen quiet_OnFrame quiet_snapshot quiet_watchdog on_close_callback_def quiet_OnClose)

text \<open>A connection that is not finished has an operation outstanding that goes on with it.\<close>

lemma ws_outstanding:
  assumes "ws_reach c" "ws_state c \<noteq> kIdle" "\<not> ws_finished c"
  shows "closes (ws_trace c) = 0 \<and> (\<exists>op\<in>set (ws_ops c). is_pre op \<or> is_read op \<or> is_close op)"
proof -
  have inv: "ws_inv c" and core: "ws_core c" using ws_reach_inv [OF assms(1)] by (simp_all add: ws_inv_def)
  have "pending is_pre (ws_ops c) > 0 \<or> pending is_read (ws_ops c) > 0 \<or> pending is_close (ws_ops c) > 0"
    using inv core assms(2,3) by (cases "ws_state c") (auto simp: ws_inv_def ws_core_def)
  then have "\<exists>op\<in>set (ws_ops c). is_pre op \<or> is_read op \<or> is_close op"
    unfolding neq0_conv [symmetric] pending_0_iff by blast
  with core assms(3) show ?thesis by (simp add: ws_core_def)
qed

section \<open>What performing keeps\<close>

definition waiting :: "bool list \<Rightarrow> bool" where
  "waiting waits \<longleftrightarrow> False \<in> set waits"

lemma waiting_rearm [simp]: "waiting (rearm waits)"
  by (simp add: waiting_def rearm_def)

text \<open>Removing a wait loses an armed timer only when that wait was not cancelled.\<close>

lemma waiting_removed: "k < length waits \<Longrightarrow> waits ! k \<Longrightarrow> waiting (remove_nth k waits) = waiting waits"
  by (subst (2) taken_nth) (auto simp: waiting_def remove_nth_def)

definition conns_ok :: "('s, 'g) VenueThread \<Rightarrow> bool" where
  "conns_ok s \<longleftrightarrow> list_all (\<lambda>c. ws_reach c \<and> ws_state c \<noteq> kIdle) (vt_conns s)"

abbreviation last_closed :: "('s, 'g) VenueThread \<Rightarrow> RunnerEvent" where
  "last_closed s \<equiv> EvClosed (generation (length (vt_conns s) - 1))"

text \<open>
  The runner and the posted handlers stay, timers stay armed, callbacks and requests are only added, the
  last connection goes on; when it finishes, its close callback is due. \<open>k\<close>: a connection
  in its handshake stays in it or finishes.
\<close>

definition advances :: "bool \<Rightarrow> ('s, 'g) VenueThread \<Rightarrow> ('s, 'g) VenueThread \<Rightarrow> bool" where
  "advances k s s' \<longleftrightarrow>
     conns_ok s \<longrightarrow>
     conns_ok s' \<and> vt_runner s' = vt_runner s \<and> vt_started s' = vt_started s \<and> vt_posted s' = vt_posted s \<and>
     length (vt_conns s') = length (vt_conns s) \<and> set (vt_due s) \<subseteq> set (vt_due s') \<and>
     set (vt_requests s) \<subseteq> set (vt_requests s') \<and>
     (waiting (vt_reconnect s) \<longrightarrow> waiting (vt_reconnect s')) \<and> (waiting (vt_watchdog s) \<longrightarrow> waiting (vt_watchdog s')) \<and>
     (vt_conns s \<noteq> [] \<longrightarrow>
        conn_advances (last (vt_conns s)) (last (vt_conns s')) \<and>
        (ws_finished (last (vt_conns s')) \<longrightarrow> ws_finished (last (vt_conns s)) \<or> last_closed s \<in> set (vt_due s')) \<and>
        (k \<and> connecting (last (vt_conns s)) \<longrightarrow> connecting (last (vt_conns s')) \<or> ws_finished (last (vt_conns s'))))"

lemma advances_refl [simp]: "advances k s s"
  by (simp add: advances_def)

lemma advances_trans:
  assumes "advances k a b" "advances k b c"
  shows "advances k a c"
proof -
  have "vt_conns b \<noteq> [] \<longleftrightarrow> vt_conns a \<noteq> []" if "length (vt_conns b) = length (vt_conns a)" using that by auto
  with assms show ?thesis unfolding advances_def conn_advances_def by (smt (verit) subset_eq)
qed

lemma advances_weaken: "advances True s s' \<Longrightarrow> advances k s s'"
  by (simp add: advances_def)

lemma close_callbacks_due:
  "ws_core c \<Longrightarrow> ws_core c' \<Longrightarrow> ws_finished c' \<Longrightarrow> ws_finished c \<or> EvClosed (generation i) \<in> set (close_callbacks i c c')"
  by (auto simp: close_callbacks_def ws_core_def)

lemma reach_core: "ws_reach c \<Longrightarrow> ws_core c"
  using ws_reach_inv by (simp add: ws_inv_def)

lemma update_conn_advances:
  assumes "i < length (vt_conns s)" "ws_reach (vt_conns s ! i) \<Longrightarrow> ws_reach c' \<and> conn_advances (vt_conns s ! i) c'"
    and "ws_reach (vt_conns s ! i) \<Longrightarrow> k \<Longrightarrow> connecting (vt_conns s ! i) \<Longrightarrow> connecting c' \<or> ws_finished c'"
  shows "advances k s (update_conn i c' s)"
proof (cases "conns_ok s")
  case ok: True
  then have c: "ws_reach (vt_conns s ! i)" "ws_state (vt_conns s ! i) \<noteq> kIdle"
    using assms(1) by (simp_all add: conns_ok_def list_all_length)
  note c' = assms(2) [OF c(1)] assms(3) [OF c(1)]
  have "conns_ok (update_conn i c' s)"
    using ok c c' set_update_subset_insert [of "vt_conns s" i c']
    by (auto simp: conns_ok_def update_conn_def list_all_iff conn_advances_def)
  moreover have "ws_finished c' \<Longrightarrow>
      ws_finished (vt_conns s ! i) \<or> EvClosed (generation i) \<in> set (close_callbacks i (vt_conns s ! i) c')"
    using close_callbacks_due reach_core c(1) c'(1) by blast
  moreover have "last ((vt_conns s)[i := c']) = (if i = length (vt_conns s) - 1 then c' else last (vt_conns s))"
    using assms(1) by (intro last_list_update) auto
  moreover have "i = length (vt_conns s) - 1 \<Longrightarrow> last (vt_conns s) = vt_conns s ! i"
    using assms(1) last_conv_nth [of "vt_conns s"] by (cases "vt_conns s = []") simp_all
  ultimately show ?thesis using c' by (auto simp: advances_def update_conn_def)
qed (simp add: advances_def)

lemma call_last_advances: "advances True s (call_last call s)"
proof (cases "vt_conns s = []")
  case False
  let ?i = "length (vt_conns s) - 1"
  have "advances True s (update_conn ?i (ws_call (vt_conns s ! ?i) call) s)"
    using False
    by (intro update_conn_advances) (simp_all add: ws_reach_call call_advances reach_core call_connecting)
  with False show ?thesis by (simp add: call_last_def last_conv_nth)
qed (simp add: call_last_def)

lemma perform_advances: "plain a \<Longrightarrow> advances True s (perform now s a)"
  by (cases a) (auto simp: perform_def Let_def call_last_advances, auto simp: advances_def conns_ok_def)

lemma performs_advance: "list_all plain acts \<Longrightarrow> advances True s (foldl (perform now) s acts)"
proof (induction acts arbitrary: s)
  case (Cons a acts)
  from advances_trans [OF perform_advances Cons.IH] Cons.prems show ?case by simp
qed simp

lemma new_acts_append [simp]: "rn_acts r' = rn_acts r @ acts \<Longrightarrow> new_acts r r' = acts"
  by (simp add: new_acts_def)

lemma perform_runner [simp]: "vt_runner (perform now s a) = vt_runner s"
  by (cases a) (simp_all add: perform_def Let_def call_last_def update_conn_def)

lemma performs_runner [simp]: "vt_runner (foldl (perform now) s acts) = vt_runner s"
  by (induction acts arbitrary: s) simp_all

lemma handle_runner [simp]: "vt_runner (handle p draw now e s) = runner_handle p draw (vt_runner s) e"
  by (simp add: handle_def Let_def)

lemma handle_advances:
  assumes "quiet_event e"
  shows "advances True (s\<lparr>vt_runner := runner_handle p draw (vt_runner s) e\<rparr>) (handle p draw now e s)"
  using quiet_handle [OF assms, of "vt_runner s" p draw] by (auto simp: quiet_def handle_def intro: performs_advance)

section \<open>The thread goes on\<close>

fun is_callback :: "RunnerEvent \<Rightarrow> bool" where
  "is_callback (EvClosed g) \<longleftrightarrow> True"
| "is_callback (EvSnapshot ok body recv now) \<longleftrightarrow> True"
| "is_callback e \<longleftrightarrow> False"

definition thread_ok :: "('s, 'g) VenueThread \<Rightarrow> bool" where
  "thread_ok s \<longleftrightarrow>
     conns_ok s \<and> list_all is_callback (vt_due s) \<and>
     rn_reconnect_generation (vt_runner s) = of_nat (length (vt_conns s)) \<and>
     rn_connection (vt_runner s) = (if vt_conns s = [] then None else Some (generation (length (vt_conns s) - 1))) \<and>
     (PostStop \<in> set (vt_posted s) \<longrightarrow> rn_stopping (vt_runner s))"

definition in_service :: "('s, 'g) VenueRunner \<Rightarrow> bool" where
  "in_service r \<longleftrightarrow> \<not> rn_stopping r \<and> \<not> vs_fatal (rn_stats r)"

text \<open>
  As long as the runner is in service, a finished connection has a reconnect armed or its close callback
  due, and one that is not finished is being watched or closed.
\<close>

definition driven :: "('s, 'g) VenueThread \<Rightarrow> bool" where
  "driven s \<longleftrightarrow>
     in_service (vt_runner s) \<longrightarrow>
     (vt_started s \<longrightarrow> vt_conns s \<noteq> [] \<or> PostConnect \<in> set (vt_posted s)) \<and>
     (vt_conns s \<noteq> [] \<longrightarrow>
        (ws_finished (last (vt_conns s)) \<longrightarrow> waiting (vt_reconnect s) \<or> last_closed s \<in> set (vt_due s)) \<and>
        (waiting (vt_watchdog s) \<or> ending (last (vt_conns s))))"

lemma driven_advances:
  assumes "driven s" "conns_ok s" "advances k s s'"
  shows "driven s'"
proof (cases "in_service (vt_runner s) \<and> vt_conns s \<noteq> []")
  case True
  have adv: "vt_runner s' = vt_runner s" "vt_started s' = vt_started s" "vt_conns s' \<noteq> []"
    "last_closed s' = last_closed s" "set (vt_due s) \<subseteq> set (vt_due s')"
    "waiting (vt_reconnect s) \<longrightarrow> waiting (vt_reconnect s')" "waiting (vt_watchdog s) \<longrightarrow> waiting (vt_watchdog s')"
    "ending (last (vt_conns s)) \<longrightarrow> ending (last (vt_conns s'))"
    "ws_finished (last (vt_conns s')) \<longrightarrow> ws_finished (last (vt_conns s)) \<or> last_closed s \<in> set (vt_due s')"
    using assms(2,3) True by (auto simp: advances_def conn_advances_def)
  with assms(1) True show ?thesis by (simp add: driven_def) blast
next
  case False
  with assms show ?thesis by (auto simp: driven_def advances_def)
qed

text \<open>Callbacks: performing adds only callbacks to what is due.\<close>

lemma answers_callbacks [simp]: "list_all is_callback (answers recv now calls)"
  by (auto simp: answers_def list_all_iff)

lemma close_callbacks_callbacks [simp]: "list_all is_callback (close_callbacks i c c')"
  by (simp add: close_callbacks_def list_all_iff)

lemma perform_callbacks: "list_all is_callback (vt_due s) \<Longrightarrow> list_all is_callback (vt_due (perform now s a))"
  by (cases a) (simp_all add: perform_def Let_def call_last_def update_conn_def)

lemma performs_callbacks: "list_all is_callback (vt_due s) \<Longrightarrow> list_all is_callback (vt_due (foldl (perform now) s acts))"
  by (induction acts arbitrary: s) (simp_all add: perform_callbacks)

lemma handle_callbacks: "list_all is_callback (vt_due s) \<Longrightarrow> list_all is_callback (vt_due (handle p draw now e s))"
  by (simp add: handle_def Let_def performs_callbacks)

lemma callback_quiet: "is_callback e \<Longrightarrow> quiet_event e"
  by (cases e) simp_all

text \<open>A quiet handler keeps the thread well-formed, and drives it on when the thread was driven without it.\<close>

lemma thread_ok_advances:
  assumes "advances k s s'" "thread_ok s" "list_all is_callback (vt_due s')"
  shows "thread_ok s'"
proof -
  have "conns_ok s" using assms(2) by (simp add: thread_ok_def)
  then have same: "vt_runner s' = vt_runner s" "vt_posted s' = vt_posted s" "conns_ok s'" "length (vt_conns s') = length (vt_conns s)"
    using assms(1) by (simp_all add: advances_def)
  then have "vt_conns s' = [] \<longleftrightarrow> vt_conns s = []" by auto
  with same assms(2,3) show ?thesis by (simp add: thread_ok_def)
qed

lemma thread_ok_runner:
  assumes "thread_ok s" "quiet (vt_runner s) r"
  shows "thread_ok (s\<lparr>vt_runner := r\<rparr>)"
  using assms by (simp add: thread_ok_def quiet_def conns_ok_def)

lemma driven_runner:
  assumes "driven s" "in_service r \<Longrightarrow> in_service (vt_runner s)"
  shows "driven (s\<lparr>vt_runner := r\<rparr>)"
  using assms by (simp add: driven_def)

lemma handle_service:
  assumes "quiet_event e" "in_service (runner_handle p draw r e)"
  shows "in_service r"
proof -
  have "stays_down r (on_watchdog ec now r)" for ec now
    using down_trans [OF down_prims(1) [of r] down_prims(2)] by (simp add: on_watchdog_def)
  then have "stays_down r (runner_handle p draw r e)"
    using assms(1) by (cases e) (simp_all add: down_OnOpen down_OnFrame down_snapshot on_close_callback_def down_OnClose)
  with quiet_handle [OF assms(1), of r p draw] assms(2) show ?thesis
    by (auto simp: in_service_def quiet_def stays_down_def)
qed

lemma handle_ok:
  assumes "quiet_event e" "thread_ok s"
  shows "thread_ok (handle p draw now e s)"
proof -
  let ?s1 = "s\<lparr>vt_runner := runner_handle p draw (vt_runner s) e\<rparr>"
  have "thread_ok ?s1" using thread_ok_runner [OF assms(2) quiet_handle [OF assms(1)]] .
  moreover have "list_all is_callback (vt_due (handle p draw now e s))"
    using assms(2) by (simp add: handle_callbacks thread_ok_def)
  ultimately show ?thesis using thread_ok_advances [OF handle_advances [OF assms(1)]] by blast
qed

lemma handle_driven:
  assumes "quiet_event e" "conns_ok s" "driven s"
  shows "driven (handle p draw now e s)"
proof -
  let ?s1 = "s\<lparr>vt_runner := runner_handle p draw (vt_runner s) e\<rparr>"
  have "driven ?s1" using driven_runner [OF assms(3)] handle_service [OF assms(1)] by blast
  moreover have "conns_ok ?s1" using assms(2) by (simp add: conns_ok_def)
  ultimately show ?thesis using driven_advances [OF _ _ handle_advances [OF assms(1)]] by blast
qed

text \<open>The close callback of the last connection arms the reconnect timer.\<close>

lemma OnClose_acts:
  assumes "in_service r"
  shows "\<exists>delay. rn_acts (runner_OnClose draw r) = rn_acts r @ [ActReconnectAfter delay]"
  using assms by (auto simp: in_service_def runner_OnClose_def ScheduleReconnect_def SetState_def act_def Let_def split: prod.splits)

lemma closed_driven:
  assumes "thread_ok s" "vt_conns s \<noteq> []" "driven s"
  shows "driven (handle p draw now (last_closed s) (s\<lparr>vt_due := es\<rparr>))"
proof (cases "in_service (vt_runner s)")
  case True
  have "generation (length (vt_conns s) - 1) = rn_reconnect_generation (vt_runner s)"
    using assms(1,2) by (simp add: thread_ok_def generation_def del: of_nat_Suc)
  then have handled: "runner_handle p draw (vt_runner s) (last_closed s) = runner_OnClose draw (vt_runner s)"
    by (simp add: on_close_callback_def)
  obtain delay where "rn_acts (runner_OnClose draw (vt_runner s)) = rn_acts (vt_runner s) @ [ActReconnectAfter delay]"
    using OnClose_acts [OF True] by blast
  with handled have "handle p draw now (last_closed s) (s\<lparr>vt_due := es\<rparr>) =
      s\<lparr>vt_due := es, vt_runner := runner_OnClose draw (vt_runner s), vt_reconnect := rearm (vt_reconnect s)\<rparr>"
    by (simp add: handle_def perform_def)
  with assms True show ?thesis by (simp add: driven_def)
next
  case False
  let ?s1 = "s\<lparr>vt_due := es, vt_runner := runner_handle p draw (vt_runner s) (last_closed s)\<rparr>"
  have "advances True ?s1 (handle p draw now (last_closed s) (s\<lparr>vt_due := es\<rparr>))"
    using handle_advances [of "last_closed s" p draw "s\<lparr>vt_due := es\<rparr>"] by simp
  moreover have "conns_ok ?s1" using assms(1) by (simp add: thread_ok_def conns_ok_def)
  moreover have "\<not> in_service (vt_runner ?s1)" using False handle_service [of "last_closed s" p draw] by auto
  ultimately show ?thesis by (simp add: driven_def advances_def)
qed

lemma due_ok:
  assumes "thread_ok s" "driven s" "vt_due s = e # es"
  shows "thread_ok (handle p draw now e (s\<lparr>vt_due := es\<rparr>)) \<and> driven (handle p draw now e (s\<lparr>vt_due := es\<rparr>))"
proof
  have e: "is_callback e" and ok: "thread_ok (s\<lparr>vt_due := es\<rparr>)" using assms(1,3) by (simp_all add: thread_ok_def conns_ok_def)
  show "thread_ok (handle p draw now e (s\<lparr>vt_due := es\<rparr>))" using handle_ok [OF callback_quiet [OF e] ok] .
  show "driven (handle p draw now e (s\<lparr>vt_due := es\<rparr>))"
  proof (cases "vt_conns s \<noteq> [] \<and> e = last_closed s")
    case True
    with closed_driven [OF assms(1) _ assms(2)] show ?thesis by simp
  next
    case False
    with assms(2,3) have "driven (s\<lparr>vt_due := es\<rparr>)" by (auto simp: driven_def)
    moreover have "conns_ok (s\<lparr>vt_due := es\<rparr>)" using ok by (simp add: thread_ok_def)
    ultimately show ?thesis using handle_driven [OF callback_quiet [OF e]] by blast
  qed
qed

text \<open>A reconnect makes a connection that is watched.\<close>

lemma Connect_acts:
  assumes "in_service r"
  shows "rn_acts (Connect p now r) = rn_acts r @ [ActReset, ActOpen (rn_reconnect_generation r + 1) (vp_stream_url p),
      ActWatchdogAfter (ro_silence_timeout (rn_options r) sdiv 2)]"
    and "rn_reconnect_generation (Connect p now r) = rn_reconnect_generation r + 1"
    and "rn_connection (Connect p now r) = Some (rn_reconnect_generation r + 1)"
    and "rn_stopping (Connect p now r) = rn_stopping r"
    and "rn_protocol (Connect p now r) = vp_Reset p (rn_protocol r)"
  using assms by (simp_all add: in_service_def Connect_def reset_protocol_def ArmWatchdog_def act_def SetState_def Let_def)

lemma Open_first:
  "ws_state (ws_Open url now new_ws) \<noteq> kIdle" "connecting (ws_Open url now new_ws) \<or> ws_finished (ws_Open url now new_ws)"
  by (auto simp: ws_Open_def ws_Finish_def ws_prims connecting_def new_ws_def split: option.splits)

lemma connect_ok:
  assumes "thread_ok s"
    and s'_def: "s' = foldl (perform now) (s\<lparr>vt_runner := Connect p now (vt_runner s)\<rparr>)
      (new_acts (vt_runner s) (Connect p now (vt_runner s)))"
  shows "thread_ok s' \<and> driven s'"
proof (cases "in_service (vt_runner s)")
  case True
  let ?c = "ws_Open (vp_stream_url p) now new_ws" and ?n = "length (vt_conns s)"
  have s': "s' = s\<lparr>vt_runner := Connect p now (vt_runner s), vt_conns := vt_conns s @ [?c],
      vt_due := vt_due s @ close_callbacks ?n new_ws ?c, vt_watchdog := rearm (vt_watchdog s)\<rparr>"
    using Connect_acts(1) [OF True] by (simp add: s'_def perform_def Let_def)
  have c: "ws_reach ?c" "ws_state ?c \<noteq> kIdle" by (rule ws_reach_open, rule Open_first)
  have "EvClosed (generation ?n) \<in> set (close_callbacks ?n new_ws ?c)" if "ws_finished ?c"
    using close_callbacks_due [OF reach_core [OF ws_reach.init] reach_core [OF c(1)] that] by (simp add: new_ws_def)
  then have "driven s'" by (auto simp: driven_def s')
  moreover have "thread_ok s'" using assms(1) c Connect_acts [OF True, of p now]
    by (simp add: thread_ok_def s' conns_ok_def generation_def)
  ultimately show ?thesis by simp
next
  case False
  then have "Connect p now (vt_runner s) = vt_runner s" by (simp add: in_service_def Connect_def)
  then have "s' = s" by (simp add: s'_def)
  with assms(1) False show ?thesis by (simp add: driven_def)
qed

text \<open>The posted stop.\<close>

lemma perform_stop_acts:
  "rn_acts (perform_stop r) =
     rn_acts r @ ActCancelTimers # (case rn_connection r of None \<Rightarrow> [] | Some g \<Rightarrow> [ActClose g])"
  by (simp add: perform_stop_def close_connection_def act_def split: option.splits)

lemma stop_advances:
  "\<exists>acts. list_all plain acts \<and>
     handle p draw now EvStopPosted s = foldl (perform now) (s\<lparr>vt_runner := perform_stop (vt_runner s),
       vt_reconnect := map (\<lambda>_. True) (vt_reconnect s), vt_watchdog := map (\<lambda>_. True) (vt_watchdog s)\<rparr>) acts"
proof -
  obtain acts where "rn_acts (perform_stop (vt_runner s)) = rn_acts (vt_runner s) @ ActCancelTimers # acts" "list_all plain acts"
    by (cases "rn_connection (vt_runner s)") (simp_all add: perform_stop_acts)
  then show ?thesis by (auto simp: handle_def perform_def)
qed

lemma perform_stop_fields [simp]:
  "rn_stopping (perform_stop r) = rn_stopping r" "rn_connection (perform_stop r) = rn_connection r"
  "rn_reconnect_generation (perform_stop r) = rn_reconnect_generation r"
  by (simp_all add: perform_stop_def close_connection_def act_def split: option.splits)

lemma thread_stop_ok:
  assumes "thread_ok s" "rn_stopping (vt_runner s)"
  shows "thread_ok (handle p draw now EvStopPosted s) \<and> driven (handle p draw now EvStopPosted s)"
proof
  let ?s1 = "s\<lparr>vt_runner := perform_stop (vt_runner s),
       vt_reconnect := map (\<lambda>_. True) (vt_reconnect s), vt_watchdog := map (\<lambda>_. True) (vt_watchdog s)\<rparr>"
  obtain acts where acts: "list_all plain acts" "handle p draw now EvStopPosted s = foldl (perform now) ?s1 acts"
    using stop_advances [of p draw now s] by blast
  have ok1: "thread_ok ?s1" using assms by (simp add: thread_ok_def conns_ok_def)
  have "list_all is_callback (vt_due (foldl (perform now) ?s1 acts))"
    by (rule performs_callbacks) (use assms(1) in \<open>simp add: thread_ok_def\<close>)
  with thread_ok_advances [OF performs_advance [OF acts(1)] ok1] acts(2)
  show "thread_ok (handle p draw now EvStopPosted s)" by simp
  show "driven (handle p draw now EvStopPosted s)" using assms(2) by (simp add: driven_def in_service_def)
qed

text \<open>A completed operation of a connection, whatever its callback makes the runner do.\<close>

lemma op_event_quiet: "op_event op cp recv now = Some e \<Longrightarrow> quiet_event e"
  by (cases op) (auto split: if_splits)

definition op_runner ::
  "'s VenueProtocol \<Rightarrow> ('g \<Rightarrow> int \<Rightarrow> int \<Rightarrow> int \<times> 'g) \<Rightarrow> ('s, 'g) VenueRunner \<Rightarrow> RunnerEvent option \<Rightarrow>
     ('s, 'g) VenueRunner" where
  "op_runner p draw r e = (case e of None \<Rightarrow> r | Some e \<Rightarrow> runner_handle p draw r e)"

lemma op_runner_quiet: "quiet r (op_runner p draw r (op_event op cp recv now))"
  by (auto simp: op_runner_def split: option.splits intro: quiet_handle op_event_quiet)

lemma op_runner_service: "in_service (op_runner p draw r (op_event op cp recv now)) \<Longrightarrow> in_service r"
  by (auto simp: op_runner_def split: option.splits dest: handle_service [OF op_event_quiet])

text \<open>It ends the handshake only when the handshake succeeds.\<close>

lemma complete_op_parts:
  assumes "i < length (vt_conns s)" "k < length (ws_ops (vt_conns s ! i))"
  defines "op \<equiv> ws_ops (vt_conns s ! i) ! k"
    and "xs \<equiv> take k (ws_ops (vt_conns s ! i))" and "ys \<equiv> drop (Suc k) (ws_ops (vt_conns s ! i))"
  obtains s1 cp' others where
      "s1 = s\<lparr>vt_runner := op_runner p draw (vt_runner s) (op_event op cp recv now)\<rparr>"
      "complete_op p draw i k cp recv now s =
         foldl (perform now) (update_conn i (complete cp' op ((vt_conns s ! i)\<lparr>ws_ops := xs @ ys\<rparr>)) s1) others"
    and "cp_ec cp' = cp_ec cp" "list_all plain others" "ws_ops (vt_conns s ! i) = xs @ op # ys"
    and "Suc i = length (vt_conns s) \<Longrightarrow> cp_reaction cp' = calls_of (new_acts (vt_runner s) (vt_runner s1))"
    and "\<forall>a\<in>set (new_acts (vt_runner s) (vt_runner s1)). Suc i \<noteq> length (vt_conns s) \<or> call_of a = None \<longrightarrow> a \<in> set others"
    and "advances (\<not> (op = OpHandshake \<and> cp_ec cp = no_error)) s1
       (update_conn i (complete cp' op ((vt_conns s ! i)\<lparr>ws_ops := xs @ ys\<rparr>)) s1)"
proof -
  let ?c = "vt_conns s ! i" and ?r = "op_runner p draw (vt_runner s) (op_event op cp recv now)"
  let ?s1 = "s\<lparr>vt_runner := ?r\<rparr>" and ?K = "\<not> (op = OpHandshake \<and> cp_ec cp = no_error)"
  let ?own = "Suc i = length (vt_conns s)" and ?acts = "new_acts (vt_runner s) ?r"
  let ?cp = "cp\<lparr>cp_reaction := if ?own then calls_of ?acts else []\<rparr>"
  let ?others = "if ?own then filter (\<lambda>a. call_of a = None) ?acts else ?acts"
  let ?c' = "complete ?cp op (?c\<lparr>ws_ops := xs @ ys\<rparr>)"
  have ops: "ws_ops ?c = xs @ op # ys" unfolding op_def xs_def ys_def by (rule taken_nth [OF assms(2)])
  have "advances ?K ?s1 (update_conn i ?c' ?s1)"
  proof (rule update_conn_advances)
    show "i < length (vt_conns ?s1)" using assms(1) by simp
    show "ws_reach ?c' \<and> conn_advances (vt_conns ?s1 ! i) ?c'" if "ws_reach (vt_conns ?s1 ! i)"
      using that ws_reach.step [OF _ ws_step.completed [OF ops]] complete_advances [OF ws_reach_inv ops] by simp
    show "connecting ?c' \<or> ws_finished ?c'" if "ws_reach (vt_conns ?s1 ! i)" ?K "connecting (vt_conns ?s1 ! i)"
      using that complete_connecting [OF ws_reach_inv ops, of ?cp] by simp
  qed
  moreover have "complete_op p draw i k cp recv now s = foldl (perform now) (update_conn i ?c' ?s1) ?others"
    unfolding complete_op_def Let_def op_runner_def op_def xs_def ys_def by (rule refl)
  moreover have "list_all plain ?others"
    using op_runner_quiet [of "vt_runner s" p draw op cp recv now] by (auto simp: quiet_def list_all_iff)
  ultimately show ?thesis using that [of ?s1 ?cp ?others] ops by simp
qed

lemma complete_op_advances:
  assumes "i < length (vt_conns s)" "k < length (ws_ops (vt_conns s ! i))"
  defines "op \<equiv> ws_ops (vt_conns s ! i) ! k"
  shows "advances (\<not> (op = OpHandshake \<and> cp_ec cp = no_error))
    (s\<lparr>vt_runner := op_runner p draw (vt_runner s) (op_event op cp recv now)\<rparr>) (complete_op p draw i k cp recv now s)"
proof -
  obtain s1 cp' others where parts: "s1 = s\<lparr>vt_runner := op_runner p draw (vt_runner s) (op_event op cp recv now)\<rparr>"
      "complete_op p draw i k cp recv now s = foldl (perform now) (update_conn i (complete cp' op
         ((vt_conns s ! i)\<lparr>ws_ops := take k (ws_ops (vt_conns s ! i)) @ drop (Suc k) (ws_ops (vt_conns s ! i))\<rparr>)) s1) others"
      "list_all plain others" "advances (\<not> (op = OpHandshake \<and> cp_ec cp = no_error)) s1 (update_conn i (complete cp' op
         ((vt_conns s ! i)\<lparr>ws_ops := take k (ws_ops (vt_conns s ! i)) @ drop (Suc k) (ws_ops (vt_conns s ! i))\<rparr>)) s1)"
    using complete_op_parts [OF assms(1,2), of p draw cp recv now] unfolding op_def by metis
  from advances_trans [OF parts(4) advances_weaken [OF performs_advance [OF parts(3)]]] show ?thesis
    unfolding parts(2) parts(1) by blast
qed

lemma complete_op_callbacks:
  "list_all is_callback (vt_due s) \<Longrightarrow> list_all is_callback (vt_due (complete_op p draw i k cp recv now s))"
  by (simp add: complete_op_def Let_def performs_callbacks update_conn_def)

lemma complete_op_ok:
  assumes "thread_ok s" "driven s" "i < length (vt_conns s)" "k < length (ws_ops (vt_conns s ! i))"
  shows "thread_ok (complete_op p draw i k cp recv now s) \<and> driven (complete_op p draw i k cp recv now s)"
proof -
  let ?r = "op_runner p draw (vt_runner s) (op_event (ws_ops (vt_conns s ! i) ! k) cp recv now)"
  let ?s1 = "s\<lparr>vt_runner := ?r\<rparr>" and ?s2 = "complete_op p draw i k cp recv now s"
  note adv = complete_op_advances [OF assms(3,4), of cp p draw recv now]
  have ok1: "thread_ok ?s1" by (rule thread_ok_runner [OF assms(1) op_runner_quiet])
  have "driven ?s1" by (rule driven_runner [OF assms(2)]) (rule op_runner_service)
  moreover have "conns_ok ?s1" using ok1 by (simp add: thread_ok_def)
  moreover have "list_all is_callback (vt_due ?s2)"
    by (rule complete_op_callbacks) (use assms(1) in \<open>simp add: thread_ok_def\<close>)
  ultimately show ?thesis using thread_ok_advances [OF adv ok1] driven_advances [OF _ _ adv] by blast
qed

lemma complete_request_ok:
  assumes "thread_ok s" "driven s" "complete_request i report recv now s = Some s'"
  shows "thread_ok s' \<and> driven s'"
proof
  obtain qs es where s': "s' = s\<lparr>vt_requests := qs, vt_due := vt_due s @ es\<rparr>" "list_all is_callback es"
    using assms(3) by (auto simp: complete_request_def Let_def split: option.splits)
  with assms(1) show "thread_ok s'" by (simp add: thread_ok_def conns_ok_def)
  from s'(1) assms(2) show "driven s'" by (auto simp: driven_def)
qed

text \<open>The timers: what a wait that ends takes away, its handler gives back.\<close>

lemma watchdog_silent:
  assumes "thread_ok s" "driven s" "in_service (vt_runner s)" "vt_conns s \<noteq> []"
    and "ro_silence_timeout (rn_options (vt_runner s)) * 1000000000 \<le> now - rn_last_activity (vt_runner s)"
  shows "driven (handle p draw now (EvWatchdog no_error now) (s\<lparr>vt_watchdog := waits\<rparr>))"
proof -
  let ?r = "close_connection (SetState kStale (vt_runner s))" and ?c = "last (vt_conns s)"
  let ?s1 = "s\<lparr>vt_watchdog := waits, vt_runner := ?r\<rparr>"
  let ?s2 = "call_last CallClose ?s1"
  have "rn_acts ?r = rn_acts (vt_runner s) @ [ActClose (generation (length (vt_conns s) - 1))]"
    using assms(1,4) by (simp add: thread_ok_def close_connection_def SetState_def act_def)
  then have handled: "handle p draw now (EvWatchdog no_error now) (s\<lparr>vt_watchdog := waits\<rparr>) = ?s2"
    using assms(3,5) by (simp add: handle_def on_watchdog_def in_service_def perform_def)
  have conns: "conns_ok ?s1" using assms(1) by (simp add: thread_ok_def conns_ok_def)
  then have "ws_core ?c" using assms(4) by (simp add: conns_ok_def list_all_iff reach_core)
  then have "ending (last (vt_conns ?s2))" "vt_conns ?s2 \<noteq> []"
    using Close_ends assms(4) by (simp_all add: call_last_def update_conn_def last_list_update)
  moreover have "ws_finished (last (vt_conns ?s2)) \<longrightarrow> waiting (vt_reconnect ?s2) \<or> last_closed ?s2 \<in> set (vt_due ?s2)"
    using call_last_advances [of ?s1 CallClose] conns assms(2-4) by (auto simp: advances_def driven_def)
  ultimately show ?thesis by (simp add: handled driven_def)
qed

lemma watchdog_heard:
  assumes "driven s" "in_service (vt_runner s)"
    and "\<not> ro_silence_timeout (rn_options (vt_runner s)) * 1000000000 \<le> now - rn_last_activity (vt_runner s)"
  shows "driven (handle p draw now (EvWatchdog no_error now) (s\<lparr>vt_watchdog := waits\<rparr>))"
proof -
  let ?r = "act (ActWatchdogAfter (ro_silence_timeout (rn_options (vt_runner s)) sdiv 2)) (vt_runner s)"
  have "handle p draw now (EvWatchdog no_error now) (s\<lparr>vt_watchdog := waits\<rparr>) =
      s\<lparr>vt_watchdog := rearm waits, vt_runner := ?r\<rparr>"
    using assms(2,3) by (simp add: handle_def on_watchdog_def ArmWatchdog_def in_service_def act_def new_acts_def perform_def)
  with assms(1) show ?thesis by (simp add: driven_def act_def in_service_def)
qed

lemma watchdog_ok:
  assumes "thread_ok s" "driven s" "wait_ends (vt_watchdog s) k ec"
  defines "s0 \<equiv> s\<lparr>vt_watchdog := remove_nth k (vt_watchdog s)\<rparr>"
  shows "thread_ok (handle p draw now (EvWatchdog ec now) s0) \<and> driven (handle p draw now (EvWatchdog ec now) s0)"
proof
  let ?s' = "handle p draw now (EvWatchdog ec now) s0"
  have ok0: "thread_ok s0" using assms(1) by (simp add: thread_ok_def conns_ok_def s0_def)
  then show "thread_ok ?s'" by (intro handle_ok) simp_all
  have conns: "conns_ok s0" using ok0 by (simp add: thread_ok_def)
  show "driven ?s'"
  proof (cases "in_service (vt_runner s) \<and> vt_conns s \<noteq> [] \<and> waiting (vt_watchdog s) \<and> \<not> waiting (vt_watchdog s0)")
    case True
    then have "ec = no_error"
      using assms(3) waiting_removed [of k "vt_watchdog s"] by (auto simp: wait_ends_def s0_def)
    with True watchdog_silent [OF assms(1,2)] watchdog_heard [OF assms(2)] show ?thesis unfolding s0_def by blast
  next
    case False
    with assms(2) have "driven s0" by (auto simp: driven_def s0_def)
    then show ?thesis by (intro handle_driven [OF _ conns]) simp_all
  qed
qed

lemma reconnect_ok:
  assumes "thread_ok s" "driven s" "wait_ends (vt_reconnect s) k ec"
  defines "s0 \<equiv> s\<lparr>vt_reconnect := remove_nth k (vt_reconnect s)\<rparr>"
  shows "thread_ok (handle p draw now (EvReconnect ec now) s0) \<and> driven (handle p draw now (EvReconnect ec now) s0)"
proof -
  have ok0: "thread_ok s0" using assms(1) by (simp add: thread_ok_def conns_ok_def s0_def)
  show ?thesis
  proof (cases "ec \<noteq> no_error \<or> rn_stopping (vt_runner s)")
    case True
    then have handled: "handle p draw now (EvReconnect ec now) s0 = s0"
      by (auto simp: handle_def on_reconnect_timer_def s0_def new_acts_def)
    have "waiting (vt_reconnect s0) = waiting (vt_reconnect s) \<or> rn_stopping (vt_runner s)"
      using True assms(3) waiting_removed [of k "vt_reconnect s"] by (auto simp: wait_ends_def s0_def)
    with assms(2) have "driven s0" by (auto simp: driven_def in_service_def s0_def)
    with ok0 handled show ?thesis by simp
  next
    case False
    then have "handle p draw now (EvReconnect ec now) s0 = foldl (perform now) (s0\<lparr>vt_runner := Connect p now (vt_runner s0)\<rparr>)
        (new_acts (vt_runner s0) (Connect p now (vt_runner s0)))"
      by (simp add: handle_def on_reconnect_timer_def s0_def Let_def)
    from connect_ok [OF ok0 this] show ?thesis .
  qed
qed

text \<open>Every step.\<close>

lemma posted_removed: "thread_ok s \<Longrightarrow> thread_ok (s\<lparr>vt_posted := remove_nth k (vt_posted s)\<rparr>)"
  by (auto simp: thread_ok_def conns_ok_def remove_nth_def dest: in_set_takeD in_set_dropD)

lemma posted_ok:
  assumes "thread_ok s" "k < length (vt_posted s)"
  defines "s0 \<equiv> s\<lparr>vt_posted := remove_nth k (vt_posted s)\<rparr>"
  shows "thread_ok (handle p draw now (posted_event (vt_posted s ! k) now) s0) \<and>
    driven (handle p draw now (posted_event (vt_posted s ! k) now) s0)"
proof -
  have ok0: "thread_ok s0" unfolding s0_def by (rule posted_removed [OF assms(1)])
  show ?thesis
  proof (cases "vt_posted s ! k")
    case PostConnect
    from connect_ok [OF ok0 refl, of now p] PostConnect show ?thesis by (simp add: handle_def Let_def)
  next
    case PostStop
    with assms(2) have "PostStop \<in> set (vt_posted s)" using nth_mem by metis
    with assms(1) have "rn_stopping (vt_runner s0)" by (simp add: thread_ok_def s0_def)
    from thread_stop_ok [OF ok0 this] PostStop show ?thesis by simp
  qed
qed

lemma thread_step_ok:
  assumes "thread_ok s" "driven s" "thread_step p draw s st = Some s'"
  shows "thread_ok s' \<and> driven s'"
proof (cases st)
  case StStart
  with assms show ?thesis by (auto simp: thread_ok_def driven_def conns_ok_def split: if_splits)
next
  case StStop
  with assms show ?thesis
    by (auto simp: thread_ok_def driven_def conns_ok_def request_stop_def in_service_def split: if_splits)
next
  case StDue
  with assms due_ok [OF assms(1,2)] show ?thesis by (auto split: list.splits)
next
  case (StPosted k now)
  with assms(3) posted_ok [OF assms(1)] show ?thesis by (auto split: if_splits)
next
  case (StWs i k cp recv now)
  with assms(3) complete_op_ok [OF assms(1,2)] show ?thesis by (auto split: if_splits)
next
  case (StHttp i report recv now)
  with assms(3) complete_request_ok [OF assms(1,2)] show ?thesis by (auto split: if_splits)
next
  case (StReconnect k ec now)
  with assms(3) reconnect_ok [OF assms(1,2)] show ?thesis by (auto split: if_splits)
next
  case (StWatchdog k ec now)
  with assms(3) watchdog_ok [OF assms(1,2)] show ?thesis by (auto split: if_splits)
qed

lemma thread_run_ok:
  "thread_run p draw s sts = Some s' \<Longrightarrow> thread_ok s \<Longrightarrow> driven s \<Longrightarrow> thread_ok s' \<and> driven s'"
proof (induction sts arbitrary: s)
  case (Cons st sts)
  then obtain s1 where step: "thread_step p draw s st = Some s1" "thread_run p draw s1 sts = Some s'"
    by (auto split: option.splits)
  from Cons.IH [OF step(2)] thread_step_ok [OF Cons.prems(2,3) step(1)] show ?case by blast
qed simp

lemma new_thread_ok:
  "thread_ok (new_thread (new_runner venue_index protocol ring options seed now))"
  "driven (new_thread (new_runner venue_index protocol ring options seed now))"
  by (simp_all add: thread_ok_def driven_def conns_ok_def new_thread_def new_runner_def)

section \<open>What holds of every request\<close>

text \<open>
  A property of a fresh request that every completion keeps holds of all requests of a thread.
\<close>

locale request_invariant =
  fixes P :: "HttpSession \<Rightarrow> bool"
  assumes started: "P (HttpGet url)"
    and completed: "P q \<Longrightarrow> hs_op q = Some op \<Longrightarrow> P (http_completed op report (q\<lparr>hs_op := None\<rparr>))"
begin

lemma perform_requests: "list_all P (vt_requests s) \<Longrightarrow> list_all P (vt_requests (perform now s a))"
  by (cases a) (simp_all add: perform_def Let_def call_last_def update_conn_def started)

lemma performs_requests: "list_all P (vt_requests s) \<Longrightarrow> list_all P (vt_requests (foldl (perform now) s acts))"
  by (induction acts arbitrary: s) (simp_all add: perform_requests)

lemma complete_request_requests:
  assumes "list_all P (vt_requests s)" "i < length (vt_requests s)" "complete_request i report recv now s = Some s'"
  shows "list_all P (vt_requests s')"
proof -
  let ?q = "vt_requests s ! i"
  obtain op where op: "hs_op ?q = Some op" "vt_requests s' = (vt_requests s)[i := http_completed op report (?q\<lparr>hs_op := None\<rparr>)]"
    using assms(3) by (auto simp: complete_request_def Let_def split: option.splits)
  have "P ?q" using assms(1,2) by (simp add: list_all_length)
  moreover have "set (vt_requests s') \<subseteq> insert (http_completed op report (?q\<lparr>hs_op := None\<rparr>)) (set (vt_requests s))"
    unfolding op(2) by (rule set_update_subset_insert)
  ultimately show ?thesis using completed [OF _ op(1)] assms(1) unfolding list_all_iff by blast
qed

lemma step_requests:
  assumes "list_all P (vt_requests s)" "thread_step p draw s st = Some s'"
  shows "list_all P (vt_requests s')"
proof -
  have handled: "list_all P (vt_requests (handle p draw now e s0))" if "vt_requests s0 = vt_requests s" for now e s0
    using assms(1) that unfolding handle_def Let_def by (intro performs_requests) simp
  have completed: "list_all P (vt_requests (complete_op p draw i k cp recv now s))" for i k cp recv now
    using assms(1) unfolding complete_op_def Let_def by (intro performs_requests) (simp add: update_conn_def)
  from assms show ?thesis
    by (cases st) (auto split: if_splits list.splits intro: handled completed complete_request_requests)
qed

lemma run_requests: "thread_run p draw s sts = Some s' \<Longrightarrow> list_all P (vt_requests s) \<Longrightarrow> list_all P (vt_requests s')"
proof (induction sts arbitrary: s)
  case (Cons st sts)
  then obtain s1 where step: "thread_step p draw s st = Some s1" "thread_run p draw s1 sts = Some s'"
    by (auto split: option.splits)
  from Cons.IH [OF step(2) step_requests [OF Cons.prems(2) step(1)]] show ?case .
qed simp

end

section \<open>Nothing is forgotten\<close>

text \<open>C10: a venue never gets stuck: whatever the network, the peers, the libraries and the clock do, whenever no
  handler is running in a started thread that is neither stopping nor permanently failed, either the
  connect is posted, or a reconnect is armed, or the current connection still owes its close callback, has
  an operation outstanding that will lead to it, and is watched for silence or already being closed.\<close>

theorem venue_thread_never_stuck:
  assumes "thread_run p draw (new_thread (new_runner venue_index protocol ring options seed start)) sts = Some s"
    and "vt_started s" "vt_due s = []" "\<not> rn_stopping (vt_runner s)" "\<not> vs_fatal (rn_stats (vt_runner s))"
  shows "PostConnect \<in> set (vt_posted s) \<or> waiting (vt_reconnect s) \<or>
     (vt_conns s \<noteq> [] \<and> closes (ws_trace (last (vt_conns s))) = 0 \<and>
      (\<exists>op\<in>set (ws_ops (last (vt_conns s))). is_pre op \<or> is_read op \<or> is_close op) \<and>
      (waiting (vt_watchdog s) \<or> closing (last (vt_conns s))))"
proof -
  have ok: "thread_ok s" "driven s" using thread_run_ok [OF assms(1) new_thread_ok] by simp_all
  have service: "in_service (vt_runner s)" using assms(4,5) by (simp add: in_service_def)
  show ?thesis
  proof (cases "PostConnect \<in> set (vt_posted s) \<or> waiting (vt_reconnect s)")
    case False
    let ?c = "last (vt_conns s)"
    have conn: "vt_conns s \<noteq> []" "\<not> ws_finished ?c" "waiting (vt_watchdog s) \<or> closing ?c"
      using ok(2) service assms(2,3) False by (auto simp: driven_def ending_def)
    then have reach: "ws_reach ?c" "ws_state ?c \<noteq> kIdle" using ok(1) by (auto simp: thread_ok_def conns_ok_def list_all_iff)
    from ws_outstanding [OF reach conn(2)] conn show ?thesis by simp
  qed blast
qed

section \<open>Runs\<close>

text \<open>Binance's thread: opened, fed with a frame, and brought in sync by the answer to its request.\<close>

definition heard :: Completion where
  "heard = \<lparr>cp_ec = no_error, cp_sni = no_error, cp_frame = ''e1'', cp_now = 1, cp_reaction = []\<rparr>"

definition snapshot_report :: HttpReport where
  "snapshot_report = \<lparr>hr_ec = no_error, hr_sni = True, hr_status = 200, hr_body = ''snap''\<rparr>"

definition open_steps :: "ThreadStep list" where
  "open_steps = [StStart, StPosted 0 1] @ replicate 4 (StWs 0 0 heard 10 10)"

definition sync_steps :: "ThreadStep list" where
  "sync_steps = open_steps @ [StWs 0 0 heard 10 10] @ replicate 5 (StHttp 0 snapshot_report 20 20) @ [StDue]"

definition run_thread :: "ThreadStep list \<Rightarrow> (Binance, unit) VenueThread option" where
  "run_thread sts = thread_run (binance_protocol example_js default_binance_config) low_draw
     (new_thread (new_runner 0 new_binance example_ring default_runner_options () 0)) sts"

text \<open>Then silence: the watchdog fires, and the connection is being closed with no timer left.\<close>

theorem venue_thread_never_stuck_witness:
  "\<exists>s. run_thread (sync_steps @ [StWatchdog 0 no_error 30000000010]) = Some s \<and> vt_reconnect s = [] \<and> vt_watchdog s = [] \<and>
     closes (ws_trace (last (vt_conns s))) = 0 \<and> closing (last (vt_conns s))"
proof -
  let ?run = "run_thread (sync_steps @ [StWatchdog 0 no_error 30000000010])"
  have "case ?run of None \<Rightarrow> False | Some s \<Rightarrow> vt_started s \<and> vt_due s = [] \<and> \<not> rn_stopping (vt_runner s) \<and>
      \<not> vs_fatal (rn_stats (vt_runner s)) \<and> vt_reconnect s = [] \<and> vt_watchdog s = [] \<and> vt_posted s = []" by code_simp
  then obtain s where s: "?run = Some s" "vt_started s" "vt_due s = []" "\<not> rn_stopping (vt_runner s)"
      "\<not> vs_fatal (rn_stats (vt_runner s))" "vt_reconnect s = []" "vt_watchdog s = []" "vt_posted s = []"
    by (auto split: option.splits)
  from venue_thread_never_stuck [OF s(1) [unfolded run_thread_def] s(2-5)] s show ?thesis by (simp add: waiting_def)
qed

text \<open>
  A connection that the watchdog closes during its handshake is replaced, and opens all the same: its open
  callback makes the runner ask for a snapshot while the current connection is still being made, and it
  reads on beside it.
\<close>

theorem replaced_connection_opens:
  "map_option (\<lambda>s. (map ws_state (vt_conns s), map ws_ops (vt_conns s), map hs_op (vt_requests s)))
     (run_thread ([StStart, StPosted 0 1] @ replicate 3 (StWs 0 0 heard 10 10) @
        [StWatchdog 0 no_error 30000000010, StDue, StReconnect 0 no_error 30000000020,
         StWs 0 0 heard 30000000030 30000000030])) =
   Some ([kOpen, kConnecting], [[OpRead], [OpResolve]], [Some HttpResolve])"
  by code_simp

end
