(* ===== verification/Snapshot_Source.thy ===== *)
theory Snapshot_Source
  imports Venue_Thread
begin

text \<open>
  How a venue thread comes by a snapshot, whichever way its venue sends it. The locale
  \<open>snapshot_source\<close> is the contract: when the adapter needs nothing (\<open>good\<close>), what the runner asks for
  when it loses that (\<open>remedy\<close>), and how a thread looks while the remedy works (\<open>coming\<close>). The theories
  \<open>Snapshot_Request\<close> and \<open>Snapshot_Stream\<close> meet it for the venues that are asked over HTTP and for those
  that send their snapshot on a new connection.
\<close>

section \<open>Handlers\<close>

text \<open>A handler goes on quietly, and a runner out of service stays out of it.\<close>

definition carries_on :: "('s, 'g) VenueRunner \<Rightarrow> ('s, 'g) VenueRunner \<Rightarrow> bool" where
  "carries_on r r' \<longleftrightarrow> quiet r r' \<and> stays_down r r'"

definition attended :: "('s, 'g) VenueRunner \<Rightarrow> bool" where
  "attended r \<longleftrightarrow> in_service r \<and> rn_connection r \<noteq> None"

definition asks :: "(RunnerAct \<Rightarrow> bool) \<Rightarrow> ('s, 'g) VenueRunner \<Rightarrow> ('s, 'g) VenueRunner \<Rightarrow> bool" where
  "asks remedy r r' \<longleftrightarrow> carries_on r r' \<and> (attended r' \<longrightarrow> list_ex remedy (new_acts r r'))"

text \<open>A handler that loses what is good asks for the remedy.\<close>

definition provides ::
  "('s \<Rightarrow> RunnerAct list \<Rightarrow> bool) \<Rightarrow> (RunnerAct \<Rightarrow> bool) \<Rightarrow> ('s, 'g) VenueRunner \<Rightarrow> ('s, 'g) VenueRunner \<Rightarrow> bool" where
  "provides good remedy r r' \<longleftrightarrow> carries_on r r' \<and>
     (attended r' \<longrightarrow> good (rn_protocol r) (rn_acts r) \<longrightarrow>
        good (rn_protocol r') (rn_acts r') \<or> list_ex remedy (new_acts r r'))"

text \<open>A handler that leaves the protocol alone.\<close>

definition calm :: "('s, 'g) VenueRunner \<Rightarrow> ('s, 'g) VenueRunner \<Rightarrow> bool" where
  "calm r r' \<longleftrightarrow> carries_on r r' \<and> rn_protocol r' = rn_protocol r \<and> ActReset \<notin> set (new_acts r r')"

lemma carries_on_trans: "carries_on a b \<Longrightarrow> carries_on b c \<Longrightarrow> carries_on a c"
  unfolding carries_on_def using quiet_trans down_trans by blast

lemma carries_on_service: "carries_on r r' \<Longrightarrow> in_service r' \<Longrightarrow> in_service r"
  by (auto simp: carries_on_def in_service_def quiet_def stays_down_def)

lemma carries_on_attended: "carries_on r r' \<Longrightarrow> attended r' \<Longrightarrow> attended r"
  using carries_on_service [of r r'] by (auto simp: attended_def carries_on_def quiet_def)

lemma carries_on_append: "carries_on r r' \<Longrightarrow> rn_acts r' = rn_acts r @ new_acts r r'"
  by (auto simp: carries_on_def quiet_def new_acts_def)

lemma carries_on_acts: "carries_on a b \<Longrightarrow> carries_on b c \<Longrightarrow> new_acts a c = new_acts a b @ new_acts b c"
  by (auto simp: carries_on_def quiet_def new_acts_def)

lemma asks_after:
  assumes "carries_on a b" "asks remedy b c"
  shows "asks remedy a c"
proof -
  have on: "carries_on b c" using assms(2) by (simp add: asks_def)
  show ?thesis using assms(2) carries_on_trans [OF assms(1) on] carries_on_acts [OF assms(1) on] by (simp add: asks_def)
qed

lemma asks_provides: "asks remedy r r' \<Longrightarrow> provides good remedy r r'"
  by (simp add: asks_def provides_def)

lemma provides_trans:
  assumes "provides good remedy a b" "provides good remedy b c"
  shows "provides good remedy a c"
proof -
  have on: "carries_on a b" "carries_on b c" using assms by (simp_all add: provides_def)
  have "attended c \<Longrightarrow> attended b" using carries_on_attended [OF on(2)] .
  moreover have "list_ex remedy (new_acts a c) \<longleftrightarrow> list_ex remedy (new_acts a b) \<or> list_ex remedy (new_acts b c)"
    by (simp add: carries_on_acts [OF on])
  ultimately show ?thesis using assms carries_on_trans [OF on] unfolding provides_def by blast
qed

lemma calm_trans: "calm a b \<Longrightarrow> calm b c \<Longrightarrow> calm a c"
  using carries_on_trans [of a b c] carries_on_acts [of a b c] by (simp add: calm_def)

lemma calm_refl [simp]: "calm r r"
  by (simp add: calm_def carries_on_def new_acts_def)

lemma calm_carries_on: "calm r r' \<Longrightarrow> carries_on r r'"
  by (simp add: calm_def)

lemma calm_prims [simp]:
  "calm r (SetState st r)" "calm r (close_connection r)" "calm r (MarkHealthy r)" "calm r (ArmWatchdog r)"
  "calm r (ScheduleReconnect draw r)" "calm r (fst (ConsumeResyncToken now r))"
  by (auto simp: calm_def carries_on_def)
    (auto simp: new_acts_def runner_prims ArmWatchdog_def ScheduleReconnect_def ConsumeResyncToken_def split_beta Let_def
      split: option.splits if_splits)

lemma calm_fields [simp]: "calm r (r\<lparr>rn_ring := ring\<rparr>)" "calm r (r\<lparr>rn_last_activity := now\<rparr>)"
  by (simp_all add: calm_def carries_on_def stays_down_def new_acts_def)

lemma calm_act: "plain a \<Longrightarrow> \<not> is_attempt a \<Longrightarrow> a \<noteq> ActReset \<Longrightarrow> calm r (act a r)"
  by (auto simp: calm_def carries_on_def quiet_act down_act) (simp_all add: act_def new_acts_def)

lemma calm_bump: "(\<And>st. vs_fatal st \<Longrightarrow> vs_fatal (f st)) \<Longrightarrow> calm r (bump f r)"
  by (simp add: calm_def carries_on_def down_bump) (simp add: bump_def new_acts_def)

lemma carries_on_fields [simp]: "carries_on r (reset_protocol p r)" "carries_on r (r\<lparr>rn_protocol := s\<rparr>)"
  by (simp_all add: carries_on_def) (simp add: stays_down_def)

lemma calm_OnClose: "calm r (runner_OnClose draw r)"
  using calm_trans [OF calm_prims(1) [of r] calm_prims(5)] by (simp add: runner_OnClose_def Let_def)

lemma calm_FetchSnapshot: "calm r (FetchSnapshot p draw now r)"
proof -
  obtain r1 ok where c: "ConsumeResyncToken now r = (r1, ok)" by fastforce
  have k: "calm r r1" using calm_prims(6) [of r now] c by simp
  have "calm r (act (ActHttpGet (vp_RestSnapshotUrl p) now) r1)" by (rule calm_trans [OF k calm_act]) simp_all
  with calm_trans [OF k calm_prims(5)] show ?thesis by (simp add: FetchSnapshot_def c)
qed

lemma calm_watchdog: "calm r (on_watchdog ec now r)"
  using calm_trans [OF calm_prims(1) [of r] calm_prims(2)] by (simp add: on_watchdog_def)

lemma calm_close_callback: "calm r (on_close_callback draw g r)"
  by (simp add: on_close_callback_def calm_OnClose)

text \<open>What \<^verbatim>\<open>Resync\<close> and \<^verbatim>\<open>OnOpen\<close> do before they turn to the snapshot.\<close>

definition resync_runner :: "'s VenueProtocol \<Rightarrow> ('s, 'g) VenueRunner \<Rightarrow> ('s, 'g) VenueRunner" where
  "resync_runner p r = reset_protocol p (SetState kSyncing (bump (\<lambda>st. st\<lparr>vs_resyncs := vs_resyncs st + 1\<rparr>) r))"

lemma Resync_begun:
  "Resync p draw now r =
     (if vp_needs_rest_snapshot p then FetchSnapshot p draw now (resync_runner p r) else close_connection (resync_runner p r))"
  by (simp add: Resync_def resync_runner_def Let_def)

lemma begun_carries_on: "carries_on r (resync_runner p r)"
proof -
  have "calm r (SetState kSyncing (bump (\<lambda>st. st\<lparr>vs_resyncs := vs_resyncs st + 1\<rparr>) r))"
    by (rule calm_trans [OF calm_bump calm_prims(1)]) simp
  from carries_on_trans [OF calm_carries_on [OF this] carries_on_fields(1)] show ?thesis by (simp add: resync_runner_def)
qed

definition opened_runner :: "'s VenueProtocol \<Rightarrow> ('s, 'g) VenueRunner \<Rightarrow> ('s, 'g) VenueRunner" where
  "opened_runner p r =
     (case rn_connection r of
        None \<Rightarrow> SetState kSyncing r
      | Some g \<Rightarrow> act (ActStartKeepalive g (vp_KeepaliveFrame p) (vp_keepalive_interval p))
          (foldl (\<lambda>r frame. act (ActSend g frame) r) (SetState kSyncing r) (vp_SubscribeFrames p)))"

lemma OnOpen_opened:
  "runner_OnOpen p draw now r = (if vp_needs_rest_snapshot p then FetchSnapshot p draw now (opened_runner p r) else opened_runner p r)"
  by (simp add: runner_OnOpen_def opened_runner_def Let_def SetState_def cong: option.case_cong)

lemma calm_sends: "calm r (foldl (\<lambda>r frame. act (ActSend g frame) r) r frames)"
proof (induction frames arbitrary: r)
  case (Cons f frames)
  have "calm r (act (ActSend g f) r)" by (rule calm_act) simp_all
  from calm_trans [OF this Cons.IH] show ?case by simp
qed simp

lemma calm_opened: "calm r (opened_runner p r)"
proof -
  have "calm r (act (ActStartKeepalive g f n) (foldl (\<lambda>r frame. act (ActSend g frame) r) (SetState kSyncing r) frames))" for g f n frames
    by (rule calm_trans [OF calm_prims(1) calm_trans [OF calm_sends calm_act]]) simp_all
  then show ?thesis by (simp add: opened_runner_def split: option.splits)
qed

lemma calm_OnOpen: "calm r (runner_OnOpen p draw now r)"
  using calm_opened [of r p] calm_trans [OF calm_opened [of r p] calm_FetchSnapshot] by (simp add: OnOpen_opened)

section \<open>The thread\<close>

lemma performs_conns_ok: "list_all plain acts \<Longrightarrow> conns_ok s \<Longrightarrow> conns_ok (foldl (perform now) s acts)"
  using performs_advance [of acts s now] by (simp add: advances_def)

lemma performs_some: "list_all plain acts \<Longrightarrow> conns_ok s \<Longrightarrow> vt_conns (foldl (perform now) s acts) = [] \<longleftrightarrow> vt_conns s = []"
  using performs_advance [of acts s now] unfolding advances_def by (metis length_0_conv)

text \<open>One of the acts brings about what every step keeps.\<close>

lemma performs_one:
  fixes s :: "('s, 'g) VenueThread"
  assumes "list_all plain acts" "list_ex P acts" "conns_ok s" "vt_conns s \<noteq> []"
    and performed: "\<And>a s. P a \<Longrightarrow> conns_ok s \<Longrightarrow> vt_conns s \<noteq> [] \<Longrightarrow> Q (perform now s a)"
    and kept: "\<And>(s :: ('s, 'g) VenueThread) s'. Q s \<Longrightarrow> conns_ok s \<Longrightarrow> vt_conns s \<noteq> [] \<Longrightarrow> advances True s s' \<Longrightarrow> Q s'"
  shows "Q (foldl (perform now) s acts)"
proof -
  obtain a where a: "a \<in> set acts" "P a" using assms(2) by (auto simp: list_ex_iff)
  obtain xs ys where acts: "acts = xs @ a # ys" using split_list [OF a(1)] by blast
  let ?s0 = "foldl (perform now) s xs" and ?s1 = "foldl (perform now) s (xs @ [a])"
  have s0: "conns_ok ?s0" "vt_conns ?s0 \<noteq> []"
    using performs_conns_ok [of xs s now] performs_some [of xs s now] assms(1-4) acts by simp_all
  have s1: "conns_ok ?s1" "vt_conns ?s1 \<noteq> []"
    using performs_conns_ok [of "xs @ [a]" s now] performs_some [of "xs @ [a]" s now] assms(1-4) acts by simp_all
  have "Q ?s1" using performed [OF a(2) s0] by simp
  moreover have "advances True ?s1 (foldl (perform now) ?s1 ys)" using assms(1) acts by (intro performs_advance) simp
  ultimately show ?thesis using kept [OF _ s1] acts by simp
qed

text \<open>The callback of a completed operation makes the runner ask for such an act, which is not a call on the same connection.\<close>

lemma completed_one:
  fixes s :: "('s, 'g) VenueThread"
  assumes "thread_ok s" "i < length (vt_conns s)" "k < length (ws_ops (vt_conns s ! i))"
    and "list_ex P (new_acts (vt_runner s) (op_runner p draw (vt_runner s) (op_event (ws_ops (vt_conns s ! i) ! k) cp recv now)))"
    and elsewhere: "\<And>a. P a \<Longrightarrow> Suc i = length (vt_conns s) \<Longrightarrow> call_of a = None"
    and performed: "\<And>a s. P a \<Longrightarrow> conns_ok s \<Longrightarrow> vt_conns s \<noteq> [] \<Longrightarrow> Q (perform now s a)"
    and kept: "\<And>(s :: ('s, 'g) VenueThread) s'. Q s \<Longrightarrow> conns_ok s \<Longrightarrow> vt_conns s \<noteq> [] \<Longrightarrow> advances True s s' \<Longrightarrow> Q s'"
  shows "Q (complete_op p draw i k cp recv now s)"
  using assms(2,3)
proof (rule complete_op_parts [of i s k p draw cp recv now], goal_cases)
  case (1 s1 cp' others)
  let ?s2 = "update_conn i (complete cp' (ws_ops (vt_conns s ! i) ! k)
      ((vt_conns s ! i)\<lparr>ws_ops := take k (ws_ops (vt_conns s ! i)) @ drop (Suc k) (ws_ops (vt_conns s ! i))\<rparr>)) s1"
  have s1: "conns_ok s1" "vt_conns s1 \<noteq> []" using assms(1,2) 1(1) by (auto simp: thread_ok_def conns_ok_def)
  with 1(8) have s2: "conns_ok ?s2" "vt_conns ?s2 \<noteq> []" by (simp_all add: advances_def update_conn_def)
  have hit: "list_ex P others" using assms(4) 1(1,7) elsewhere by (auto simp: list_ex_iff)
  show ?case unfolding 1(2)
  proof (rule performs_one [where P = P and Q = Q, OF 1(4) hit s2])
    show "Q (perform now s a)" if "P a" "conns_ok s" "vt_conns s \<noteq> []" for a s using performed that .
    show "Q s'" if "Q s" "conns_ok s" "vt_conns s \<noteq> []" "advances True s s'" for s s' :: "('s, 'g) VenueThread"
      using kept that .
  qed
qed

text \<open>Threads that differ in their runner, their watchdog or their posted handlers only.\<close>

definition looks_same :: "('s, 'g) VenueThread \<Rightarrow> ('s, 'g) VenueThread \<Rightarrow> bool" where
  "looks_same s s' \<longleftrightarrow>
     vt_conns s' = vt_conns s \<and> vt_requests s' = vt_requests s \<and> vt_reconnect s' = vt_reconnect s \<and> vt_due s' = vt_due s"

text \<open>A request that is outstanding has not been answered, and its completions lead to the next stage or to the answer.\<close>

definition request_ok :: "HttpSession \<Rightarrow> bool" where
  "request_ok q \<longleftrightarrow> hs_op q \<noteq> None \<longrightarrow> \<not> hs_done q"

lemma HttpGet_ok: "request_ok (HttpGet url)"
  by (simp add: request_ok_def HttpGet_def http_Run_def http_start_def Let_def split: option.splits)

lemma completed_goes_on:
  assumes "request_ok q" "hs_op q = Some op" "q' = http_completed op report (q\<lparr>hs_op := None\<rparr>)"
  shows "request_ok q' \<and> (hs_op q' \<noteq> None \<or> (\<exists>call. hs_calls q' = hs_calls q @ [call]))"
  using assms(1,2) unfolding assms(3)
  by (cases op; cases "hr_ec report = no_error") (auto simp: request_ok_def http_handlers)

interpretation outstanding: request_invariant request_ok
  using HttpGet_ok completed_goes_on by unfold_locales blast+

text \<open>
  A thread is fed when the attended runner is good or the remedy is coming.
\<close>

definition answered_well :: "('s \<Rightarrow> RunnerAct list \<Rightarrow> bool) \<Rightarrow> (RunnerAct \<Rightarrow> bool) \<Rightarrow> ('s, 'g) VenueRunner \<Rightarrow> ('s, 'g) VenueRunner \<Rightarrow> bool" where
  "answered_well good remedy r r' \<longleftrightarrow>
     (attended r' \<longrightarrow> good (rn_protocol r') (rn_acts r') \<or> list_ex remedy (new_acts r r'))"

locale snapshot_source =
  fixes p :: "'s VenueProtocol" and good :: "'s \<Rightarrow> RunnerAct list \<Rightarrow> bool" and remedy :: "RunnerAct \<Rightarrow> bool"
    and coming :: "('s, 'g) VenueThread \<Rightarrow> bool"
  assumes calm_keeps: "ActReset \<notin> set acts \<Longrightarrow> good st acts0 \<Longrightarrow> good st (acts0 @ acts)"
    and frame_keeps: "vp_OnFrame p st frame recv = (st', kOk, us) \<Longrightarrow> good st acts \<Longrightarrow> good st' acts"
    and body_keeps: "vp_OnRestSnapshot p st body recv = (st', kOk, us) \<Longrightarrow> good st acts \<Longrightarrow> good st' acts"
    and resync_asks: "asks remedy (r :: ('s, 'g) VenueRunner) (Resync p draw now r)"
    and coming_same: "looks_same s s' \<Longrightarrow> coming s \<Longrightarrow> coming s'"
    and coming_advances: "coming s \<Longrightarrow> conns_ok s \<Longrightarrow> vt_conns s \<noteq> [] \<Longrightarrow> advances True s s' \<Longrightarrow> coming s'"
    and perform_remedy: "remedy a \<Longrightarrow> conns_ok s \<Longrightarrow> vt_conns s \<noteq> [] \<Longrightarrow> coming (perform now s a)"
    and completed_remedy: "thread_ok s \<Longrightarrow> i < length (vt_conns s) \<Longrightarrow> k < length (ws_ops (vt_conns s ! i)) \<Longrightarrow>
       list_ex remedy (new_acts (vt_runner s) (op_runner p draw (vt_runner s) (op_event (ws_ops (vt_conns s ! i) ! k) cp recv now))) \<Longrightarrow>
       coming (complete_op p draw i k cp recv now s)"
    and opens: "coming s \<Longrightarrow> conns_ok s \<Longrightarrow> vt_conns s \<noteq> [] \<Longrightarrow> advances False s s' \<Longrightarrow>
       coming s' \<or> asks remedy r (runner_OnOpen p draw now r)"
    and closed_keeps: "coming s \<Longrightarrow> vt_due s = EvClosed g # es \<Longrightarrow> coming (s\<lparr>vt_due := es\<rparr>)"
    and answer_settles: "coming s \<Longrightarrow> coming (s\<lparr>vt_due := es\<rparr>) \<or>
       answered_well good remedy (vt_runner s) (on_snapshot p draw ok body recv now (vt_runner s))"
    and reconnect_keeps: "coming s \<Longrightarrow> k < length (vt_reconnect s) \<Longrightarrow> vt_reconnect s ! k \<Longrightarrow>
       coming (s\<lparr>vt_reconnect := remove_nth k (vt_reconnect s)\<rparr>)"
    and request_keeps: "coming s \<Longrightarrow> list_all request_ok (vt_requests s) \<Longrightarrow> i < length (vt_requests s) \<Longrightarrow>
       complete_request i report recv now s = Some s' \<Longrightarrow> coming s'"
    and connect_settles: "thread_ok s \<Longrightarrow> in_service (vt_runner s) \<Longrightarrow> s' = handle p draw now (EvStart now) s \<Longrightarrow>
       good (rn_protocol (vt_runner s')) (rn_acts (vt_runner s')) \<or> coming s'"
begin

definition fed :: "('s, 'g) VenueThread \<Rightarrow> bool" where
  "fed s \<longleftrightarrow> (attended (vt_runner s) \<longrightarrow> good (rn_protocol (vt_runner s)) (rn_acts (vt_runner s)) \<or> coming s)"

lemma calm_provides:
  fixes r :: "('s, 'g) VenueRunner"
  assumes "calm r r'"
  shows "provides good remedy r r'"
proof -
  have on: "carries_on r r'" "rn_protocol r' = rn_protocol r" "ActReset \<notin> set (new_acts r r')" using assms by (simp_all add: calm_def)
  have "good (rn_protocol r') (rn_acts r')" if "good (rn_protocol r) (rn_acts r)"
    unfolding on(2) carries_on_append [OF on(1)] by (rule calm_keeps [OF on(3) that])
  with on(1) show ?thesis by (simp add: provides_def)
qed

lemma Publish_provides: "provides good remedy (r :: ('s, 'g) VenueRunner) (runner_Publish p draw now updates r)"
proof (cases "updates = []")
  case False
  let ?batch = "\<lparr>fb_venue_index = rn_venue_index r, fb_updates = updates\<rparr>"
  obtain ring ok where push: "Push (rn_ring r) ?batch = (ring, ok)" by fastforce
  let ?full = "bump (\<lambda>st. st\<lparr>vs_ring_overflows := vs_ring_overflows st + 1\<rparr>) (r\<lparr>rn_ring := ring\<rparr>)"
  have "calm r (act (ActPushed ?batch) (r\<lparr>rn_ring := ring\<rparr>))"
    by (rule calm_trans [OF calm_fields(1) calm_act]) simp_all
  moreover have "calm r ?full" by (rule calm_trans [OF calm_fields(1) calm_bump]) simp
  from asks_provides [OF asks_after [OF calm_carries_on [OF this] resync_asks]]
  have "provides good remedy r (Resync p draw now ?full)" .
  ultimately show ?thesis using False push calm_provides by (simp add: runner_Publish_def)
qed (simp add: runner_Publish_def calm_provides)

lemma live_provides: "provides good remedy (r :: ('s, 'g) VenueRunner) (live_if_synced p r)"
proof -
  have "calm r (MarkHealthy (SetState kLive r))" by (rule calm_trans [of _ "SetState kLive r"]) simp_all
  then show ?thesis by (simp add: live_if_synced_def calm_provides)
qed

lemmas published_provides = provides_trans [OF Publish_provides live_provides]

lemma OnFrame_provides: "provides good remedy (r :: ('s, 'g) VenueRunner) (runner_OnFrame p draw frame recv now r)"
proof -
  let ?b = "bump (\<lambda>st. st\<lparr>vs_messages := vs_messages st + 1, vs_last_recv_ts_ns := recv\<rparr>) (r\<lparr>rn_last_activity := now\<rparr>)"
  obtain st v updates where out: "vp_OnFrame p (rn_protocol ?b) frame recv = (st, v, updates)"
    by (cases "vp_OnFrame p (rn_protocol ?b) frame recv")
  let ?r1 = "?b\<lparr>rn_protocol := st\<rparr>"
  let ?r2 = "act (ActInput (WsFrame frame recv)) ?r1"
  let ?set = "bump (\<lambda>st. st\<lparr>vs_last_exchange_ts_ns := exchange_ts_ns (last updates)\<rparr>)"
  have "calm r ?b" by (rule calm_trans [OF calm_fields(2) calm_bump]) simp
  from carries_on_trans [OF calm_carries_on [OF this] carries_on_fields(2)] have on: "carries_on r ?r1" .
  have "calm ?r1 ?r2" by (rule calm_act) simp_all
  moreover from this have "calm ?r1 (?set ?r2)" by (rule calm_trans [OF _ calm_bump]) simp
  moreover have "provides good remedy r ?r1" if "v = kOk"
    using on frame_keeps out that by (auto simp: provides_def bump_def)
  ultimately have ok: "v = kOk \<Longrightarrow> provides good remedy r ?r2" "v = kOk \<Longrightarrow> provides good remedy r (?set ?r2)"
    using provides_trans calm_provides by blast+
  have counted: "carries_on r (bump f ?r1)" if "\<And>st. vs_fatal st \<Longrightarrow> vs_fatal (f st)" for f
    using carries_on_trans [OF on calm_carries_on [OF calm_bump]] that by blast
  note bad = asks_provides [OF asks_after [OF counted resync_asks]]
  have "carries_on r (close_connection (SetState kDisconnected (bump (\<lambda>st. st\<lparr>vs_fatal := True\<rparr>) ?r1)))"
    using carries_on_trans [OF counted calm_carries_on [OF calm_trans [OF calm_prims(1,2)]], of "\<lambda>st. st\<lparr>vs_fatal := True\<rparr>"] by simp
  then have "provides good remedy r (close_connection (SetState kDisconnected (bump (\<lambda>st. st\<lparr>vs_fatal := True\<rparr>) ?r1)))"
    by (simp add: provides_def attended_def in_service_def)
  then show ?thesis
    using ok provides_trans [OF ok(1) published_provides] provides_trans [OF ok(2) published_provides] bad
    by (cases v) (simp_all add: runner_OnFrame_def out Let_def)
qed

lemma snapshot_provides: "provides good remedy (r :: ('s, 'g) VenueRunner) (on_snapshot p draw ok body recv now r)"
proof -
  obtain st v updates where out: "vp_OnRestSnapshot p (rn_protocol r) body recv = (st, v, updates)"
    by (cases "vp_OnRestSnapshot p (rn_protocol r) body recv")
  let ?r1 = "r\<lparr>rn_protocol := st\<rparr>"
  let ?r2 = "act (ActInput (RestBody body recv)) ?r1"
  have "calm ?r1 ?r2" by (rule calm_act) simp_all
  moreover have "provides good remedy r ?r1" if "v = kOk" using body_keeps out that by (auto simp: provides_def)
  ultimately have good: "v = kOk \<Longrightarrow> provides good remedy r ?r2" using provides_trans calm_provides by blast
  have "provides good remedy r (Resync p draw now ?r1)"
    by (rule asks_provides [OF asks_after [OF carries_on_fields(2) resync_asks]])
  with provides_trans [OF good published_provides] show ?thesis
    by (simp add: on_snapshot_def out Let_def calm_provides calm_OnClose)
qed

lemma op_runner_provides:
  "provides good remedy (r :: ('s, 'g) VenueRunner) (op_runner p draw r (op_event op cp recv now))"
  by (cases op) (simp_all add: op_runner_def OnFrame_provides calm_provides calm_OnOpen)

text \<open>Performing what the runner asks for.\<close>

lemma performs_remedy:
  fixes s :: "('s, 'g) VenueThread"
  assumes "list_all plain acts" "list_ex remedy acts" "conns_ok s" "vt_conns s \<noteq> []"
  shows "coming (foldl (perform now) s acts)"
  using assms perform_remedy coming_advances by (rule performs_one [where P = remedy and Q = coming])

lemma attended_conns: "thread_ok s \<Longrightarrow> attended (vt_runner s) \<Longrightarrow> vt_conns s \<noteq> []"
  by (auto simp: thread_ok_def attended_def)

lemma handle_fed:
  fixes s :: "('s, 'g) VenueThread"
  assumes "thread_ok s" "quiet (vt_runner s) (runner_handle p draw (vt_runner s) e)"
    and "answered_well good remedy (vt_runner s) (runner_handle p draw (vt_runner s) e) \<or>
       provides good remedy (vt_runner s) (runner_handle p draw (vt_runner s) e) \<and> fed s"
  shows "fed (handle p draw now e s)"
proof (cases "attended (runner_handle p draw (vt_runner s) e)")
  case True
  let ?r' = "runner_handle p draw (vt_runner s) e"
  let ?s1 = "s\<lparr>vt_runner := ?r'\<rparr>"
  obtain acts where acts: "rn_acts ?r' = rn_acts (vt_runner s) @ acts" "list_all plain acts"
    using assms(2) by (auto simp: quiet_def)
  have handled: "handle p draw now e s = foldl (perform now) ?s1 acts" using acts by (simp add: handle_def)
  have "rn_connection ?r' = rn_connection (vt_runner s)" using assms(2) by (simp add: quiet_def)
  with True assms(1) have some: "vt_conns ?s1 \<noteq> []" by (auto simp: attended_def thread_ok_def)
  have conns: "conns_ok ?s1" using assms(1) by (simp add: thread_ok_def conns_ok_def)
  have adv: "advances True ?s1 (foldl (perform now) ?s1 acts)" by (rule performs_advance [OF acts(2)])
  have runner: "vt_runner (foldl (perform now) ?s1 acts) = ?r'" by simp
  have "coming s \<Longrightarrow> coming ?s1" by (rule coming_same [of s]) (simp_all add: looks_same_def)
  then have "good (rn_protocol ?r') (rn_acts ?r') \<or> list_ex remedy acts \<or> coming ?s1"
    using assms(3) True carries_on_attended [of "vt_runner s" ?r'] acts(1)
    by (auto simp: answered_well_def provides_def fed_def)
  with performs_remedy [OF acts(2) _ conns some] coming_advances [OF _ conns some adv] show ?thesis
    unfolding fed_def handled runner by blast
next
  case False
  then show ?thesis by (simp add: fed_def)
qed

lemma calm_fed:
  fixes s :: "('s, 'g) VenueThread"
  assumes "thread_ok s" "fed s" "calm (vt_runner s) (runner_handle p draw (vt_runner s) e)"
  shows "fed (handle p draw now e s)"
  using assms calm_provides by (intro handle_fed) (auto simp: calm_def carries_on_def)

lemma same_fed: "looks_same s s' \<Longrightarrow> vt_runner s' = vt_runner s \<Longrightarrow> fed s \<Longrightarrow> fed s'"
  using coming_same by (auto simp: fed_def)

lemma due_fed:
  fixes s :: "('s, 'g) VenueThread"
  assumes "thread_ok s" "fed s" "vt_due s = e # es"
  shows "fed (handle p draw now e (s\<lparr>vt_due := es\<rparr>))"
proof -
  let ?s0 = "s\<lparr>vt_due := es\<rparr>"
  have ok: "thread_ok ?s0" and e: "is_callback e" using assms(1,3) by (simp_all add: thread_ok_def conns_ok_def)
  show ?thesis
  proof (cases e)
    case (EvClosed g)
    then have "fed ?s0" using assms(2,3) closed_keeps [of s g es] by (auto simp: fed_def)
    with EvClosed show ?thesis by (intro calm_fed [OF ok]) (simp_all add: calm_close_callback)
  next
    case (EvSnapshot answered body recv t)
    have "answered_well good remedy (vt_runner s) (on_snapshot p draw answered body recv t (vt_runner s)) \<or> fed ?s0"
      using assms(2) answer_settles [of s es draw answered body recv t] by (auto simp: fed_def)
    with EvSnapshot snapshot_provides show ?thesis by (intro handle_fed [OF ok]) (auto simp: quiet_snapshot)
  qed (use e in simp_all)
qed

lemma complete_op_fed:
  fixes s :: "('s, 'g) VenueThread"
  assumes "thread_ok s" "fed s" "i < length (vt_conns s)" "k < length (ws_ops (vt_conns s ! i))"
  shows "fed (complete_op p draw i k cp recv now s)"
proof -
  let ?op = "ws_ops (vt_conns s ! i) ! k" and ?s2 = "complete_op p draw i k cp recv now s"
  let ?r = "op_runner p draw (vt_runner s) (op_event ?op cp recv now)"
  let ?s1 = "s\<lparr>vt_runner := ?r\<rparr>" and ?ends = "?op = OpHandshake \<and> cp_ec cp = no_error"
  note adv = complete_op_advances [OF assms(3,4), of cp p draw recv now]
  have conns: "conns_ok ?s1" using assms(1) by (simp add: thread_ok_def conns_ok_def)
  have some: "vt_conns ?s1 \<noteq> []" using assms(3) by auto
  have runner: "vt_runner ?s2 = ?r" using adv conns by (simp add: advances_def)
  have same: "coming s \<Longrightarrow> coming ?s1" by (rule coming_same [of s]) (simp_all add: looks_same_def)
  have "good (rn_protocol ?r) (rn_acts ?r) \<or> coming ?s2" if att: "attended ?r"
  proof -
    have prov: "provides good remedy (vt_runner s) ?r" by (rule op_runner_provides)
    then have "attended (vt_runner s)" using att carries_on_attended by (auto simp: provides_def)
    with assms(2) prov att consider "good (rn_protocol ?r) (rn_acts ?r)" | "list_ex remedy (new_acts (vt_runner s) ?r)" | "coming ?s1"
      using same by (auto simp: fed_def provides_def)
    then show ?thesis
    proof cases
      case 2
      with completed_remedy [OF assms(1,3,4)] show ?thesis by blast
    next
      case 3
      show ?thesis
      proof (cases ?ends)
        case True
        then have "?r = runner_OnOpen p draw now (vt_runner s)" by (simp add: op_runner_def)
        with opens [OF 3 conns some, of ?s2 "vt_runner s" draw now] adv True att completed_remedy [OF assms(1,3,4), of draw cp recv now]
        show ?thesis by (auto simp: asks_def)
      next
        case False
        with coming_advances [OF 3 conns some, of ?s2] adv show ?thesis by simp
      qed
    qed simp
  qed
  then show ?thesis by (simp add: fed_def runner)
qed

lemma connect_fed:
  fixes s :: "('s, 'g) VenueThread"
  assumes "thread_ok s"
  shows "fed (handle p draw now (EvStart now) s)"
proof (cases "in_service (vt_runner s)")
  case True
  from connect_settles [OF assms True refl] show ?thesis by (auto simp: fed_def)
next
  case False
  then have "handle p draw now (EvStart now) s = s" by (simp add: handle_def in_service_def Connect_def)
  with False show ?thesis by (simp add: fed_def attended_def)
qed

lemma step_fed:
  fixes s :: "('s, 'g) VenueThread"
  assumes "thread_ok s" "list_all request_ok (vt_requests s)" "fed s" "thread_step p draw s st = Some s'"
  shows "fed s'"
proof (cases st)
  case StStart
  with assms(3,4) show ?thesis by (auto simp: looks_same_def intro: same_fed [of s] split: if_splits)
next
  case StStop
  with assms(3,4) show ?thesis by (auto simp: fed_def attended_def in_service_def request_stop_def split: if_splits)
next
  case StDue
  with assms(4) due_fed [OF assms(1,3)] show ?thesis by (auto split: list.splits)
next
  case (StPosted k now)
  then have st: "s' = handle p draw now (posted_event (vt_posted s ! k) now) (s\<lparr>vt_posted := remove_nth k (vt_posted s)\<rparr>)"
      "k < length (vt_posted s)" using assms(4) by (auto split: if_splits)
  have ok: "thread_ok (s\<lparr>vt_posted := remove_nth k (vt_posted s)\<rparr>)" using posted_removed [OF assms(1)] .
  show ?thesis
  proof (cases "vt_posted s ! k")
    case PostConnect
    with st connect_fed [OF ok] show ?thesis by simp
  next
    case PostStop
    then have "rn_stopping (vt_runner s)" using assms(1) nth_mem [OF st(2)] by (simp add: thread_ok_def)
    with st PostStop have "rn_stopping (vt_runner s')" by simp
    then show ?thesis by (simp add: fed_def attended_def in_service_def)
  qed
next
  case (StWs i k cp recv now)
  with assms(4) complete_op_fed [OF assms(1,3)] show ?thesis by (auto split: if_splits)
next
  case (StHttp i report recv now)
  then have q: "complete_request i report recv now s = Some s'" "i < length (vt_requests s)"
    using assms(4) by (auto split: if_splits)
  then have "vt_runner s' = vt_runner s" by (auto simp: complete_request_def Let_def split: option.splits)
  with assms(3) request_keeps [OF _ assms(2) q(2,1)] show ?thesis by (auto simp: fed_def)
next
  case (StReconnect k ec now)
  then have st: "s' = handle p draw now (EvReconnect ec now) (s\<lparr>vt_reconnect := remove_nth k (vt_reconnect s)\<rparr>)"
      "wait_ends (vt_reconnect s) k ec" using assms(4) by (auto split: if_splits)
  show ?thesis
  proof (cases "ec \<noteq> no_error \<or> rn_stopping (vt_runner s)")
    case True
    then have "s' = s\<lparr>vt_reconnect := remove_nth k (vt_reconnect s)\<rparr>"
      using st(1) by (auto simp: handle_def on_reconnect_timer_def new_acts_def)
    with True st(2) assms(3) reconnect_keeps [of s k] show ?thesis
      by (auto simp: fed_def wait_ends_def attended_def in_service_def)
  next
    case False
    then have "s' = handle p draw now (EvStart now) (s\<lparr>vt_reconnect := remove_nth k (vt_reconnect s)\<rparr>)"
      using st(1) by (simp add: handle_def on_reconnect_timer_def)
    moreover have "thread_ok (s\<lparr>vt_reconnect := remove_nth k (vt_reconnect s)\<rparr>)"
      using assms(1) by (simp add: thread_ok_def conns_ok_def)
    ultimately show ?thesis using connect_fed by simp
  qed
next
  case (StWatchdog k ec now)
  then have st: "s' = handle p draw now (EvWatchdog ec now) (s\<lparr>vt_watchdog := remove_nth k (vt_watchdog s)\<rparr>)"
    using assms(4) by (auto split: if_splits)
  have "thread_ok (s\<lparr>vt_watchdog := remove_nth k (vt_watchdog s)\<rparr>)"
    using assms(1) by (simp add: thread_ok_def conns_ok_def)
  moreover have "fed (s\<lparr>vt_watchdog := remove_nth k (vt_watchdog s)\<rparr>)"
    using assms(3) by (rule same_fed [rotated 2]) (simp_all add: looks_same_def)
  ultimately show ?thesis unfolding st by (rule calm_fed) (simp add: calm_watchdog)
qed

lemma run_fed:
  fixes s :: "('s, 'g) VenueThread"
  shows "thread_run p draw s sts = Some s' \<Longrightarrow> thread_ok s \<Longrightarrow> driven s \<Longrightarrow> list_all request_ok (vt_requests s) \<Longrightarrow> fed s \<Longrightarrow> fed s'"
proof (induction sts arbitrary: s)
  case (Cons st sts)
  then obtain s1 where step: "thread_step p draw s st = Some s1" "thread_run p draw s1 sts = Some s'"
    by (auto split: option.splits)
  from Cons.IH [OF step(2)] thread_step_ok [OF Cons.prems(2,3) step(1)] outstanding.step_requests [OF Cons.prems(4) step(1)]
    step_fed [OF Cons.prems(2,4,5) step(1)] show ?case by blast
qed simp

text \<open>Between two handlers of a started thread in service.\<close>

lemma thread_fed:
  fixes s :: "('s, 'g) VenueThread"
  assumes "thread_run p draw (new_thread (new_runner venue_index protocol ring options seed start)) sts = Some s"
    and "vt_started s" "\<not> rn_stopping (vt_runner s)" "\<not> vs_fatal (rn_stats (vt_runner s))"
  shows "PostConnect \<in> set (vt_posted s) \<or>
     vt_conns s \<noteq> [] \<and> (good (rn_protocol (vt_runner s)) (rn_acts (vt_runner s)) \<or> coming s)"
proof -
  let ?s0 = "new_thread (new_runner venue_index protocol ring options seed start) :: ('s, 'g) VenueThread"
  have "list_all request_ok (vt_requests ?s0)" "fed ?s0"
    by (simp_all add: fed_def attended_def new_thread_def new_runner_def)
  from run_fed [OF assms(1) new_thread_ok this] have fed: "fed s" .
  have ok: "thread_ok s" "driven s" using thread_run_ok [OF assms(1) new_thread_ok] by simp_all
  have service: "in_service (vt_runner s)" using assms(3,4) by (simp add: in_service_def)
  show ?thesis
  proof (cases "vt_conns s = []")
    case True
    with ok(2) service assms(2) show ?thesis by (simp add: driven_def)
  next
    case False
    with ok(1) service have "attended (vt_runner s)" by (simp add: thread_ok_def attended_def)
    with fed False show ?thesis by (simp add: fed_def)
  qed
qed

end

end
