(* ===== verification/Snapshot_Request.thy ===== *)
theory Snapshot_Request
  imports Snapshot_Source
begin

text \<open>
  Venues whose snapshot comes over HTTP: while its adapter is out of sync, the thread of such a venue has
  a request on its way, or something armed that will lead to one. The locale \<open>rest_protocol\<close> extends
  the adapters' contract by what this takes; it is interpreted for Binance.
\<close>

section \<open>Asking for a snapshot\<close>

fun fetch :: "RunnerAct \<Rightarrow> bool" where
  "fetch (ActHttpGet url now) \<longleftrightarrow> True"
| "fetch (ActReconnectAfter delay) \<longleftrightarrow> True"
| "fetch a \<longleftrightarrow> False"

lemma fetch_no_call: "fetch a \<Longrightarrow> call_of a = None"
  by (cases a) simp_all

lemma ScheduleReconnect_asks: "asks fetch r (ScheduleReconnect draw r)"
proof -
  have "list_ex fetch (new_acts r (ScheduleReconnect draw r))" if "in_service r"
    using that by (auto simp: in_service_def ScheduleReconnect_def act_def new_acts_def split: prod.splits)
  with calm_carries_on [OF calm_prims(5) [of r draw]] carries_on_service [of r "ScheduleReconnect draw r"] show ?thesis
    by (simp add: asks_def attended_def)
qed

lemma OnClose_asks: "asks fetch r (runner_OnClose draw r)"
proof -
  let ?r1 = "SetState kDisconnected r"
  have on: "carries_on r ?r1" by (rule calm_carries_on) simp
  have "asks fetch r (ScheduleReconnect draw ?r1)" by (rule asks_after [OF on ScheduleReconnect_asks])
  moreover have "asks fetch r ?r1" if "rn_stopping ?r1 \<or> vs_fatal (rn_stats ?r1)"
    using that on by (auto simp: asks_def attended_def in_service_def)
  ultimately show ?thesis by (simp add: runner_OnClose_def Let_def)
qed

lemma FetchSnapshot_asks: "asks fetch r (FetchSnapshot p draw now r)"
proof (cases "rn_stopping r")
  case False
  obtain r1 ok where c: "ConsumeResyncToken now r = (r1, ok)" by fastforce
  have k: "carries_on r r1" using calm_carries_on [OF calm_prims(6) [of r now]] c by simp
  have "asks fetch r1 (act (ActHttpGet url now) r1)" for url
    using calm_carries_on [OF calm_act [of "ActHttpGet url now" r1]] by (simp add: asks_def) (simp add: act_def new_acts_def)
  from asks_after [OF k this] asks_after [OF k ScheduleReconnect_asks] False show ?thesis by (simp add: FetchSnapshot_def c)
qed (simp add: FetchSnapshot_def asks_def calm_carries_on attended_def in_service_def)

section \<open>What is on its way\<close>

fun is_answer :: "RunnerEvent \<Rightarrow> bool" where
  "is_answer (EvSnapshot ok body recv now) \<longleftrightarrow> True"
| "is_answer e \<longleftrightarrow> False"

definition fetching :: "('s, 'g) VenueThread \<Rightarrow> bool" where
  "fetching s \<longleftrightarrow>
     waiting (vt_reconnect s) \<or> (\<exists>q\<in>set (vt_requests s). hs_op q \<noteq> None) \<or> (\<exists>e\<in>set (vt_due s). is_answer e) \<or>
     (vt_conns s \<noteq> [] \<and> (connecting (last (vt_conns s)) \<or> ws_finished (last (vt_conns s))))"

lemma fetching_same: "looks_same s s' \<Longrightarrow> fetching s \<Longrightarrow> fetching s'"
  by (simp add: looks_same_def fetching_def)

lemma fetching_advances:
  assumes "fetching s" "conns_ok s" "advances True s s'"
  shows "fetching s'"
proof -
  have "vt_conns s' \<noteq> [] \<longleftrightarrow> vt_conns s \<noteq> []" using assms(2,3) by (auto simp: advances_def)
  with assms show ?thesis unfolding fetching_def advances_def conn_advances_def by blast
qed

text \<open>A request that starts is outstanding or answered, and so is one that goes on.\<close>

lemma HttpGet_starts: "hs_op (HttpGet url) \<noteq> None \<or> hs_calls (HttpGet url) \<noteq> []"
  by (simp add: HttpGet_def http_Run_def http_start_def Let_def split: option.splits)

lemma answers_answer: "calls \<noteq> [] \<Longrightarrow> \<exists>e\<in>set (answers recv now calls). is_answer e"
  by (cases calls) (auto simp: answers_def)

lemma perform_fetch: "fetch a \<Longrightarrow> fetching (perform now s a)"
proof (cases a)
  case (ActHttpGet url t)
  then show ?thesis using HttpGet_starts [of url] answers_answer [of "hs_calls (HttpGet url)" t t]
    by (auto simp: fetching_def perform_def Let_def)
qed (simp_all add: fetching_def perform_def)

lemma complete_request_fetching:
  assumes "list_all request_ok (vt_requests s)" "i < length (vt_requests s)" "complete_request i report recv now s = Some s'"
  shows "fetching s'"
proof -
  let ?q = "vt_requests s ! i"
  obtain op where op: "hs_op ?q = Some op" using assms(3) by (auto simp: complete_request_def Let_def split: option.splits)
  let ?q' = "http_completed op report (?q\<lparr>hs_op := None\<rparr>)"
  have s': "s' = s\<lparr>vt_requests := (vt_requests s)[i := ?q'],
      vt_due := vt_due s @ answers recv now (drop (length (hs_calls ?q)) (hs_calls ?q'))\<rparr>"
    using assms(3) op by (simp add: complete_request_def Let_def)
  have "request_ok ?q" using assms(1,2) by (simp add: list_all_length)
  note on = completed_goes_on [OF this op refl, of report]
  have "?q' \<in> set (vt_requests s')" using assms(2) by (simp add: s' set_update_memI)
  moreover have "\<exists>e\<in>set (vt_due s'). is_answer e" if "hs_calls ?q' = hs_calls ?q @ [call]" for call
    using answers_answer [of "[call]" recv now] that by (auto simp: s')
  ultimately show ?thesis using on unfolding fetching_def by blast
qed

lemma completed_fetch:
  assumes "thread_ok s" "i < length (vt_conns s)" "k < length (ws_ops (vt_conns s ! i))"
    and "list_ex fetch (new_acts (vt_runner s) (op_runner p draw (vt_runner s) (op_event (ws_ops (vt_conns s ! i) ! k) cp recv now)))"
  shows "fetching (complete_op p draw i k cp recv now s)"
  using assms fetch_no_call perform_fetch fetching_advances by (rule completed_one [where P = fetch and Q = fetching])

lemma connect_fetching:
  assumes "in_service (vt_runner s)"
  shows "fetching (handle p draw now (EvStart now) s)"
  using Open_first(2) [of "vp_stream_url p" now] Connect_acts(1) [OF assms, of p now]
  by (auto simp: fetching_def handle_def perform_def Let_def)

section \<open>The contract\<close>

locale rest_protocol = venue_protocol p ready inv
  for p :: "'s VenueProtocol" and ready :: "'s \<Rightarrow> bool" and inv :: "'s \<Rightarrow> bool" +
  assumes needs_rest: "vp_needs_rest_snapshot p"
    and snapshot_syncs: "vp_OnRestSnapshot p s body recv = (s', kOk, us) \<Longrightarrow> vp_synced p s'"
begin

lemma Resync_asks: "asks fetch r (Resync p draw now r)"
  using asks_after [OF begun_carries_on FetchSnapshot_asks] by (simp add: Resync_begun needs_rest)

lemma OnOpen_asks: "asks fetch r (runner_OnOpen p draw now r)"
  using asks_after [OF calm_carries_on [OF calm_opened [of r p]] FetchSnapshot_asks] by (simp add: OnOpen_opened needs_rest)

text \<open>A request that is answered leads to the next one unless its body brings the adapter in sync.\<close>

lemma Publish_asks: "calm r (runner_Publish p draw now updates r) \<or> asks fetch r (runner_Publish p draw now updates r)"
proof -
  let ?batch = "\<lparr>fb_venue_index = rn_venue_index r, fb_updates = updates\<rparr>"
  obtain ring ok where push: "Push (rn_ring r) ?batch = (ring, ok)" by fastforce
  let ?full = "bump (\<lambda>st. st\<lparr>vs_ring_overflows := vs_ring_overflows st + 1\<rparr>) (r\<lparr>rn_ring := ring\<rparr>)"
  have "calm r (act (ActPushed ?batch) (r\<lparr>rn_ring := ring\<rparr>))"
    by (rule calm_trans [OF calm_fields(1) calm_act]) simp_all
  moreover have "calm r ?full" by (rule calm_trans [OF calm_fields(1) calm_bump]) simp
  from asks_after [OF calm_carries_on [OF this] Resync_asks] have "asks fetch r (Resync p draw now ?full)" .
  ultimately show ?thesis using push by (simp add: runner_Publish_def)
qed

lemma snapshot_settles: "answered_well (\<lambda>st acts. vp_synced p st) fetch r (on_snapshot p draw ok body recv now r)"
proof -
  obtain st v updates where out: "vp_OnRestSnapshot p (rn_protocol r) body recv = (st, v, updates)"
    by (cases "vp_OnRestSnapshot p (rn_protocol r) body recv")
  let ?good = "\<lambda>st acts. vp_synced p st" and ?r1 = "r\<lparr>rn_protocol := st\<rparr>"
  let ?r2 = "act (ActInput (RestBody body recv)) ?r1"
  let ?r3 = "runner_Publish p draw now updates ?r2"
  have asked: "asks fetch r r' \<Longrightarrow> answered_well ?good fetch r r'" for r' by (simp add: asks_def answered_well_def)
  have bad: "answered_well ?good fetch r (Resync p draw now ?r1)" by (rule asked [OF asks_after [OF carries_on_fields(2) Resync_asks]])
  have on: "carries_on r ?r2" by (rule carries_on_trans [OF carries_on_fields(2) calm_carries_on [OF calm_act]]) simp_all
  have live: "calm r' (live_if_synced p r')" for r' :: "('s, 'a) VenueRunner"
    using calm_trans [OF calm_prims(1) [of r'] calm_prims(3)] by (simp add: live_if_synced_def)
  have good: "answered_well ?good fetch r (live_if_synced p ?r3)" if "v = kOk"
    using Publish_asks [of ?r2 draw now updates]
  proof
    assume "calm ?r2 ?r3"
    moreover have "vp_synced p st" using snapshot_syncs out that by simp
    ultimately show ?thesis using live [of ?r3] by (simp add: answered_well_def calm_def act_def)
  next
    assume asks: "asks fetch ?r2 ?r3"
    then have "asks fetch r ?r3" by (rule asks_after [OF on])
    then have "provides ?good fetch r ?r3 \<and> list_ex fetch (new_acts r ?r3) \<or> \<not> attended ?r3"
      by (auto simp: asks_def provides_def)
    moreover have "attended (live_if_synced p ?r3) \<Longrightarrow> attended ?r3"
      by (rule carries_on_attended [OF calm_carries_on [OF live]])
    moreover have "new_acts r (live_if_synced p ?r3) = new_acts r ?r3 @ new_acts ?r3 (live_if_synced p ?r3)"
      using \<open>asks fetch r ?r3\<close> calm_carries_on [OF live] by (intro carries_on_acts) (simp_all add: asks_def)
    ultimately show ?thesis by (auto simp: answered_well_def)
  qed
  have "answered_well ?good fetch r (runner_OnClose draw r)" by (rule asked [OF OnClose_asks])
  moreover have "answered_well ?good fetch r r" if "rn_stopping r" using that by (simp add: answered_well_def attended_def in_service_def)
  ultimately show ?thesis using bad good by (simp add: on_snapshot_def out Let_def)
qed

lemma snapshot_source_rest:
  "snapshot_source p (\<lambda>st acts. vp_synced p st) fetch (fetching :: ('s, 'g) VenueThread \<Rightarrow> bool)"
proof (unfold_locales, goal_cases)
  case (2 st frame recv st' us)
  with input_synced [of st "WsFrame frame recv"] show ?case by simp
next
  case (3 st body recv st' us)
  with snapshot_syncs show ?case by simp
next
  case (9 s s' r draw now)
  show ?case using OnOpen_asks by blast
next
  case (11 s es draw ok body recv now)
  show ?case using snapshot_settles by blast
next
  case (12 s k)
  with waiting_removed [of k "vt_reconnect s"] show ?case by (auto simp: fetching_def)
qed (auto simp: Resync_asks perform_fetch connect_fetching completed_fetch
    intro: fetching_same fetching_advances complete_request_fetching, auto simp: fetching_def)

end

interpretation binance_rest: rest_protocol "binance_protocol js config" bn_synced binance_inv for js config
proof (rule rest_protocol.intro [OF binance.venue_protocol_axioms], unfold_locales)
  show "vp_needs_rest_snapshot (binance_protocol js config)" by (simp add: binance_protocol_def)
  show "vp_synced (binance_protocol js config) s'"
    if "vp_OnRestSnapshot (binance_protocol js config) s body recv = (s', kOk, us)" for s body recv s' us
  proof -
    have "binance_OnRestSnapshot js s body recv = (s', kOk, us)" using that by (simp add: binance_protocol_def)
    then show ?thesis
      by (rule binance_OnRestSnapshot_cases) (auto simp: binance_protocol_def dest: binance_reconcile_cases(3))
  qed
qed

interpretation binance_source: snapshot_source "binance_protocol js config"
  "\<lambda>st acts. vp_synced (binance_protocol js config) st" fetch fetching for js config
  by (rule binance_rest.snapshot_source_rest)

section \<open>Binance\<close>

text \<open>C11: the snapshot of Binance is never forgotten: whenever no handler is running in a started thread that is
  neither stopping nor permanently failed, the adapter is in sync, or a snapshot request is outstanding, or
  the connection that will ask for one is still being made, or a reconnect is armed or posted.\<close>

theorem binance_snapshot_never_forgotten:
  assumes "thread_run (binance_protocol js config) draw
      (new_thread (new_runner venue_index protocol ring options seed start)) sts = Some s"
    and "vt_started s" "vt_due s = []" "\<not> rn_stopping (vt_runner s)" "\<not> vs_fatal (rn_stats (vt_runner s))"
    and "\<not> bn_synced (rn_protocol (vt_runner s))"
  shows "PostConnect \<in> set (vt_posted s) \<or> waiting (vt_reconnect s) \<or> (\<exists>q\<in>set (vt_requests s). hs_op q \<noteq> None) \<or>
     (vt_conns s \<noteq> [] \<and> (\<exists>op\<in>set (ws_ops (last (vt_conns s))). is_pre op))"
proof -
  have "connecting c \<Longrightarrow> \<exists>op\<in>set (ws_ops c). is_pre op" for c
    unfolding connecting_def neq0_conv [symmetric] pending_0_iff by blast
  moreover have "vt_conns s \<noteq> [] \<Longrightarrow> ws_finished (last (vt_conns s)) \<Longrightarrow> waiting (vt_reconnect s)"
    using thread_run_ok [OF assms(1) new_thread_ok] assms(3-5) by (simp add: driven_def in_service_def)
  moreover have "vp_synced (binance_protocol js config) = bn_synced" by (simp add: binance_protocol_def)
  ultimately show ?thesis using binance_source.thread_fed [OF assms(1,2,4,5)] assms(3,6) by (auto simp: fetching_def)
qed

theorem binance_snapshot_never_forgotten_witness:
  "\<exists>s. run_thread open_steps = Some s \<and> \<not> bn_synced (rn_protocol (vt_runner s)) \<and> vt_reconnect s = [] \<and>
     (\<exists>q\<in>set (vt_requests s). hs_op q \<noteq> None)"
proof -
  have "case run_thread open_steps of None \<Rightarrow> False | Some s \<Rightarrow> vt_started s \<and> vt_due s = [] \<and> \<not> rn_stopping (vt_runner s) \<and>
      \<not> vs_fatal (rn_stats (vt_runner s)) \<and> \<not> bn_synced (rn_protocol (vt_runner s)) \<and> vt_reconnect s = [] \<and> vt_posted s = [] \<and>
      map ws_ops (vt_conns s) = [[OpRead]]" by code_simp
  then obtain s where s: "run_thread open_steps = Some s" "vt_started s" "vt_due s = []" "\<not> rn_stopping (vt_runner s)"
      "\<not> vs_fatal (rn_stats (vt_runner s))" "\<not> bn_synced (rn_protocol (vt_runner s))" "vt_reconnect s = []"
      "vt_posted s = []" "map ws_ops (vt_conns s) = [[OpRead]]"
    by (auto split: option.splits)
  have "ws_ops (last (vt_conns s)) = [OpRead]" using s(9) by auto
  with binance_snapshot_never_forgotten [OF s(1) [unfolded run_thread_def] s(2-6)] s show ?thesis by (auto simp: waiting_def)
qed

end
