(* ===== verification/Subscription.thy ===== *)
theory Subscription
  imports Snapshot_Source
begin

text \<open>
  A connection that has opened while it was the current one has been given every subscription frame of its
  venue: an invariant of the venue thread over the traces of its connections.
\<close>

section \<open>Connections\<close>

text \<open>A connection's trace only grows, without another open callback.\<close>

definition speaks :: "WsConnection \<Rightarrow> WsConnection \<Rightarrow> bool" where
  "speaks c c' \<longleftrightarrow> (\<exists>es. ws_trace c' = ws_trace c @ es \<and> OnOpenCb \<notin> set es)"

definition subscribed :: "'s VenueProtocol \<Rightarrow> WsConnection \<Rightarrow> bool" where
  "subscribed p c \<longleftrightarrow> (OnOpenCb \<in> set (ws_trace c) \<longrightarrow> set (vp_SubscribeFrames p) \<subseteq> set (queued (ws_trace c)))"

lemma speaks_same: "ws_trace c' = ws_trace c \<Longrightarrow> speaks c c'"
  by (simp add: speaks_def)

lemma speaks_trans: "speaks a b \<Longrightarrow> speaks b c \<Longrightarrow> speaks a c"
  by (auto simp: speaks_def)

lemma speaks_queued: "speaks c c' \<Longrightarrow> set (queued (ws_trace c)) \<subseteq> set (queued (ws_trace c'))"
  by (auto simp: speaks_def)

lemma speaks_subscribed: "speaks c c' \<Longrightarrow> subscribed p c \<Longrightarrow> subscribed p c'"
  by (auto simp: speaks_def subscribed_def)

lemma note_speaks: "e \<noteq> OnOpenCb \<Longrightarrow> ws_trace c' = ws_trace c @ [e] \<Longrightarrow> speaks c c'"
  by (auto simp: speaks_def)

lemma Finish_speaks: "speaks c (ws_Finish reason c)"
  by (auto simp: speaks_def ws_Finish_def ws_prims)

lemma Fail_speaks: "speaks c (ws_Fail ec stage c)"
  by (simp add: ws_Fail_def Finish_speaks)

lemma quiet_traces [simp]:
  "ws_trace (start_op op c) = ws_trace c" "ws_trace (DoRead c) = ws_trace c" "ws_trace (DoWrite c) = ws_trace c"
  "ws_trace (ArmKeepalive c) = ws_trace c" "ws_trace (StartKeepalive payload interval c) = ws_trace c"
  by (auto simp: start_op_def DoRead_def DoWrite_def ArmKeepalive_def StartKeepalive_def cancel_keepalive_def split: list.splits)

lemma Send_trace [simp]: "ws_trace (ws_Send payload c) = ws_trace c @ [Queued payload]"
  by (simp add: ws_Send_def Let_def) (simp add: note_event_def)

lemma Send_speaks: "speaks c (ws_Send payload c)"
  by (simp add: speaks_def)

lemma Close_speaks: "speaks c (ws_Close c)"
  by (simp add: ws_Close_def Finish_speaks speaks_same cancel_keepalive_def)

lemma call_speaks: "speaks c (ws_call c call)"
  by (cases call) (simp_all add: speaks_same Close_speaks Send_speaks)

lemma calls_speak: "speaks c (foldl ws_call c calls)"
proof (induction calls arbitrary: c)
  case (Cons call calls)
  from speaks_trans [OF call_speaks Cons.IH] show ?case by simp
qed (simp add: speaks_same)

lemma callback_speaks: "e \<noteq> OnOpenCb \<Longrightarrow> ws_trace c = ws_trace c0 \<Longrightarrow> speaks c0 (callback e reaction c)"
  unfolding callback_def by (rule speaks_trans [OF note_speaks calls_speak]) (simp_all add: note_event_def)

text \<open>Every completion but that of the handshake.\<close>

lemma OnRead_speaks: "speaks c (OnRead ec frame now reaction c)"
proof -
  have "speaks c (callback (OnFrameCb frame) reaction (c\<lparr>ws_last_inbound := now\<rparr>))" by (rule callback_speaks) simp_all
  from speaks_trans [OF this speaks_same, of "DoRead _"] show ?thesis by (simp add: OnRead_def Fail_speaks)
qed

lemma OnWrite_speaks: "speaks c (OnWrite ec payload c)"
proof -
  let ?c1 = "c\<lparr>ws_writing := False\<rparr>"
  have written: "ws_trace c' = ws_trace c @ [Written payload] \<Longrightarrow> speaks c c'" for c'
    by (rule note_speaks [of "Written payload"]) simp_all
  then have "ws_trace c' = ws_trace c @ [Written payload] \<Longrightarrow> speaks c (ws_Close c')" for c'
    using speaks_trans [OF _ Close_speaks] by blast
  moreover have "speaks c (ws_Fail ec stage ?c1)" for stage by (rule speaks_trans [OF speaks_same Fail_speaks]) simp
  ultimately show ?thesis using written by (simp add: OnWrite_def Let_def note_event_def)
qed

lemma OnKeepalive_speaks: "speaks c (OnKeepalive ec c)"
  by (simp add: OnKeepalive_def speaks_same speaks_trans [OF Send_speaks speaks_same])

lemma complete_speaks:
  assumes "\<not> (op = OpHandshake \<and> cp_ec cp = no_error)"
  shows "speaks c (complete cp op c)"
  using assms
  by (cases op) (auto simp: OnResolve_def OnConnect_def OnTlsHandshake_def StartWebsocketHandshake_def OnWebsocketHandshake_def
      Fail_speaks Finish_speaks OnRead_speaks OnWrite_speaks OnKeepalive_speaks speaks_same)

text \<open>The handshake's callback subscribes when it sends what there is to subscribe.\<close>

lemma calls_queue: "CallSend frame \<in> set calls \<Longrightarrow> frame \<in> set (queued (ws_trace (foldl ws_call c calls)))"
proof (induction calls arbitrary: c)
  case (Cons call calls)
  show ?case
  proof (cases "call = CallSend frame")
    case True
    then have "frame \<in> set (queued (ws_trace (ws_call c call)))" by simp
    with speaks_queued [OF calls_speak [of "ws_call c call" calls]] show ?thesis by auto
  next
    case False
    with Cons show ?thesis by simp
  qed
qed simp

lemma opened_subscribed:
  assumes "\<forall>frame\<in>set (vp_SubscribeFrames p). CallSend frame \<in> set (cp_reaction cp)" "cp_ec cp = no_error"
  shows "subscribed p (complete cp OpHandshake c)"
proof -
  let ?c = "c\<lparr>ws_state := kOpen, ws_last_inbound := cp_now cp\<rparr>"
  have "ws_trace (complete cp OpHandshake c) = ws_trace (callback OnOpenCb (cp_reaction cp) ?c)"
    using assms(2) by (simp add: OnWebsocketHandshake_def Let_def)
  with assms(1) calls_queue [of _ "cp_reaction cp"] show ?thesis by (auto simp: subscribed_def callback_def)
qed

lemma Open_unopened: "subscribed p (ws_Open url now new_ws)"
  by (auto simp: subscribed_def ws_Open_def ws_Finish_def ws_prims new_ws_def split: option.splits)

section \<open>The thread\<close>

definition last_subscribed :: "'s VenueProtocol \<Rightarrow> ('s, 'g) VenueThread \<Rightarrow> bool" where
  "last_subscribed p s \<longleftrightarrow> (vt_conns s \<noteq> [] \<longrightarrow> subscribed p (last (vt_conns s)))"

text \<open>What the runner sends when its connection opens.\<close>

lemma act_acts: "rn_acts (act a r) = rn_acts r @ [a]"
  by (simp add: act_def)

lemma sends_acts: "rn_acts (foldl (\<lambda>r frame. act (ActSend g frame) r) r frames) = rn_acts r @ map (ActSend g) frames"
  by (induction frames arbitrary: r) (simp_all add: act_acts)

lemma OnOpen_sends:
  assumes "rn_connection r = Some g" "frame \<in> set (vp_SubscribeFrames p)"
  shows "ActSend g frame \<in> set (new_acts r (runner_OnOpen p draw now r))"
proof -
  have acts: "rn_acts (opened_runner p r) = rn_acts r @ map (ActSend g) (vp_SubscribeFrames p) @
      [ActStartKeepalive g (vp_KeepaliveFrame p) (vp_keepalive_interval p)]"
    using assms(1) by (simp add: opened_runner_def act_acts sends_acts) (simp add: SetState_def)
  then have sent: "ActSend g frame \<in> set (new_acts r (opened_runner p r))" using assms(2) by simp
  have "new_acts r (FetchSnapshot p draw now (opened_runner p r)) =
      new_acts r (opened_runner p r) @ new_acts (opened_runner p r) (FetchSnapshot p draw now (opened_runner p r))"
    by (intro carries_on_acts calm_carries_on calm_opened calm_FetchSnapshot)
  with sent show ?thesis by (simp add: OnOpen_opened)
qed

lemma perform_subscribed: "last_subscribed p s \<Longrightarrow> last_subscribed p (perform now s a)"
proof -
  have called: "last_subscribed p (call_last call s)" if "last_subscribed p s" for call
    using that speaks_subscribed [OF call_speaks]
    by (auto simp: last_subscribed_def call_last_def update_conn_def last_list_update)
  show "last_subscribed p s \<Longrightarrow> last_subscribed p (perform now s a)"
    by (cases a) (simp_all add: perform_def Let_def called, simp_all add: last_subscribed_def Open_unopened)
qed

lemma performs_subscribed: "last_subscribed p s \<Longrightarrow> last_subscribed p (foldl (perform now) s acts)"
  by (induction acts arbitrary: s) (simp_all add: perform_subscribed)

lemma handle_subscribed: "last_subscribed p s \<Longrightarrow> last_subscribed p (handle p draw now e s)"
  unfolding handle_def Let_def by (rule performs_subscribed) (simp add: last_subscribed_def)

lemma complete_op_subscribed:
  assumes "thread_ok s" "last_subscribed p s" "i < length (vt_conns s)" "k < length (ws_ops (vt_conns s ! i))"
  shows "last_subscribed p (complete_op p draw i k cp recv now s)"
  using assms(3,4)
proof (rule complete_op_parts [of i s k p draw cp recv now], goal_cases)
  case (1 s1 cp' others)
  let ?op = "ws_ops (vt_conns s ! i) ! k" and ?c = "vt_conns s ! i"
  let ?taken = "?c\<lparr>ws_ops := take k (ws_ops ?c) @ drop (Suc k) (ws_ops ?c)\<rparr>"
  have "subscribed p (complete cp' ?op ?taken)" if own: "Suc i = length (vt_conns s)"
  proof (cases "?op = OpHandshake \<and> cp_ec cp = no_error")
    case True
    have g: "rn_connection (vt_runner s) = Some (generation (length (vt_conns s) - 1))"
      using assms(1) own by (auto simp: thread_ok_def)
    from True have "vt_runner s1 = runner_OnOpen p draw now (vt_runner s)" by (simp add: 1(1) op_runner_def)
    with OnOpen_sends [OF g] 1(6) [OF own] have "\<forall>frame\<in>set (vp_SubscribeFrames p). CallSend frame \<in> set (cp_reaction cp')"
      by (force simp: calls_of_def List.map_filter_def)
    from opened_subscribed [OF this] True 1(3) show ?thesis by simp
  next
    case False
    have "i = length (vt_conns s) - 1" "vt_conns s \<noteq> []" using own by auto
    then have "last (vt_conns s) = ?c" by (simp add: last_conv_nth)
    with assms(2,3) have "subscribed p ?c" by (auto simp: last_subscribed_def)
    moreover have "speaks ?c ?taken" by (simp add: speaks_same)
    ultimately show ?thesis using False 1(3) complete_speaks speaks_subscribed by metis
  qed
  moreover have "vt_conns s \<noteq> [] \<Longrightarrow> i \<noteq> length (vt_conns s) - 1 \<Longrightarrow> Suc i \<noteq> length (vt_conns s)" by auto
  ultimately have "last_subscribed p (update_conn i (complete cp' ?op ?taken) s1)"
    using assms(2) by (auto simp: 1(1) last_subscribed_def update_conn_def last_list_update)
  then show ?case unfolding 1(2) by (rule performs_subscribed)
qed

lemma step_subscribed:
  assumes "thread_ok s" "last_subscribed p s" "thread_step p draw s st = Some s'"
  shows "last_subscribed p s'"
proof -
  have handled: "vt_conns s0 = vt_conns s \<Longrightarrow> last_subscribed p (handle p draw now e s0)" for now e s0
    using assms(2) by (intro handle_subscribed) (simp add: last_subscribed_def)
  have "complete_request i report recv now s = Some s' \<Longrightarrow> vt_conns s' = vt_conns s" for i report recv now
    by (auto simp: complete_request_def Let_def split: option.splits)
  with assms handled complete_op_subscribed [OF assms(1,2)] show ?thesis
    by (cases st) (auto simp: last_subscribed_def split: if_splits list.splits)
qed

lemma run_subscribed:
  "thread_run p draw s sts = Some s' \<Longrightarrow> thread_ok s \<Longrightarrow> driven s \<Longrightarrow> last_subscribed p s \<Longrightarrow> last_subscribed p s'"
proof (induction sts arbitrary: s)
  case (Cons st sts)
  then obtain s1 where step: "thread_step p draw s st = Some s1" "thread_run p draw s1 sts = Some s'"
    by (auto split: option.splits)
  from Cons.IH [OF step(2)] thread_step_ok [OF Cons.prems(2,3) step(1)] step_subscribed [OF Cons.prems(2,4) step(1)]
  show ?case by blast
qed simp

end
