(* ===== verification/Snapshot_Stream.thy ===== *)
theory Snapshot_Stream
  imports Subscription
begin

text \<open>
  Venues that send their snapshot with the subscription of a new connection: a connection that has opened
  has been given the subscription, and once the adapter has been reset after that, the connection is on
  its way out, so that the next one brings a new snapshot. The locale \<open>stream_protocol\<close> is met by OKX
  and Bybit.
\<close>

section \<open>Resets\<close>

text \<open>The adapter has not been reset since the last connection was made.\<close>

fun reset_step :: "bool \<Rightarrow> RunnerAct \<Rightarrow> bool" where
  "reset_step fresh ActReset \<longleftrightarrow> False"
| "reset_step fresh (ActOpen g url) \<longleftrightarrow> True"
| "reset_step fresh a \<longleftrightarrow> fresh"

definition unreset :: "RunnerAct list \<Rightarrow> bool" where
  "unreset acts = foldl reset_step False acts"

lemma unreset_append: "ActReset \<notin> set acts \<Longrightarrow> unreset acts0 \<Longrightarrow> unreset (acts0 @ acts)"
proof (induction acts rule: rev_induct)
  case (snoc a acts)
  then have "foldl reset_step (foldl reset_step False acts0) acts" "a \<noteq> ActReset" by (auto simp: unreset_def)
  then show ?case by (cases a) (simp_all add: unreset_def)
qed simp

lemma unreset_split: "unreset acts \<Longrightarrow> \<exists>before g url after. acts = before @ ActOpen g url # after \<and> ActReset \<notin> set after"
proof (induction acts rule: rev_induct)
  case (snoc a acts)
  show ?case
  proof (cases "\<exists>g url. a = ActOpen g url")
    case True
    then obtain g url where "acts @ [a] = acts @ ActOpen g url # []" by blast
    then show ?thesis by (metis empty_iff empty_set)
  next
    case False
    with snoc.prems have "unreset acts" "a \<noteq> ActReset" by (cases a; simp add: unreset_def)+
    with snoc.IH obtain before g url after where "acts = before @ ActOpen g url # after" "ActReset \<notin> set after" by blast
    with \<open>a \<noteq> ActReset\<close> have "acts @ [a] = before @ ActOpen g url # (after @ [a])" "ActReset \<notin> set (after @ [a])" by auto
    then show ?thesis by blast
  qed
qed (simp add: unreset_def)

fun closes_act :: "RunnerAct \<Rightarrow> bool" where
  "closes_act (ActClose g) \<longleftrightarrow> True"
| "closes_act a \<longleftrightarrow> False"

section \<open>Connections on their way out\<close>

definition last_ending :: "('s, 'g) VenueThread \<Rightarrow> bool" where
  "last_ending s \<longleftrightarrow> vt_conns s \<noteq> [] \<and> ending (last (vt_conns s))"

lemma last_ending_same: "looks_same s s' \<Longrightarrow> last_ending s \<Longrightarrow> last_ending s'"
  by (simp add: looks_same_def last_ending_def)

lemma last_ending_advances: "last_ending s \<Longrightarrow> conns_ok s \<Longrightarrow> advances k s s' \<Longrightarrow> last_ending s'"
  unfolding last_ending_def advances_def conn_advances_def by (metis length_0_conv)

lemma perform_close:
  assumes "closes_act a" "conns_ok s" "vt_conns s \<noteq> []"
  shows "last_ending (perform now s a)"
proof -
  have "ws_core (last (vt_conns s))" using assms(2,3) by (simp add: conns_ok_def list_all_iff reach_core)
  with assms Close_ends(1) show ?thesis
    by (cases a) (simp_all add: perform_def call_last_def update_conn_def last_ending_def last_list_update)
qed

text \<open>A reaction that closes the connection leaves it ending, whatever the handler still does.\<close>

lemma reaction_ends:
  assumes "ws_core c" "CallClose \<in> set reaction"
  shows "ending (foldl ws_call c reaction)"
proof -
  obtain xs ys where r: "reaction = xs @ CallClose # ys" using split_list [OF assms(2)] by blast
  let ?c = "foldl ws_call c xs"
  have "ws_core ?c" by (rule calls_core [OF assms(1)])
  then have "ending (ws_Close ?c)" "ws_core (ws_Close ?c)" by (rule Close_ends, rule Close_core)
  with calls_advance [of "ws_Close ?c" ys] r show ?thesis by (simp add: conn_advances_def)
qed

lemma callback_ends:
  assumes "ws_core c" "CallClose \<in> set reaction" "closes [e] = 0" "queued [e] = []" "written [e] = []"
  shows "ending (callback e reaction c)"
proof -
  have "ws_core (note_event e c)" using assms by (simp add: ws_core_def note_event_def)
  from reaction_ends [OF this assms(2)] show ?thesis by (simp add: callback_def)
qed

lemma DoRead_ends: "ending c \<Longrightarrow> ending (DoRead c)"
  using DoRead_advances [of c] by (simp add: conn_advances_def)

lemma complete_ends:
  assumes "ws_inv c" "ws_ops c = xs @ op # ys" "op = OpHandshake \<or> op = OpRead" "cp_ec cp = no_error"
    and "CallClose \<in> set (cp_reaction cp)"
  shows "ending (complete cp op (c\<lparr>ws_ops := xs @ ys\<rparr>))"
proof -
  have core: "ws_core c" using assms(1) by (simp add: ws_inv_def)
  show ?thesis
  proof (cases "op = OpRead")
    case True
    have "ws_core (c\<lparr>ws_ops := xs @ ys, ws_last_inbound := cp_now cp\<rparr>)"
      using taken_chain(1) [OF core assms(2)] True by (simp add: ws_core_def)
    from DoRead_ends [OF callback_ends [OF this assms(5)]] True assms(4) show ?thesis by (simp add: OnRead_def)
  next
    case False
    with assms(3) have op: "op = OpHandshake" by simp
    let ?c = "c\<lparr>ws_ops := xs @ ys, ws_state := kOpen, ws_last_inbound := cp_now cp\<rparr>"
    note pre = taken_chain [OF core assms(2)] taken_pre [OF core assms(2)]
    obtain u where "ws_url c = Some u" using pre(2) op by auto
    with pre op have "ws_core ?c" by (simp add: ws_core_def)
    from DoRead_ends [OF callback_ends [OF this assms(5), of OnOpenCb]]
    have read: "ending (DoRead (callback OnOpenCb (cp_reaction cp) ?c))" by simp
    with DoWrite_advances [of "DoRead (callback OnOpenCb (cp_reaction cp) ?c)"] op assms(4) show ?thesis
      by (auto simp: OnWebsocketHandshake_def Let_def conn_advances_def)
  qed
qed

text \<open>
  The last connection was made after the last reset of the adapter, and once it has opened it has been
  given every subscription frame.
\<close>

definition standing_subscription :: "'s VenueProtocol \<Rightarrow> ('s, 'g) VenueThread \<Rightarrow> bool" where
  "standing_subscription p s \<longleftrightarrow>
     (\<exists>before g url after. rn_acts (vt_runner s) = before @ ActOpen g url # after \<and> ActReset \<notin> set after) \<and>
     (OnOpenCb \<in> set (ws_trace (last (vt_conns s))) \<longrightarrow>
        set (vp_SubscribeFrames p) \<subseteq> set (queued (ws_trace (last (vt_conns s)))))"

section \<open>The contract\<close>

lemma closes_call: "closes_act a \<Longrightarrow> call_of a = Some CallClose"
  by (cases a) simp_all

lemma calls_of_in: "a \<in> set acts \<Longrightarrow> call_of a = Some call \<Longrightarrow> call \<in> set (calls_of acts)"
  by (force simp: calls_of_def List.map_filter_def)

lemma close_asks: "asks closes_act r (close_connection r)"
  using calm_carries_on [OF calm_prims(2) [of r]]
  by (auto simp: asks_def attended_def) (auto simp: close_connection_def act_def new_acts_def split: option.splits)

text \<open>Only a frame or an open callback calls the runner.\<close>

lemma op_event_some:
  "op_event op cp recv now = Some e \<Longrightarrow> (op = OpHandshake \<or> op = OpRead) \<and> cp_ec cp = no_error"
  by (cases op) (auto split: if_splits)

lemma asked_op:
  assumes "list_ex P (new_acts r (op_runner p draw r (op_event op cp recv now)))"
  shows "(op = OpHandshake \<or> op = OpRead) \<and> cp_ec cp = no_error"
  using assms op_event_some [of op cp recv now] by (cases "op_event op cp recv now") (auto simp: op_runner_def new_acts_def)

lemma completed_close:
  assumes "thread_ok s" "i < length (vt_conns s)" "k < length (ws_ops (vt_conns s ! i))"
    and asked: "list_ex closes_act (new_acts (vt_runner s) (op_runner p draw (vt_runner s) (op_event (ws_ops (vt_conns s ! i) ! k) cp recv now)))"
  shows "last_ending (complete_op p draw i k cp recv now s)"
proof (cases "Suc i = length (vt_conns s)")
  case False
  show ?thesis
    by (rule completed_one [where P = closes_act and Q = last_ending, OF assms _ perform_close last_ending_advances])
      (use False in simp_all)
next
  case own: True
  from assms(2,3) show ?thesis
  proof (rule complete_op_parts [of i s k p draw cp recv now], goal_cases)
    case (1 s1 cp' others)
    let ?op = "ws_ops (vt_conns s ! i) ! k" and ?c = "vt_conns s ! i"
    let ?c' = "complete cp' ?op (?c\<lparr>ws_ops := take k (ws_ops ?c) @ drop (Suc k) (ws_ops ?c)\<rparr>)"
    have "CallClose \<in> set (calls_of (new_acts (vt_runner s) (vt_runner s1)))"
      using asked calls_of_in closes_call unfolding 1(1) by (fastforce simp: list_ex_iff)
    with 1(6) [OF own] have reaction: "CallClose \<in> set (cp_reaction cp')" by simp
    have "ws_reach ?c" using assms(1,2) by (simp add: thread_ok_def conns_ok_def list_all_length)
    then have "ending ?c'"
      using complete_ends [OF ws_reach_inv 1(5) _ _ reaction] asked_op [OF asked] 1(3) by simp
    moreover have "vt_conns s \<noteq> []" "i = length (vt_conns s) - 1" using own by auto
    ultimately have ends: "last_ending (update_conn i ?c' s1)"
      by (simp add: 1(1) last_ending_def update_conn_def last_list_update)
    have "conns_ok s1" using assms(1) 1(1) by (simp add: thread_ok_def conns_ok_def)
    with 1(8) have "conns_ok (update_conn i ?c' s1)" by (simp add: advances_def)
    with last_ending_advances [OF ends _ performs_advance [OF 1(4)]] show ?case unfolding 1(2) by blast
  qed
qed

text \<open>A new connection is made for a freshly reset adapter.\<close>

lemma connect_fresh:
  assumes "in_service r"
  shows "unreset (rn_acts (Connect p now r))"
  using Connect_acts(1) [OF assms, of p now] by (simp add: unreset_def)

locale stream_protocol =
  fixes p :: "'s VenueProtocol"
  assumes no_rest: "\<not> vp_needs_rest_snapshot p"
begin

lemma Resync_asks: "asks closes_act r (Resync p draw now r)"
  using asks_after [OF begun_carries_on close_asks] by (simp add: Resync_begun no_rest)

lemma snapshot_source_stream:
  "snapshot_source p (\<lambda>st. unreset) closes_act (last_ending :: ('s, 'g) VenueThread \<Rightarrow> bool)"
proof (unfold_locales, goal_cases)
  case (1 acts st acts0)
  then show ?case by (rule unreset_append)
next
  case (9 s s' r draw now)
  then show ?case using last_ending_advances by blast
next
  case (13 s i report recv now s')
  then show ?case by (auto simp: last_ending_def complete_request_def Let_def split: option.splits)
next
  case (14 s s' draw now)
  then show ?case using connect_fresh [OF 14(2)] by simp
qed (auto simp: Resync_asks completed_close
    intro: last_ending_same last_ending_advances perform_close, auto simp: last_ending_def)

lemma snapshot_never_forgotten:
  fixes s :: "('s, 'g) VenueThread"
  assumes "thread_run p draw (new_thread (new_runner venue_index protocol ring options seed start)) sts = Some s"
    and "vt_started s" "vt_due s = []" "\<not> rn_stopping (vt_runner s)" "\<not> vs_fatal (rn_stats (vt_runner s))"
  shows "PostConnect \<in> set (vt_posted s) \<or> waiting (vt_reconnect s) \<or>
     (vt_conns s \<noteq> [] \<and> (closing (last (vt_conns s)) \<or> standing_subscription p s))"
proof -
  note fed = snapshot_source.thread_fed [OF snapshot_source_stream assms(1,2,4,5)]
  have ok: "driven s" using thread_run_ok [OF assms(1) new_thread_ok] by simp
  have "last_subscribed p s"
    using run_subscribed [OF assms(1) new_thread_ok] by (simp add: last_subscribed_def new_thread_def)
  moreover have "vt_conns s \<noteq> [] \<Longrightarrow> ws_finished (last (vt_conns s)) \<Longrightarrow> waiting (vt_reconnect s)"
    using ok assms(3-5) by (simp add: driven_def in_service_def)
  ultimately show ?thesis using fed unreset_split [of "rn_acts (vt_runner s)"]
    by (auto simp: last_ending_def ending_def last_subscribed_def subscribed_def standing_subscription_def)
qed

end

interpretation okx_stream: stream_protocol "okx_protocol js config" for js config
  by unfold_locales (simp add: okx_protocol_def)

interpretation bybit_stream: stream_protocol "bybit_protocol js config" for js config
  by unfold_locales (simp add: bybit_protocol_def)

interpretation okx_source: snapshot_source "okx_protocol js config" "\<lambda>st. unreset" closes_act last_ending for js config
  by (rule okx_stream.snapshot_source_stream)

interpretation bybit_source: snapshot_source "bybit_protocol js config" "\<lambda>st. unreset" closes_act last_ending for js config
  by (rule bybit_stream.snapshot_source_stream)

section \<open>OKX and Bybit\<close>

text \<open>C12: the snapshot of OKX is never forgotten: whenever no handler is running in a started thread that is
  neither stopping nor permanently failed, a reconnect is armed or posted, or the current connection is
  being closed, or it was made after the adapter's last reset and, once open, has been given every
  subscription frame, which is what makes OKX send a snapshot.\<close>

theorem okx_snapshot_never_forgotten:
  assumes "thread_run (okx_protocol js config) draw
      (new_thread (new_runner venue_index protocol ring options seed start)) sts = Some s"
    and "vt_started s" "vt_due s = []" "\<not> rn_stopping (vt_runner s)" "\<not> vs_fatal (rn_stats (vt_runner s))"
  shows "PostConnect \<in> set (vt_posted s) \<or> waiting (vt_reconnect s) \<or>
     (vt_conns s \<noteq> [] \<and> (closing (last (vt_conns s)) \<or> standing_subscription (okx_protocol js config) s))"
  by (rule okx_stream.snapshot_never_forgotten [OF assms])

text \<open>The connection has opened and is subscribed.\<close>

definition run_okx_thread :: "ThreadStep list \<Rightarrow> (Okx, unit) VenueThread option" where
  "run_okx_thread sts = thread_run (okx_protocol example_okx_js default_okx_config) low_draw
     (new_thread (new_runner 1 new_okx example_ring default_runner_options () 0)) sts"

theorem okx_snapshot_never_forgotten_witness:
  "\<exists>s. run_okx_thread open_steps = Some s \<and> OnOpenCb \<in> set (ws_trace (last (vt_conns s))) \<and>
     set (okx_SubscribeFrames default_okx_config) \<subseteq> set (queued (ws_trace (last (vt_conns s))))"
proof -
  have "case run_okx_thread open_steps of None \<Rightarrow> False | Some s \<Rightarrow> vt_started s \<and> vt_due s = [] \<and>
      \<not> rn_stopping (vt_runner s) \<and> \<not> vs_fatal (rn_stats (vt_runner s)) \<and> vt_reconnect s = [] \<and> vt_posted s = [] \<and>
      \<not> closing (last (vt_conns s)) \<and> OnOpenCb \<in> set (ws_trace (last (vt_conns s)))" by code_simp
  then obtain s where s: "run_okx_thread open_steps = Some s" "vt_started s" "vt_due s = []" "\<not> rn_stopping (vt_runner s)"
      "\<not> vs_fatal (rn_stats (vt_runner s))" "vt_reconnect s = []" "vt_posted s = []"
      "\<not> closing (last (vt_conns s))" "OnOpenCb \<in> set (ws_trace (last (vt_conns s)))"
    by (auto split: option.splits)
  from okx_snapshot_never_forgotten [OF s(1) [unfolded run_okx_thread_def] s(2-5)] s
  have "standing_subscription (okx_protocol example_okx_js default_okx_config) s" by (simp add: waiting_def)
  with s show ?thesis by (simp add: standing_subscription_def okx_protocol_def)
qed

text \<open>The same for Bybit.\<close>

theorem bybit_snapshot_never_forgotten:
  assumes "thread_run (bybit_protocol js config) draw
      (new_thread (new_runner venue_index protocol ring options seed start)) sts = Some s"
    and "vt_started s" "vt_due s = []" "\<not> rn_stopping (vt_runner s)" "\<not> vs_fatal (rn_stats (vt_runner s))"
  shows "PostConnect \<in> set (vt_posted s) \<or> waiting (vt_reconnect s) \<or>
     (vt_conns s \<noteq> [] \<and> (closing (last (vt_conns s)) \<or> standing_subscription (bybit_protocol js config) s))"
  by (rule bybit_stream.snapshot_never_forgotten [OF assms])

end
