(* ===== verification/Thread_Runs.thy ===== *)
theory Thread_Runs
  imports Snapshot_Request
begin

text \<open>
  What a venue thread does is a run of each of its parts: the runner sees one sequence of events, every
  connection takes only steps of the websocket client and every request only stages of the HTTP client.
  So all that is proved of \<open>runner_run\<close>, \<open>ws_reach\<close> and \<open>http_run\<close> holds in the thread; the live
  book of Binance at the end is an instance.
\<close>

section \<open>The runner's events\<close>

lemma runner_run_snoc: "\<not> rn_io_stopped (runner_run p draw r es) \<Longrightarrow>
    runner_run p draw r (es @ [e]) = runner_handle p draw (runner_run p draw r es) e"
  by (simp add: runner_run_def runner_event_def)

text \<open>Only the posted stop stops the context.\<close>

lemma Connect_io [simp]: "rn_io_stopped (Connect p now r) = rn_io_stopped r"
  by (simp add: Connect_def reset_protocol_def ArmWatchdog_def act_def SetState_def Let_def)

lemma handle_io:
  assumes "e \<noteq> EvStopPosted"
  shows "rn_io_stopped (runner_handle p draw r e) = rn_io_stopped r"
proof (cases "quiet_event e")
  case True
  then show ?thesis using quiet_handle [of e r p draw] by (simp add: quiet_def)
next
  case False
  with assms show ?thesis by (cases e) (simp_all add: on_reconnect_timer_def request_stop_def)
qed

lemma stopped_run:
  assumes "rn_io_stopped (runner_run p draw r es)" "\<not> rn_io_stopped r" "list_all P es"
  shows "\<exists>es0. list_all P es0 \<and> \<not> rn_io_stopped (runner_run p draw r es0) \<and>
     runner_run p draw r es = perform_stop (runner_run p draw r es0)"
  using assms
proof (induction es rule: rev_induct)
  case (snoc e es)
  show ?case
  proof (cases "rn_io_stopped (runner_run p draw r es)")
    case True
    then have "runner_run p draw r (es @ [e]) = runner_run p draw r es" by (simp add: runner_run_def runner_event_def)
    with snoc True show ?thesis by simp
  next
    case False
    note run = runner_run_snoc [OF False, of e]
    with snoc.prems(1) False handle_io [of e p draw "runner_run p draw r es"] have "e = EvStopPosted" by auto
    with False run snoc.prems(3) show ?thesis by auto
  qed
qed (simp add: runner_run_def)

text \<open>A close callback that the posted stop itself has caused comes before the context stops.\<close>

lemma closed_before_stop:
  assumes "rn_stopping r"
  shows "on_close_callback draw g (perform_stop r) = perform_stop (on_close_callback draw g r)"
  using assms
  by (simp add: on_close_callback_def runner_OnClose_def perform_stop_def close_connection_def SetState_def act_def Let_def
      split: option.splits)

section \<open>Tracing a thread\<close>

text \<open>What the peers send in a step.\<close>

fun step_brings :: "(VenueInput \<Rightarrow> bool) \<Rightarrow> ThreadStep \<Rightarrow> bool" where
  "step_brings Q (StWs i k cp recv now) = Q (WsFrame (cp_frame cp) recv)"
| "step_brings Q (StHttp i report recv now) = Q (RestBody (hr_body report) recv)"
| "step_brings Q st = True"

fun is_closed :: "RunnerEvent \<Rightarrow> bool" where
  "is_closed (EvClosed g) \<longleftrightarrow> True"
| "is_closed e \<longleftrightarrow> False"

definition traced ::
  "'s VenueProtocol \<Rightarrow> ('g \<Rightarrow> int \<Rightarrow> int \<Rightarrow> int \<times> 'g) \<Rightarrow> (VenueInput \<Rightarrow> bool) \<Rightarrow> ('s, 'g) VenueRunner \<Rightarrow>
     ('s, 'g) VenueThread \<Rightarrow> bool" where
  "traced p draw Q r s \<longleftrightarrow>
     (\<exists>es. list_all (event_brings Q) es \<and> vt_runner s = runner_run p draw r es) \<and>
     list_all (event_brings Q) (vt_due s) \<and>
     (rn_io_stopped (vt_runner s) \<longrightarrow> rn_stopping (vt_runner s) \<and> list_all is_closed (vt_due s))"

lemma is_closed_brings: "is_closed e \<Longrightarrow> event_brings Q e"
  by (cases e) simp_all

lemma close_callbacks_closed [simp]: "list_all is_closed (close_callbacks i c c')" "list_all (event_brings Q) (close_callbacks i c c')"
  by (simp_all add: close_callbacks_def list_all_iff)

lemma HttpGet_failed: "list_all (event_brings Q) (answers recv now (hs_calls (HttpGet url)))"
  by (simp add: answers_def HttpGet_def http_Run_def http_start_def Let_def split: option.splits)

lemma perform_brings: "list_all (event_brings Q) (vt_due s) \<Longrightarrow> list_all (event_brings Q) (vt_due (perform now s a))"
  by (cases a) (simp_all add: perform_def Let_def call_last_def update_conn_def HttpGet_failed)

lemma performs_brings:
  "list_all (event_brings Q) (vt_due s) \<Longrightarrow> list_all (event_brings Q) (vt_due (foldl (perform now) s acts))"
  by (induction acts arbitrary: s) (simp_all add: perform_brings)

lemma run_on:
  assumes "\<exists>es. list_all (event_brings Q) es \<and> r' = runner_run p draw r es" "\<not> rn_io_stopped r'" "event_brings Q e"
  shows "\<exists>es. list_all (event_brings Q) es \<and> runner_handle p draw r' e = runner_run p draw r es"
proof -
  obtain es where es: "list_all (event_brings Q) es" "r' = runner_run p draw r es" using assms(1) by blast
  with runner_run_snoc [of p draw r es e] assms(2,3) show ?thesis by (intro exI [of _ "es @ [e]"]) simp
qed

lemma handle_traced:
  assumes "traced p draw Q r s" "\<not> rn_io_stopped (vt_runner s)" "event_brings Q e" "e \<noteq> EvStopPosted"
    and s0: "vt_runner s0 = vt_runner s" "set (vt_due s0) \<subseteq> set (vt_due s)"
  shows "traced p draw Q r (handle p draw now e s0)"
proof -
  have due: "list_all (event_brings Q) (vt_due s0)" using assms(1) s0(2) by (auto simp: traced_def list_all_iff)
  have "list_all (event_brings Q) (vt_due (handle p draw now e s0))"
    unfolding handle_def Let_def by (rule performs_brings) (simp add: due)
  with assms run_on [of Q "vt_runner s" p draw r e] show ?thesis by (simp add: traced_def handle_io)
qed

lemma due_traced:
  assumes "traced p draw Q r s" "\<not> rn_io_stopped r" "vt_due s = e # es" "is_callback e"
  shows "traced p draw Q r (handle p draw now e (s\<lparr>vt_due := es\<rparr>))"
proof (cases "rn_io_stopped (vt_runner s)")
  case False
  have "event_brings Q e" "e \<noteq> EvStopPosted" using assms(1,3,4) by (auto simp: traced_def)
  with assms(3) show ?thesis by (intro handle_traced [OF assms(1) False]) auto
next
  case True
  then obtain g where g: "e = EvClosed g" and stop: "rn_stopping (vt_runner s)" and rest: "list_all is_closed es"
    using assms(1,3) by (cases e) (auto simp: traced_def)
  obtain es1 where "list_all (event_brings Q) es1" "vt_runner s = runner_run p draw r es1" using assms(1) by (auto simp: traced_def)
  with stopped_run [OF _ assms(2), of p draw es1] True obtain es0 where es0: "list_all (event_brings Q) es0"
      "\<not> rn_io_stopped (runner_run p draw r es0)" "vt_runner s = perform_stop (runner_run p draw r es0)" by auto
  let ?r0 = "runner_run p draw r es0"
  have r0: "rn_stopping ?r0" using stop es0(3) by simp
  have r1: "runner_run p draw r (es0 @ [EvClosed g]) = on_close_callback draw g ?r0" using runner_run_snoc [OF es0(2)] by simp
  moreover have "\<not> rn_io_stopped (runner_run p draw r (es0 @ [EvClosed g]))"
    using handle_io [of "EvClosed g" p draw ?r0] es0(2) r1 by simp
  ultimately have run: "on_close_callback draw g (vt_runner s) = runner_run p draw r ((es0 @ [EvClosed g]) @ [EvStopPosted])"
    using runner_run_snoc [of p draw r "es0 @ [EvClosed g]" EvStopPosted] closed_before_stop [OF r0] es0(3) by simp
  have quiet: "quiet (vt_runner s) (on_close_callback draw g (vt_runner s))"
    using quiet_handle [of "EvClosed g" "vt_runner s" p draw] by simp
  have "rn_acts (on_close_callback draw g (vt_runner s)) = rn_acts (vt_runner s)"
    using stop by (simp add: on_close_callback_def runner_OnClose_def SetState_def Let_def)
  then have "handle p draw now e (s\<lparr>vt_due := es\<rparr>) = s\<lparr>vt_due := es, vt_runner := on_close_callback draw g (vt_runner s)\<rparr>"
    by (simp add: handle_def g new_acts_def)
  moreover have "list_all (event_brings Q) ((es0 @ [EvClosed g]) @ [EvStopPosted])" using es0(1) by simp
  with run have "\<exists>es. list_all (event_brings Q) es \<and> on_close_callback draw g (vt_runner s) = runner_run p draw r es" by blast
  moreover have "list_all (event_brings Q) es" using assms(1,3) by (simp add: traced_def)
  ultimately show ?thesis using rest stop quiet by (simp add: traced_def quiet_def)
qed

lemma stop_traced:
  assumes "traced p draw Q r s" "thread_ok s" "runnable s" "PostStop \<in> set (vt_posted s)"
  shows "traced p draw Q r (handle p draw now EvStopPosted (s\<lparr>vt_posted := posted\<rparr>))"
proof -
  let ?s' = "handle p draw now EvStopPosted (s\<lparr>vt_posted := posted\<rparr>)"
  have stop: "rn_stopping (vt_runner s)" using assms(2,4) by (simp add: thread_ok_def)
  have "list_all is_closed (vt_due ?s')"
    using assms(3) by (cases "rn_connection (vt_runner s)")
      (simp_all add: handle_def runnable_def new_acts_append [OF perform_stop_acts] perform_def call_last_def update_conn_def Let_def)
  moreover from this have "list_all (event_brings Q) (vt_due ?s')" using is_closed_brings by (auto simp: list_all_iff)
  moreover have "\<exists>es. list_all (event_brings Q) es \<and> vt_runner ?s' = runner_run p draw r es"
    using run_on [of Q "vt_runner s" p draw r EvStopPosted] assms(1,3) by (simp add: traced_def runnable_def)
  ultimately show ?thesis using stop by (simp add: traced_def)
qed

lemma op_event_brings: "op_event op cp recv now = Some e \<Longrightarrow> Q (WsFrame (cp_frame cp) recv) \<Longrightarrow> event_brings Q e"
  by (cases op) (auto split: if_splits)

lemma complete_op_traced:
  assumes "traced p draw Q r s" "runnable s" "Q (WsFrame (cp_frame cp) recv)"
  shows "traced p draw Q r (complete_op p draw i k cp recv now s)"
proof -
  let ?s' = "complete_op p draw i k cp recv now s" and ?e = "op_event (ws_ops (vt_conns s ! i) ! k) cp recv now"
  have run: "\<not> rn_io_stopped (vt_runner s)" using assms(2) by (simp add: runnable_def)
  have runner: "vt_runner ?s' = op_runner p draw (vt_runner s) ?e"
    by (simp add: complete_op_def Let_def update_conn_def op_runner_def)
  have "list_all (event_brings Q) (vt_due ?s')"
    unfolding complete_op_def Let_def using assms(1) by (intro performs_brings) (simp add: update_conn_def traced_def)
  moreover have "\<exists>es. list_all (event_brings Q) es \<and> op_runner p draw (vt_runner s) ?e = runner_run p draw r es"
    using assms(1) run_on [of Q "vt_runner s" p draw r] run op_event_brings [of _ cp recv now _ Q] assms(3)
    by (cases ?e) (auto simp: traced_def op_runner_def)
  moreover have "rn_io_stopped (op_runner p draw (vt_runner s) ?e) = rn_io_stopped (vt_runner s)"
    using op_runner_quiet [of "vt_runner s" p draw] by (simp add: quiet_def)
  ultimately show ?thesis using run by (simp add: traced_def runner)
qed

lemma completed_calls:
  "list_all (\<lambda>(ok, body, error). ok \<longrightarrow> body = hr_body report)
     (drop (length (hs_calls q)) (hs_calls (http_completed op report (q\<lparr>hs_op := None\<rparr>))))"
  by (cases op; cases "hr_ec report = no_error") (auto simp: http_handlers)

lemma complete_request_traced:
  assumes "traced p draw Q r s" "runnable s" "Q (RestBody (hr_body report) recv)"
    and "complete_request i report recv now s = Some s'"
  shows "traced p draw Q r s'"
proof -
  let ?q = "vt_requests s ! i"
  obtain op where op: "hs_op ?q = Some op" using assms(4) by (auto simp: complete_request_def Let_def split: option.splits)
  have "list_all (event_brings Q) (answers recv now (drop (length (hs_calls ?q)) (hs_calls (http_completed op report (?q\<lparr>hs_op := None\<rparr>)))))"
    using completed_calls [of report ?q op] assms(3) by (auto simp: answers_def list_all_iff)
  with assms op show ?thesis by (auto simp: complete_request_def Let_def traced_def runnable_def)
qed

lemma step_traced:
  assumes "traced p draw Q r s" "thread_ok s" "\<not> rn_io_stopped r" "step_brings Q st" "thread_step p draw s st = Some s'"
  shows "traced p draw Q r s'"
proof (cases st)
  case StStart
  with assms(1,5) show ?thesis by (auto simp: traced_def split: if_splits)
next
  case StStop
  show ?thesis
  proof (cases "rn_io_stopped (vt_runner s)")
    case True
    with assms(1,5) StStop show ?thesis by (auto simp: traced_def)
  next
    case False
    have "\<exists>es. list_all (event_brings Q) es \<and> request_stop (vt_runner s) = runner_run p draw r es"
      using run_on [of Q "vt_runner s" p draw r EvStop] assms(1) False by (simp add: traced_def)
    moreover have "\<not> rn_io_stopped (request_stop (vt_runner s))" using False by (simp add: request_stop_def)
    ultimately show ?thesis using assms(1,5) StStop by (cases "rn_stopping (vt_runner s)") (auto simp: traced_def)
  qed
next
  case StDue
  with assms(2,5) show ?thesis by (auto simp: thread_ok_def split: list.splits intro: due_traced [OF assms(1,3)])
next
  case (StPosted k now)
  then have st: "runnable s" "k < length (vt_posted s)"
      "s' = handle p draw now (posted_event (vt_posted s ! k) now) (s\<lparr>vt_posted := remove_nth k (vt_posted s)\<rparr>)"
    using assms(5) by (auto split: if_splits)
  then have run: "\<not> rn_io_stopped (vt_runner s)" by (simp add: runnable_def)
  show ?thesis
  proof (cases "vt_posted s ! k")
    case PostConnect
    then show ?thesis unfolding st(3) by (intro handle_traced [OF assms(1) run]) simp_all
  next
    case PostStop
    then have "PostStop \<in> set (vt_posted s)" using nth_mem [OF st(2)] by simp
    from stop_traced [OF assms(1,2) st(1) this] PostStop show ?thesis by (simp add: st(3))
  qed
next
  case (StWs i k cp recv now)
  with assms(4,5) complete_op_traced [OF assms(1)] show ?thesis by (auto split: if_splits)
next
  case (StHttp i report recv now)
  with assms(4,5) complete_request_traced [OF assms(1)] show ?thesis by (auto split: if_splits)
next
  case (StReconnect k ec now)
  with assms(5) show ?thesis by (auto simp: runnable_def split: if_splits intro!: handle_traced [OF assms(1)])
next
  case (StWatchdog k ec now)
  with assms(5) show ?thesis by (auto simp: runnable_def split: if_splits intro!: handle_traced [OF assms(1)])
qed

section \<open>The requests\<close>

definition at_stage :: "HttpSession \<Rightarrow> bool" where
  "at_stage q \<longleftrightarrow> (\<exists>url rs. q = http_run (HttpGet url) rs)"

lemma http_run_snoc:
  "hs_op (http_run q rs) = Some op \<Longrightarrow> http_run q (rs @ [r]) = http_completed op r ((http_run q rs)\<lparr>hs_op := None\<rparr>)"
  by (induction q rs rule: http_run.induct) (auto split: option.splits)

interpretation stages: request_invariant at_stage
proof
  show "at_stage (HttpGet url)" for url
    unfolding at_stage_def by (rule exI [of _ url], rule exI [of _ "[]"]) simp
  show "at_stage (http_completed op report (q\<lparr>hs_op := None\<rparr>))" if "at_stage q" "hs_op q = Some op" for q op report
    using that http_run_snoc unfolding at_stage_def by metis
qed

lemma run_traced:
  "thread_run p draw s sts = Some s' \<Longrightarrow> list_all (step_brings Q) sts \<Longrightarrow> \<not> rn_io_stopped r \<Longrightarrow> thread_ok s \<Longrightarrow> driven s \<Longrightarrow>
     traced p draw Q r s \<Longrightarrow> traced p draw Q r s'"
proof (induction sts arbitrary: s)
  case (Cons st sts)
  then obtain s1 where step: "thread_step p draw s st = Some s1" "thread_run p draw s1 sts = Some s'"
    by (auto split: option.splits)
  have "step_brings Q st" "list_all (step_brings Q) sts" using Cons.prems(2) by simp_all
  with Cons.IH [OF step(2)] thread_step_ok [OF Cons.prems(4,5) step(1)]
    step_traced [OF Cons.prems(6,4,3) _ step(1)] Cons.prems(3) show ?case by blast
qed simp

section \<open>Properties\<close>

lemma thread_traced:
  assumes "thread_run p draw (new_thread (new_runner venue_index protocol ring options seed start)) sts = Some s"
    and "list_all (step_brings Q) sts"
  defines "r \<equiv> new_runner venue_index protocol ring options seed start"
  shows "traced p draw Q r s"
proof -
  have "\<not> rn_io_stopped r" by (simp add: r_def new_runner_def)
  moreover have "\<exists>es. list_all (event_brings Q) es \<and> r = runner_run p draw r es"
    by (rule exI [of _ "[]"]) (simp add: runner_run_def)
  ultimately have "traced p draw Q r (new_thread r)" by (simp add: traced_def new_thread_def)
  with run_traced [OF assms(1,2) _ new_thread_ok] \<open>\<not> rn_io_stopped r\<close> show ?thesis by (simp add: r_def)
qed


text \<open>
  So the live book of Binance holds for the thread: frames read from its connections, bodies answered to
  its requests, and every reconnect, retry and timeout between them.
\<close>

theorem binance_thread_book:
  assumes "thread_run (binance_protocol js config) draw
      (new_thread (new_runner venue_index new_binance ring options seed start)) sts = Some s"
    and "list_all (step_brings (binance_faithful js B)) sts"
    and "vs_state (rn_stats (vt_runner s)) = kLive" "\<not> vs_fatal (rn_stats (vt_runner s))"
  shows "book_depth (foldl ApplyFeedUpdate empty_book (pushed_updates (rn_acts (vt_runner s)))) =
     B (bn_last_update_id (rn_protocol (vt_runner s)))"
proof -
  obtain es where "list_all (event_brings (binance_faithful js B)) es"
      "vt_runner s = runner_run (binance_protocol js config) draw (new_runner venue_index new_binance ring options seed start) es"
    using thread_traced [OF assms(1,2)] by (auto simp: traced_def)
  from binance_run_book [OF this assms(3,4)] show ?thesis .
qed

section \<open>Runs\<close>

lemma sync_steps_faithful: "list_all (step_brings (binance_faithful example_js example_book)) sync_steps"
  using example_binance_faithful
  by (simp add: sync_steps_def open_steps_def heard_def snapshot_report_def example_binance_inputs_def
      numeral_eq_Suc del: binance_faithful.simps)


theorem binance_thread_book_witness:
  "\<exists>s. run_thread sync_steps = Some s \<and> length (pushed_updates (rn_acts (vt_runner s))) = 2 \<and>
     book_depth (foldl ApplyFeedUpdate empty_book (pushed_updates (rn_acts (vt_runner s)))) = example_book 5"
proof -
  have "case run_thread sync_steps of None \<Rightarrow> False | Some s \<Rightarrow> vs_state (rn_stats (vt_runner s)) = kLive \<and>
      \<not> vs_fatal (rn_stats (vt_runner s)) \<and> bn_last_update_id (rn_protocol (vt_runner s)) = 5 \<and>
      length (pushed_updates (rn_acts (vt_runner s))) = 2" by code_simp
  then obtain s where s: "run_thread sync_steps = Some s" "vs_state (rn_stats (vt_runner s)) = kLive"
      "\<not> vs_fatal (rn_stats (vt_runner s))" "bn_last_update_id (rn_protocol (vt_runner s)) = 5"
      "length (pushed_updates (rn_acts (vt_runner s))) = 2"
    by (auto split: option.splits)
  from binance_thread_book [OF s(1) [unfolded run_thread_def] sync_steps_faithful s(2,3)] s show ?thesis by simp
qed

end
