(* ===== verification/Flags.thy ===== *)
theory Flags
  imports Venue "HOL-Library.Char_ord" "HOL-Library.List_Lexorder"
begin

text \<open>
  Command-line flags (\<^verbatim>\<open>src/common/flags.h\<close>). \<^verbatim>\<open>values_\<close> is a \<^verbatim>\<open>std::map\<close>: an association
  list in the order of its keys. A failure prints a message and ends the process with status 2, so an
  operation that may fail returns the message as \<open>Inl\<close>.
\<close>

section \<open>Data\<close>

type_synonym FlagValues = "(string \<times> string) list"

type_synonym 'a flag_result = "string + 'a"

text \<open>Assignment to \<^verbatim>\<open>values_[key]\<close>.\<close>

fun set_value :: "string \<Rightarrow> string \<Rightarrow> FlagValues \<Rightarrow> FlagValues" where
  "set_value key value [] = [(key, value)]"
| "set_value key value ((k, v) # kvs) =
     (if key = k then (k, value) # kvs
      else if key < k then (key, value) # (k, v) # kvs
      else (k, v) # set_value key value kvs)"

section \<open>Operations\<close>

text \<open>The argument without its dashes, split at its first equals sign.\<close>

definition parse_argument :: "string \<Rightarrow> FlagValues \<Rightarrow> FlagValues" where
  "parse_argument argument values =
     (if CHR ''='' \<notin> set argument then set_value argument ''true'' values
      else set_value (takeWhile (\<lambda>c. c \<noteq> CHR ''='') argument)
             (tl (dropWhile (\<lambda>c. c \<noteq> CHR ''='') argument)) values)"

fun parse_arguments :: "string list \<Rightarrow> FlagValues \<Rightarrow> FlagValues flag_result" where
  "parse_arguments [] values = Inr values"
| "parse_arguments (argument # arguments) values =
     (if take 2 argument \<noteq> ''--''
      then Inl (''unexpected argument '' @ [CHR 0x27] @ argument @ [CHR 0x27] @
                ''; flags take the form --key=value, not --key value'')
      else parse_arguments arguments (parse_argument (drop 2 argument) values))"

text \<open>The constructor: \<open>argv\<close> starts with the program's name.\<close>

definition new_flags :: "string list \<Rightarrow> FlagValues flag_result" where
  "new_flags argv = parse_arguments (tl argv) []"

definition unknown_message :: "string list \<Rightarrow> string \<Rightarrow> string" where
  "unknown_message known key =
     ''unknown flag --'' @ key @ [CHR 0x0A] @ ''valid flags are:'' @
     concat (map (\<lambda>candidate. [CHR 0x0A] @ ''  --'' @ candidate) known)"

fun RequireKnown :: "string list \<Rightarrow> FlagValues \<Rightarrow> unit flag_result" where
  "RequireKnown known [] = Inr ()"
| "RequireKnown known ((key, value) # rest) =
     (if key \<notin> set known then Inl (unknown_message known key) else RequireKnown known rest)"

definition Get :: "FlagValues \<Rightarrow> string \<Rightarrow> string \<Rightarrow> string" where
  "Get values key fallback = (case map_of values key of None \<Rightarrow> fallback | Some text \<Rightarrow> text)"

definition Has :: "FlagValues \<Rightarrow> string \<Rightarrow> bool" where
  "Has values key \<longleftrightarrow> map_of values key \<noteq> None"

text \<open>
  \<^verbatim>\<open>std::from_chars\<close> for \<^verbatim>\<open>int\<close> in base 10: an optional minus sign and as many digits as there are, no
  sign or space otherwise; the value and the text that follows, or nothing when there is no digit or
  the value does not fit 32 bits.
\<close>

definition from_chars_int :: "string \<Rightarrow> (int \<times> string) option" where
  "from_chars_int text =
     (let negative = (text \<noteq> [] \<and> hd text = CHR ''-'');
          body = (if negative then tl text else text);
          digits = takeWhile is_digit body;
          value = (if negative then - dec_val 0 digits else dec_val 0 digits)
      in if digits = [] then None
         else if value < - (2 ^ 31) \<or> value > 2 ^ 31 - 1 then None
         else Some (value, drop (length digits) body))"

definition GetInt :: "FlagValues \<Rightarrow> string \<Rightarrow> int \<Rightarrow> int flag_result" where
  "GetInt values key fallback =
     (case map_of values key of
        None \<Rightarrow> Inr fallback
      | Some text \<Rightarrow>
          (case from_chars_int text of
             Some (parsed, []) \<Rightarrow> Inr parsed
           | _ \<Rightarrow> Inl (''--'' @ key @ '' expects an integer, got '' @ [CHR 0x27] @ text @ [CHR 0x27])))"

definition GetIntIn :: "FlagValues \<Rightarrow> string \<Rightarrow> int \<Rightarrow> int \<Rightarrow> int \<Rightarrow> int flag_result" where
  "GetIntIn values key fallback minimum maximum =
     (case GetInt values key fallback of
        Inl message \<Rightarrow> Inl message
      | Inr value \<Rightarrow>
          if value < minimum \<or> value > maximum
          then Inl (''--'' @ key @ '' expects a value between '' @ int_to_string minimum @ '' and '' @
                    int_to_string maximum @ '', got '' @ int_to_string value)
          else Inr value)"

definition GetBool :: "FlagValues \<Rightarrow> string \<Rightarrow> bool \<Rightarrow> bool flag_result" where
  "GetBool values key fallback =
     (case map_of values key of
        None \<Rightarrow> Inr fallback
      | Some text \<Rightarrow>
          if text = ''true'' \<or> text = ''1'' \<or> text = ''yes'' then Inr True
          else if text = ''false'' \<or> text = ''0'' \<or> text = ''no'' then Inr False
          else Inl (''--'' @ key @ '' expects a boolean, got '' @ [CHR 0x27] @ text @ [CHR 0x27]))"

section \<open>The values\<close>

lemma set_value_map: "sorted_wrt (<) (map fst kvs) \<Longrightarrow> map_of (set_value key v kvs) = (map_of kvs)(key \<mapsto> v)"
  by (induction kvs) (auto simp: fun_eq_iff)

lemma set_value_keys: "fst ` set (set_value key v kvs) = insert key (fst ` set kvs)"
proof (induction kvs)
  case (Cons kv kvs)
  then show ?case by (cases kv) (simp add: insert_commute)
qed simp

lemma set_value_sorted: "sorted_wrt (<) (map fst kvs) \<Longrightarrow> sorted_wrt (<) (map fst (set_value key v kvs))"
proof (induction kvs)
  case (Cons kv kvs)
  obtain k w where kv: "kv = (k, w)" by (cases kv)
  have "\<forall>x\<in>fst ` set (set_value key v kvs). k < x" if "k < key"
    using Cons.prems that by (auto simp: kv set_value_keys)
  with Cons show ?case by (auto simp: kv not_less_iff_gr_or_eq)
qed simp

text \<open>What an argument says: the flag it names and the value it gives.\<close>

definition flag_of :: "string \<Rightarrow> string \<times> string" where
  "flag_of argument =
     (let body = drop 2 argument
      in if CHR ''='' \<notin> set body then (body, ''true'')
         else (takeWhile (\<lambda>c. c \<noteq> CHR ''='') body, tl (dropWhile (\<lambda>c. c \<noteq> CHR ''='') body)))"

lemma parse_argument_map:
  assumes "sorted_wrt (<) (map fst kvs)"
  shows "map_of (parse_argument (drop 2 argument) kvs) = map_of (flag_of argument # kvs)"
    "sorted_wrt (<) (map fst (parse_argument (drop 2 argument) kvs))"
  by (simp_all add: parse_argument_def flag_of_def Let_def set_value_map [OF assms] set_value_sorted [OF assms])

lemma parse_arguments_ok:
  assumes "list_all (\<lambda>argument. take 2 argument = ''--'') arguments" "sorted_wrt (<) (map fst kvs)"
  shows "\<exists>kvs'. parse_arguments arguments kvs = Inr kvs' \<and> sorted_wrt (<) (map fst kvs') \<and>
     map_of kvs' = map_of (rev (map flag_of arguments) @ kvs)"
  using assms
proof (induction arguments arbitrary: kvs)
  case (Cons argument arguments)
  note step = parse_argument_map [OF Cons.prems(2), of argument]
  from Cons.IH [OF _ step(2)] Cons.prems(1) obtain kvs' where
    "parse_arguments arguments (parse_argument (drop 2 argument) kvs) = Inr kvs'" "sorted_wrt (<) (map fst kvs')"
    "map_of kvs' = map_of (rev (map flag_of arguments) @ parse_argument (drop 2 argument) kvs)" by auto
  with Cons.prems(1) step(1) show ?case by (auto simp: map_add_def)
qed simp

text \<open>The last argument that names a flag gives its value; one that names none is refused.\<close>

lemma new_flags_last_wins:
  "new_flags (name # arguments) = Inr flags \<Longrightarrow> map_of flags = map_of (rev (map flag_of arguments))"
  "(\<exists>flags. new_flags (name # arguments) = Inr flags) \<longleftrightarrow> list_all (\<lambda>argument. take 2 argument = ''--'') arguments"
proof -
  have bad: "\<exists>m. parse_arguments arguments kvs = Inl m"
    if "\<not> list_all (\<lambda>argument. take 2 argument = ''--'') arguments" for kvs arguments
    using that by (induction arguments arbitrary: kvs) auto
  show all: "(\<exists>flags. new_flags (name # arguments) = Inr flags) \<longleftrightarrow>
      list_all (\<lambda>argument. take 2 argument = ''--'') arguments"
    using bad [of arguments "[]"] parse_arguments_ok [of arguments "[]"]
    by (cases "list_all (\<lambda>argument. take 2 argument = ''--'') arguments") (auto simp: new_flags_def)
  assume "new_flags (name # arguments) = Inr flags"
  moreover from this have "list_all (\<lambda>argument. take 2 argument = ''--'') arguments" using all by blast
  ultimately show "map_of flags = map_of (rev (map flag_of arguments))"
    using parse_arguments_ok [of arguments "[]"] by (auto simp: new_flags_def)
qed

lemma RequireKnown_iff: "RequireKnown known kvs = Inr () \<longleftrightarrow> fst ` set kvs \<subseteq> set known"
  by (induction known kvs rule: RequireKnown.induct) auto

section \<open>Integers\<close>

lemma from_chars_all:
  "from_chars_int str = Some (v, []) \<longleftrightarrow>
     (\<exists>negative digits. str = (if negative then ''-'' else []) @ digits \<and> digits \<noteq> [] \<and> list_all is_digit digits \<and>
        v = (if negative then - dec_val 0 digits else dec_val 0 digits) \<and> - (2 ^ 31) \<le> v \<and> v \<le> 2 ^ 31 - 1)"
proof -
  have minus: "\<not> is_digit CHR ''-''" by code_simp
  have all: "drop (length (takeWhile is_digit xs)) xs = [] \<longleftrightarrow> list_all is_digit xs" for xs
    using takeWhile_eq_all_conv [of is_digit xs] dropWhile_eq_drop [of is_digit xs] dropWhile_eq_Nil_conv [of is_digit xs]
    by (auto simp: list_all_iff)
  have whole: "list_all is_digit xs \<Longrightarrow> takeWhile is_digit xs = xs" for xs
    by (simp add: list_all_iff)
  show ?thesis
  proof (cases "str \<noteq> [] \<and> hd str = CHR ''-''")
    case True
    then obtain body where shape: "str = CHR ''-'' # body" by (cases str) auto
    then have "from_chars_int str = Some (v, []) \<longleftrightarrow>
        body \<noteq> [] \<and> list_all is_digit body \<and> v = - dec_val 0 body \<and> - (2 ^ 31) \<le> v \<and> v \<le> 2 ^ 31 - 1"
      using all [of body] by (cases "list_all is_digit body") (auto simp: from_chars_int_def Let_def whole)
    with shape minus show ?thesis by (auto split: if_splits intro: exI [of _ True])
  next
    case False
    then have "from_chars_int str = Some (v, []) \<longleftrightarrow>
        str \<noteq> [] \<and> list_all is_digit str \<and> v = dec_val 0 str \<and> - (2 ^ 31) \<le> v \<and> v \<le> 2 ^ 31 - 1"
      using all [of str] by (cases "list_all is_digit str") (auto simp: from_chars_int_def Let_def whole)
    with False show ?thesis by (auto split: if_splits intro: exI [of _ False])
  qed
qed

section \<open>Properties\<close>

text \<open>A flag with a range is either absent, and then has its default, or is a whole decimal number
  that fits 32 bits; in both cases the result lies in the range. Everything else (a bare flag, trailing
  characters, a sign without digits, a number that does not fit, one outside the range) ends the
  process with a message: nothing is read as zero and nothing wraps.\<close>

theorem GetIntIn_iff:
  "GetIntIn kvs key fallback minimum maximum = Inr v \<longleftrightarrow>
     minimum \<le> v \<and> v \<le> maximum \<and>
     (case map_of kvs key of
        None \<Rightarrow> v = fallback
      | Some given \<Rightarrow>
          \<exists>negative digits. given = (if negative then ''-'' else []) @ digits \<and> digits \<noteq> [] \<and> list_all is_digit digits \<and>
            v = (if negative then - dec_val 0 digits else dec_val 0 digits) \<and> - (2 ^ 31) \<le> v \<and> v \<le> 2 ^ 31 - 1)"
proof (cases "map_of kvs key")
  case None
  then show ?thesis by (auto simp: GetIntIn_def GetInt_def)
next
  case (Some given)
  have "GetInt kvs key fallback = Inr w \<longleftrightarrow> from_chars_int given = Some (w, [])" for w
    using Some by (auto simp: GetInt_def split: option.splits list.splits)
  from this [of v] have "GetIntIn kvs key fallback minimum maximum = Inr v \<longleftrightarrow>
      minimum \<le> v \<and> v \<le> maximum \<and> from_chars_int given = Some (v, [])"
    by (cases "GetInt kvs key fallback") (auto simp: GetIntIn_def)
  with Some show ?thesis by (simp add: from_chars_all)
qed

end
