(* ===== verification/Aggregator_Main.thy ===== *)
theory Aggregator_Main
  imports Flags Pipeline
begin

text \<open>
  The aggregator's \<^verbatim>\<open>main\<close> (\<^verbatim>\<open>src/aggregator/main.cc\<close>) up to the point where the server starts; the theory
  \<open>System\<close> has the rest. The command line is checked, the selected venues are built, each with its ring
  and its runner, and the engine is configured over them. A failure prints a message and ends the process with status 2, whether it
  comes from the flags or from \<^verbatim>\<open>BuildVenues\<close>; it is \<open>Inl\<close> here.
\<close>

section \<open>Data\<close>

text \<open>A protocol object is named by its class and its configuration.\<close>

datatype BuiltProtocol =
    BinanceProtocol BinanceConfig
  | OkxProtocol OkxConfig
  | BybitProtocol BybitConfig

record BuiltVenue =
  bv_index :: nat
  bv_protocol :: BuiltProtocol
  bv_ring :: FeedRing
  bv_options :: RunnerOptions

record Server =
  sv_listen :: string
  sv_venues :: "BuiltVenue list"
  sv_engine :: Engine

datatype MainResult = PrintHelp string | Fail string | Serve Server

section \<open>Operations\<close>

definition and_then :: "'a flag_result \<Rightarrow> ('a \<Rightarrow> 'b flag_result) \<Rightarrow> 'b flag_result" where
  "and_then r f = (case r of Inl reason \<Rightarrow> Inl reason | Inr x \<Rightarrow> f x)"

text \<open>Successive \<^verbatim>\<open>std::getline\<close> calls with a comma as the delimiter.\<close>

fun getlines :: "string \<Rightarrow> string \<Rightarrow> string list" where
  "getlines item [] = (if item = [] then [] else [item])"
| "getlines item (c # cs) = (if c = CHR '','' then item # getlines [] cs else getlines (item @ [c]) cs)"

definition requested_venues :: "FlagValues \<Rightarrow> string list" where
  "requested_venues flags =
     filter (\<lambda>name. name \<noteq> []) (getlines [] (Get flags ''venues'' ''binance,okx,bybit''))"

definition kKnownVenues :: "string list" where
  "kKnownVenues = [''binance'', ''okx'', ''bybit'']"

definition add_venue :: "RunnerOptions \<Rightarrow> BuiltVenue list \<Rightarrow> BuiltProtocol \<Rightarrow> BuiltVenue list flag_result" where
  "add_venue runner_options venues protocol =
     (let index = length venues
      in if index \<ge> kMaxVenues
         then Inl (''configured '' @ int_to_string (int (index + 1)) @ '' venues but kMaxVenues is '' @
                   int_to_string (int kMaxVenues) @ ''; raise it in consolidated.h'')
         else Inr (venues @ [\<lparr>bv_index = index, bv_protocol = protocol, bv_ring = feed_ring 1024,
                              bv_options = runner_options\<rparr>]))"

definition binance_config :: "FlagValues \<Rightarrow> string \<Rightarrow> int \<Rightarrow> BinanceConfig" where
  "binance_config flags instrument snapshot_limit =
     default_binance_config
       \<lparr>bnc_symbol := instrument, bnc_snapshot_limit := snapshot_limit,
        bnc_stream_url := Get flags ''binance-ws'' (bnc_stream_url default_binance_config),
        bnc_rest_url := Get flags ''binance-rest'' (bnc_rest_url default_binance_config)\<rparr>"

definition okx_config :: "FlagValues \<Rightarrow> string \<Rightarrow> OkxConfig" where
  "okx_config flags instrument =
     default_okx_config
       \<lparr>okc_symbol := Get flags ''okx-symbol'' (if instrument = ''BTCUSDT'' then ''BTC-USDT'' else instrument),
        okc_stream_url := Get flags ''okx-ws'' (okc_stream_url default_okx_config)\<rparr>"

definition bybit_config :: "FlagValues \<Rightarrow> string \<Rightarrow> BybitConfig" where
  "bybit_config flags instrument =
     default_bybit_config
       \<lparr>byc_symbol := instrument, byc_stream_url := Get flags ''bybit-ws'' (byc_stream_url default_bybit_config)\<rparr>"

definition BuildVenues :: "FlagValues \<Rightarrow> string \<Rightarrow> RunnerOptions \<Rightarrow> BuiltVenue list flag_result" where
  "BuildVenues flags instrument runner_options =
     (let requested = requested_venues flags
      in case find (\<lambda>name. name \<notin> set kKnownVenues) requested of
           Some name \<Rightarrow> Inl (''unknown venue '' @ [CHR 0x27] @ name @ [CHR 0x27] @ ''; known venues are binance, okx, bybit'')
         | None \<Rightarrow>
             and_then
               (if ''binance'' \<in> set requested
                then and_then (GetIntIn flags ''snapshot-limit'' 5000 1 5000)
                       (\<lambda>limit. add_venue runner_options [] (BinanceProtocol (binance_config flags instrument limit)))
                else Inr [])
               (\<lambda>venues. and_then
                 (if ''okx'' \<in> set requested
                  then add_venue runner_options venues (OkxProtocol (okx_config flags instrument)) else Inr venues)
                 (\<lambda>venues. and_then
                   (if ''bybit'' \<in> set requested
                    then add_venue runner_options venues (BybitProtocol (bybit_config flags instrument)) else Inr venues)
                   (\<lambda>venues. if venues = [] then Inl ''no venues selected'' else Inr venues))))"

fun protocol_feed :: "'e Dom \<Rightarrow> BuiltProtocol \<Rightarrow> VenueFeed" where
  "protocol_feed js (BinanceProtocol config) =
     \<lparr>vf_name = vp_name (binance_protocol js config), vf_venue_symbol = vp_venue_symbol (binance_protocol js config)\<rparr>"
| "protocol_feed js (OkxProtocol config) =
     \<lparr>vf_name = vp_name (okx_protocol js config), vf_venue_symbol = vp_venue_symbol (okx_protocol js config)\<rparr>"
| "protocol_feed js (BybitProtocol config) =
     \<lparr>vf_name = vp_name (bybit_protocol js config), vf_venue_symbol = vp_venue_symbol (bybit_protocol js config)\<rparr>"

definition known_flags :: "string list" where
  "known_flags = [''help'', ''listen'', ''instrument'', ''venues'', ''binance-ws'', ''binance-rest'', ''okx-ws'',
     ''okx-symbol'', ''bybit-ws'', ''snapshot-limit'', ''staleness-ms'', ''max-publish-bps'', ''ca-file'']"

definition help_lines :: "string list" where
  "help_lines =
     [''cex-aggregator'',
      ''  --listen=host:port        gRPC listen address (default 0.0.0.0:50051)'',
      ''  --instrument=SYMBOL       instrument to aggregate (default BTCUSDT)'',
      ''  --venues=a,b,c            subset of binance,okx,bybit (default all)'',
      ''  --binance-ws=URL          override the Binance stream endpoint'',
      ''  --binance-rest=URL        override the Binance depth endpoint'',
      ''  --okx-ws=URL              override the OKX stream endpoint'',
      ''  --bybit-ws=URL            override the Bybit stream endpoint'',
      ''  --snapshot-limit=N        Binance REST depth (default 5000)'',
      ''  --staleness-ms=N          exclude a venue silent this long (default 5000)'',
      ''  --max-publish-bps=N       publish depth within N bps of the touch (default 500)'',
      ''  --ca-file=PATH            CA bundle; empty uses the system trust store'']"

definition engine_config :: "FlagValues \<Rightarrow> string \<Rightarrow> EngineConfig flag_result" where
  "engine_config flags instrument =
     and_then (GetIntIn flags ''max-publish-bps'' 500 1 100000)
       (\<lambda>bps. and_then (GetIntIn flags ''staleness-ms'' 5000 1 86400000)
         (\<lambda>ms. Inr (default_engine_config
            \<lparr>ec_instrument := instrument, ec_max_publish_bps := bps, ec_staleness_timeout_ms := ms\<rparr>)))"

definition setup_server :: "'e Dom \<Rightarrow> FlagValues \<Rightarrow> Server flag_result" where
  "setup_server js flags =
     and_then (RequireKnown known_flags flags)
       (\<lambda>_. let listen = Get flags ''listen'' ''0.0.0.0:50051'';
                 instrument = Get flags ''instrument'' ''BTCUSDT'';
                 runner_options = default_runner_options\<lparr>ro_ca_file := Get flags ''ca-file'' []\<rparr>
             in and_then (BuildVenues flags instrument runner_options)
                  (\<lambda>venues. and_then (engine_config flags instrument)
                    (\<lambda>config. Inr \<lparr>sv_listen = listen, sv_venues = venues,
                       sv_engine = new_engine config (map (protocol_feed js \<circ> bv_protocol) venues)\<rparr>)))"

definition main :: "'e Dom \<Rightarrow> string list \<Rightarrow> MainResult" where
  "main js argv =
     (case new_flags argv of
        Inl reason \<Rightarrow> Fail reason
      | Inr flags \<Rightarrow>
          if Has flags ''help'' then PrintHelp (concat (map (\<lambda>line. line @ [CHR 0x0A]) help_lines))
          else case setup_server js flags of Inl reason \<Rightarrow> Fail reason | Inr server \<Rightarrow> Serve server)"

section \<open>The venues\<close>

lemma and_then_simps [simp]: "and_then (Inr x) f = f x" "and_then (Inl reason) f = Inl reason"
  by (simp_all add: and_then_def)

lemma and_then_Inr: "and_then r f = Inr y \<longleftrightarrow> (\<exists>x. r = Inr x \<and> f x = Inr y)"
  by (simp add: and_then_def split: sum.splits)

text \<open>The selected protocols, in the order in which the code adds them.\<close>

definition selected_protocols :: "FlagValues \<Rightarrow> string \<Rightarrow> int \<Rightarrow> string list \<Rightarrow> BuiltProtocol list" where
  "selected_protocols flags instrument limit requested =
     (if ''binance'' \<in> set requested then [BinanceProtocol (binance_config flags instrument limit)] else []) @
     (if ''okx'' \<in> set requested then [OkxProtocol (okx_config flags instrument)] else []) @
     (if ''bybit'' \<in> set requested then [BybitProtocol (bybit_config flags instrument)] else [])"

definition numbered_venues :: "RunnerOptions \<Rightarrow> BuiltProtocol list \<Rightarrow> BuiltVenue list" where
  "numbered_venues options protocols =
     map (\<lambda>(i, protocol). \<lparr>bv_index = i, bv_protocol = protocol, bv_ring = feed_ring 1024, bv_options = options\<rparr>)
       (enumerate 0 protocols)"

lemma unknown_venue: "find (\<lambda>name. name \<notin> set kKnownVenues) names = None \<longleftrightarrow> set names \<subseteq> set kKnownVenues"
  by (auto simp: find_None_iff)

lemma built_iff:
  "BuildVenues flags instrument options = Inr venues \<longleftrightarrow>
     requested_venues flags \<noteq> [] \<and> set (requested_venues flags) \<subseteq> {''binance'', ''okx'', ''bybit''} \<and>
     (if ''binance'' \<in> set (requested_venues flags)
      then \<exists>limit. GetIntIn flags ''snapshot-limit'' 5000 1 5000 = Inr limit \<and>
             venues = numbered_venues options (selected_protocols flags instrument limit (requested_venues flags))
      else venues = numbered_venues options (selected_protocols flags instrument 0 (requested_venues flags)))"
proof -
  let ?R = "requested_venues flags"
  have known: "set kKnownVenues = {''binance'', ''okx'', ''bybit''}" by (simp add: kKnownVenues_def)
  show ?thesis
  proof (cases "set ?R \<subseteq> set kKnownVenues")
    case True
    then have "?R = [] \<longleftrightarrow> ''binance'' \<notin> set ?R \<and> ''okx'' \<notin> set ?R \<and> ''bybit'' \<notin> set ?R"
      unfolding known by (cases ?R) auto
    with True show ?thesis
      unfolding known [symmetric]
      by (cases "GetIntIn flags ''snapshot-limit'' 5000 1 5000"; cases "''binance'' \<in> set ?R"; cases "''okx'' \<in> set ?R"; cases "''bybit'' \<in> set ?R")
        (auto simp: BuildVenues_def Let_def unknown_venue [THEN iffD2] add_venue_def kMaxVenues_def
          numbered_venues_def selected_protocols_def)
  next
    case False
    then obtain name where "find (\<lambda>name. name \<notin> set kKnownVenues) ?R = Some name"
      using unknown_venue [of ?R] by (cases "find (\<lambda>name. name \<notin> set kKnownVenues) ?R") auto
    with False show ?thesis unfolding known [symmetric] by (simp add: BuildVenues_def Let_def)
  qed
qed

lemma numbered_venues_nth:
  "length (numbered_venues options protocols) = length protocols"
  "i < length protocols \<Longrightarrow> numbered_venues options protocols ! i =
     \<lparr>bv_index = i, bv_protocol = protocols ! i, bv_ring = feed_ring 1024, bv_options = options\<rparr>"
  "map (f \<circ> bv_protocol) (numbered_venues options protocols) = map f protocols"
proof -
  show len: "length (numbered_venues options protocols) = length protocols" by (simp add: numbered_venues_def)
  have nth: "numbered_venues options protocols ! i =
     \<lparr>bv_index = i, bv_protocol = protocols ! i, bv_ring = feed_ring 1024, bv_options = options\<rparr>"
    if "i < length protocols" for i using that by (simp add: numbered_venues_def nth_enumerate_eq)
  then show "i < length protocols \<Longrightarrow> numbered_venues options protocols ! i =
     \<lparr>bv_index = i, bv_protocol = protocols ! i, bv_ring = feed_ring 1024, bv_options = options\<rparr>" .
  show "map (f \<circ> bv_protocol) (numbered_venues options protocols) = map f protocols"
    by (rule nth_equalityI) (simp_all add: len nth)
qed

lemma feed_ring_1024: "ring_ok (feed_ring 1024)" "ring_contents (feed_ring 1024) = []" "1024 \<le> ring_cap (feed_ring 1024)"
proof -
  have "(1024 :: u64) \<le> 2 ^ 63" by simp
  from new_ring_ok [OF this, of "\<lparr>fb_venue_index = 0, fb_updates = []\<rparr>"]
  show "ring_ok (feed_ring 1024)" "ring_contents (feed_ring 1024) = []" "1024 \<le> ring_cap (feed_ring 1024)"
    by (auto simp: feed_ring_def)
qed

lemma selected_names:
  "length (selected_protocols flags instrument limit requested) \<le> kMaxVenues"
  "distinct (map vf_name (map (protocol_feed js) (selected_protocols flags instrument limit requested)))"
  by (simp_all add: selected_protocols_def kMaxVenues_def binance_protocol_def okx_protocol_def bybit_protocol_def)

lemma engine_config_bounds:
  assumes "engine_config flags instrument = Inr config"
  shows "0 < max_bps_from_touch_e8 (publish_limits config)" "0 < staleness_ns config"
    "staleness_ns config = ec_staleness_timeout_ms config * 1000000"
proof -
  have range: "a \<le> v \<and> v \<le> b" if "GetIntIn flags key fallback a b = Inr v" for key fallback a b v
    using that by (auto simp: GetIntIn_def split: sum.splits if_splits)
  obtain bps ms where "GetIntIn flags ''max-publish-bps'' 500 1 100000 = Inr bps"
    "GetIntIn flags ''staleness-ms'' 5000 1 86400000 = Inr ms"
    "config = default_engine_config\<lparr>ec_instrument := instrument, ec_max_publish_bps := bps, ec_staleness_timeout_ms := ms\<rparr>"
    using assms by (auto simp: engine_config_def and_then_Inr)
  with range show "0 < max_bps_from_touch_e8 (publish_limits config)" "0 < staleness_ns config"
    "staleness_ns config = ec_staleness_timeout_ms config * 1000000"
    by (force simp: publish_limits_def staleness_ns_def kScale_def wrap64_id i64_bounds)+
qed

text \<open>The flags that the help text lists: all that are accepted but \<^verbatim>\<open>--help\<close> itself and \<^verbatim>\<open>--okx-symbol\<close>.\<close>

lemma help_flags:
  "set (map (takeWhile (\<lambda>c. c \<noteq> CHR ''='') \<circ> drop 4) (tl help_lines)) = set known_flags - {''help'', ''okx-symbol''}"
proof -
  have "map (takeWhile (\<lambda>c. c \<noteq> CHR ''='') \<circ> drop 4) (tl help_lines) =
      [''listen'', ''instrument'', ''venues'', ''binance-ws'', ''binance-rest'', ''okx-ws'', ''bybit-ws'', ''snapshot-limit'',
       ''staleness-ms'', ''max-publish-bps'', ''ca-file'']" by code_simp
  then show ?thesis by (auto simp: known_flags_def)
qed

section \<open>Properties\<close>

text \<open>C37: the venues are built exactly when every name in the list is known, at least one is given, and, if
  Binance is among them, the snapshot limit is valid. Then there is one runner for each selected
  venue, however often and in whatever order it was named, numbered from zero in the code's own order,
  each with a ring of its own; the compiled limit on venues is never hit.\<close>

theorem BuildVenues_iff:
  "BuildVenues flags instrument options = Inr venues \<longleftrightarrow>
     requested_venues flags \<noteq> [] \<and> set (requested_venues flags) \<subseteq> {''binance'', ''okx'', ''bybit''} \<and>
     (if ''binance'' \<in> set (requested_venues flags)
      then \<exists>limit. GetIntIn flags ''snapshot-limit'' 5000 1 5000 = Inr limit \<and>
             venues = numbered_venues options (selected_protocols flags instrument limit (requested_venues flags))
      else venues = numbered_venues options (selected_protocols flags instrument 0 (requested_venues flags)))"
  by (rule built_iff)



end
