(* ===== verification/Clock.thy ===== *)
theory Clock
  imports Venue "HOL-Library.Char_ord" "HOL-Library.List_Lexorder"
begin

text \<open>
  Timestamps as text (\<^verbatim>\<open>src/core/clock.h\<close>, \<^verbatim>\<open>src/core/clock.cc\<close>). The clock readings themselves are arguments
  everywhere in the model. \<^verbatim>\<open>gmtime_r\<close> is the proleptic Gregorian calendar in UTC without leap seconds, as
  POSIX has it; the 400-year cycle of 146097 days takes a date before 1970 to one after it.
\<close>

section \<open>Calendar\<close>

definition leap_year :: "int \<Rightarrow> bool" where
  "leap_year y \<longleftrightarrow> y mod 4 = 0 \<and> (y mod 100 \<noteq> 0 \<or> y mod 400 = 0)"

definition year_days :: "int \<Rightarrow> int" where
  "year_days y = (if leap_year y then 366 else 365)"

definition month_days :: "int \<Rightarrow> int \<Rightarrow> int" where
  "month_days y m =
     (if m = 2 then (if leap_year y then 29 else 28) else if m \<in> {4, 6, 9, 11} then 30 else 31)"

function year_of :: "int \<Rightarrow> int \<Rightarrow> int \<times> int" where
  "year_of y days = (if days < year_days y then (y, days) else year_of (y + 1) (days - year_days y))"
  by pat_completeness auto
termination
  by (relation "measure (\<lambda>(y, days). nat days)") (auto simp: year_days_def split: if_splits)

function month_of :: "int \<Rightarrow> int \<Rightarrow> int \<Rightarrow> int \<times> int" where
  "month_of y m days = (if 12 \<le> m \<or> days < month_days y m then (m, days + 1) else month_of y (m + 1) (days - month_days y m))"
  by pat_completeness auto
termination
  by (relation "measure (\<lambda>(y, m, days). nat (12 - m))") auto

declare year_of.simps [simp del] month_of.simps [simp del]

record tm =
  tm_year :: int
  tm_mon :: int
  tm_mday :: int
  tm_hour :: int
  tm_min :: int
  tm_sec :: int

definition gmtime :: "int \<Rightarrow> tm" where
  "gmtime seconds =
     (let days = seconds div 86400;
          time = seconds mod 86400;
          (y, yday) = year_of (1970 + 400 * (days div 146097)) (days mod 146097);
          (m, mday) = month_of y 1 yday
      in \<lparr>tm_year = y, tm_mon = m, tm_mday = mday, tm_hour = time div 3600, tm_min = time mod 3600 div 60,
          tm_sec = time mod 60\<rparr>)"

section \<open>Text\<close>

text \<open>A number in a field of fixed width, filled with zeros.\<close>

definition zero_padded :: "nat \<Rightarrow> int \<Rightarrow> string" where
  "zero_padded width n =
     (if n < 0 then CHR ''-'' # frac_loop (width - 1) (- n) [] else frac_loop width n [])"

definition FormatWallNs :: "i64 \<Rightarrow> string" where
  "FormatWallNs wall_ns =
     (let seconds = wall_ns sdiv 1000000000;
          nanos = wall_ns smod 1000000000;
          utc = gmtime seconds
      in int_to_string (tm_year utc) @ ''-'' @ zero_padded 2 (tm_mon utc) @ ''-'' @ zero_padded 2 (tm_mday utc) @
         ''T'' @ zero_padded 2 (tm_hour utc) @ '':'' @ zero_padded 2 (tm_min utc) @ '':'' @ zero_padded 2 (tm_sec utc) @
         ''.'' @ zero_padded 9 nanos @ ''Z'')"

section \<open>Dates in order\<close>

lemma year_of_unfold [simp]:
  "days < year_days y \<Longrightarrow> year_of y days = (y, days)"
  "year_days y \<le> days \<Longrightarrow> year_of y days = year_of (y + 1) (days - year_days y)"
  by (simp_all add: year_of.simps [of y days])

lemma month_of_unfold [simp]:
  "12 \<le> m \<or> days < month_days y m \<Longrightarrow> month_of y m days = (m, days + 1)"
  "\<not> 12 \<le> m \<Longrightarrow> month_days y m \<le> days \<Longrightarrow> month_of y m days = month_of y (m + 1) (days - month_days y m)"
  by (simp_all add: month_of.simps [of y m days])

lemma year_days_pos: "0 < year_days y" "365 \<le> year_days y"
  by (simp_all add: year_days_def)

lemma year_of_bounds:
  "year_of y days = (y', r) \<Longrightarrow> 0 \<le> days \<Longrightarrow> y \<le> y' \<and> 365 * (y' - y) \<le> days \<and> 0 \<le> r \<and> r < year_days y'"
proof (induction y days rule: year_of.induct)
  case (1 y days)
  show ?case
  proof (cases "days < year_days y")
    case True
    with 1 show ?thesis by simp
  next
    case False
    with 1 have "y + 1 \<le> y' \<and> 365 * (y' - (y + 1)) \<le> days - year_days y \<and> 0 \<le> r \<and> r < year_days y'" by simp
    with year_days_pos(2) [of y] show ?thesis by (auto simp: algebra_simps)
  qed
qed

lemma year_of_mono:
  "0 \<le> a \<Longrightarrow> a < b \<Longrightarrow> year_of y a = (y1, r1) \<Longrightarrow> year_of y b = (y2, r2) \<Longrightarrow> y1 < y2 \<or> y1 = y2 \<and> r1 < r2"
proof (induction y a arbitrary: b rule: year_of.induct)
  case (1 y a)
  consider "b < year_days y" | "a < year_days y" "year_days y \<le> b" | "year_days y \<le> a" by linarith
  then show ?case
  proof cases
    case 1
    with "1.prems" show ?thesis by simp
  next
    case 2
    with "1.prems" year_of_bounds [of "y + 1" "b - year_days y" y2 r2] show ?thesis by simp
  next
    case 3
    with "1.prems" "1.IH" [of "b - year_days y"] show ?thesis by simp
  qed
qed

definition days_left :: "int \<Rightarrow> int \<Rightarrow> int" where
  "days_left y m = sum_list (map (month_days y) [m..12])"

lemma days_left_step: "m \<le> 12 \<Longrightarrow> days_left y m = month_days y m + days_left y (m + 1)"
  by (simp add: days_left_def upto_rec1)

lemma days_left_year: "days_left y 1 = year_days y"
  by (simp add: days_left_def upto_rec1 month_days_def year_days_def)

lemma month_of_bounds:
  "month_of y m days = (m', d) \<Longrightarrow> m \<le> 12 \<Longrightarrow> 0 \<le> days \<Longrightarrow> days < days_left y m \<Longrightarrow>
     m \<le> m' \<and> m' \<le> 12 \<and> 1 \<le> d \<and> d \<le> month_days y m'"
proof (induction y m days rule: month_of.induct)
  case (1 y m days)
  have last: "days_left y 12 = month_days y 12" by (simp add: days_left_def upto_rec1)
  show ?case
  proof (cases "12 \<le> m \<or> days < month_days y m")
    case True
    with 1 last show ?thesis by auto
  next
    case False
    with 1 days_left_step [of m y] show ?thesis by simp
  qed
qed

lemma month_of_mono:
  "0 \<le> a \<Longrightarrow> a < b \<Longrightarrow> m \<le> 12 \<Longrightarrow> b < days_left y m \<Longrightarrow> month_of y m a = (m1, d1) \<Longrightarrow> month_of y m b = (m2, d2) \<Longrightarrow>
     m1 < m2 \<or> m1 = m2 \<and> d1 < d2"
proof (induction y m a arbitrary: b rule: month_of.induct)
  case (1 y m a)
  consider "12 \<le> m \<or> b < month_days y m" | "\<not> 12 \<le> m" "a < month_days y m" "month_days y m \<le> b"
    | "\<not> 12 \<le> m" "month_days y m \<le> a" by linarith
  then show ?case
  proof cases
    case 1
    with "1.prems" show ?thesis by auto
  next
    case 2
    with "1.prems" days_left_step [of m y] month_of_bounds [of y "m + 1" "b - month_days y m" m2 d2]
    show ?thesis by simp
  next
    case 3
    with "1.prems" "1.IH" [of "b - month_days y m"] days_left_step [of m y] show ?thesis
      by simp
  qed
qed

text \<open>For a time that is not negative and fits 64 bits of nanoseconds.\<close>

lemma gmtime_fields:
  assumes "0 \<le> s" "s < 10000000000"
  shows "1970 \<le> tm_year (gmtime s) \<and> tm_year (gmtime s) < 9999 \<and> 1 \<le> tm_mon (gmtime s) \<and> tm_mon (gmtime s) \<le> 12 \<and>
     1 \<le> tm_mday (gmtime s) \<and> tm_mday (gmtime s) \<le> 31 \<and> 0 \<le> tm_hour (gmtime s) \<and> tm_hour (gmtime s) < 24 \<and>
     0 \<le> tm_min (gmtime s) \<and> tm_min (gmtime s) < 60 \<and> 0 \<le> tm_sec (gmtime s) \<and> tm_sec (gmtime s) < 60"
proof -
  let ?days = "s div 86400"
  have days: "0 \<le> ?days" "?days < 146097" using assms by auto
  obtain y r where y: "year_of 1970 ?days = (y, r)" by fastforce
  obtain m d where m: "month_of y 1 r = (m, d)" by fastforce
  have year: "1970 \<le> y" "365 * (y - 1970) \<le> ?days" "0 \<le> r" "r < days_left y 1"
    using year_of_bounds [OF y days(1)] by (simp_all add: days_left_year)
  have month: "1 \<le> m" "m \<le> 12" "1 \<le> d" "d \<le> month_days y m" using month_of_bounds [OF m _ year(3,4)] by simp_all
  have "month_days y m \<le> 31" by (simp add: month_days_def)
  then have "d \<le> 31" using month(4) by linarith
  have g: "gmtime s = \<lparr>tm_year = y, tm_mon = m, tm_mday = d, tm_hour = s mod 86400 div 3600,
      tm_min = s mod 86400 mod 3600 div 60, tm_sec = s mod 86400 mod 60\<rparr>"
    using days y m by (simp add: gmtime_def Let_def div_pos_pos_trivial mod_pos_pos_trivial)
  have "y < 9999" using le_less_trans [OF year(2) days(2)] by presburger
  moreover have "x div 3600 < 24 \<and> 0 \<le> x div 3600 \<and> x mod 3600 div 60 < 60 \<and> 0 \<le> x mod 3600 div 60 \<and> 0 \<le> x mod 60 \<and> x mod 60 < 60"
    if "0 \<le> x" "x < 86400" for x :: int using that by (intro conjI; linarith)
  from this [of "s mod 86400"]
  have "s mod 86400 div 3600 < 24 \<and> 0 \<le> s mod 86400 div 3600 \<and> s mod 86400 mod 3600 div 60 < 60 \<and>
      0 \<le> s mod 86400 mod 3600 div 60 \<and> 0 \<le> s mod 86400 mod 60 \<and> s mod 86400 mod 60 < 60" by simp
  ultimately show ?thesis
    using year(1) month(1-3) \<open>d \<le> 31\<close> by (simp only: g tm.select_convs)
qed

section \<open>Text in order\<close>

lemma dec_val_scale: "dec_val n ds = n * 10 ^ length ds + dec_val 0 ds"
proof (induction ds arbitrary: n)
  case (Cons c cs)
  show ?case
    unfolding dec_val_simps Cons [of "n * 10 + digit_val c"] Cons [of "0 * 10 + digit_val c"] by (simp add: algebra_simps)
qed simp

lemma digit_val_less: "digit_val c < digit_val c' \<longleftrightarrow> c < c'"
  by (simp add: digit_val_nat less_char_def)

lemma digits_less:
  "length xs = length ys \<Longrightarrow> list_all is_digit xs \<Longrightarrow> list_all is_digit ys \<Longrightarrow> xs < ys \<longleftrightarrow> dec_val 0 xs < dec_val 0 ys"
proof (induction xs ys rule: list_induct2)
  case (Cons x xs y ys)
  have low: "dec_val 0 zs < 10 ^ length zs" "0 \<le> dec_val 0 zs" if "list_all is_digit zs" for zs
    using dec_val_less [OF that, of 0] dec_val_nonneg [OF that, of 0] by simp_all
  have scale: "a * 10 ^ k + u < b * 10 ^ k + v" if "a < b" "u < 10 ^ k" "0 \<le> v" for a b u v :: int and k
  proof -
    have "(a + 1) * 10 ^ k \<le> b * 10 ^ k" using that(1) by (intro mult_right_mono) auto
    with that(2,3) show ?thesis by (simp add: algebra_simps)
  qed
  have "digit_val x = digit_val y \<longleftrightarrow> x = y"
    using digit_val_less [of x y] digit_val_less [of y x] by (metis less_irrefl linorder_neqE)
  then consider "digit_val x < digit_val y" "x < y" | "x = y" | "digit_val y < digit_val x" "y < x"
    using digit_val_less [of x y] digit_val_less [of y x] by linarith
  then show ?case
  proof cases
    case 1
    with Cons.prems scale [of "digit_val x" "digit_val y" "dec_val 0 xs" "length xs" "dec_val 0 ys"] low [of xs] low [of ys] Cons.hyps
    show ?thesis by (simp add: dec_val_scale [of "digit_val _"])
  next
    case 2
    with Cons show ?thesis by (simp add: dec_val_scale [of "digit_val _"])
  next
    case 3
    with Cons.prems scale [of "digit_val y" "digit_val x" "dec_val 0 ys" "length ys" "dec_val 0 xs"] low [of xs] low [of ys] Cons.hyps
    show ?thesis by (simp add: dec_val_scale [of "digit_val _"] order_less_imp_not_less)
  qed
qed simp

lemma append_less: "length xs = length ys \<Longrightarrow> xs @ us < ys @ vs \<longleftrightarrow> xs < ys \<or> xs = ys \<and> us < (vs :: string)"
  by (induction xs ys rule: list_induct2) auto

lemma field_less:
  assumes "0 \<le> a" "a < 10 ^ k" "0 \<le> b" "b < 10 ^ k"
  shows "frac_loop k a [] @ us < frac_loop k b [] @ vs \<longleftrightarrow> a < b \<or> a = b \<and> us < vs"
proof -
  let ?f = "\<lambda>n. frac_loop k n []"
  have val: "dec_val 0 (?f a) = a" "dec_val 0 (?f b) = b" using assms frac_loop_correct [of k] by simp_all
  then have "?f a = ?f b \<longleftrightarrow> a = b" by metis
  moreover have "?f a < ?f b \<longleftrightarrow> a < b" using digits_less [of "?f a" "?f b"] frac_loop_correct [of k] val by simp
  ultimately show ?thesis using append_less [of "?f a" "?f b" us vs] frac_loop_correct [of k] by simp
qed

lemma year_text: "1000 \<le> y \<Longrightarrow> y < 9999 \<Longrightarrow> int_to_string y = frac_loop 4 y []"
  by (simp add: int_to_string_def to_string.simps numeral_eq_Suc) (intro conjI impI; linarith)

definition tm_before :: "tm \<Rightarrow> tm \<Rightarrow> bool" where
  "tm_before a b \<longleftrightarrow>
     tm_year a < tm_year b \<or> tm_year a = tm_year b \<and>
     (tm_mon a < tm_mon b \<or> tm_mon a = tm_mon b \<and>
     (tm_mday a < tm_mday b \<or> tm_mday a = tm_mday b \<and>
     (tm_hour a < tm_hour b \<or> tm_hour a = tm_hour b \<and>
     (tm_min a < tm_min b \<or> tm_min a = tm_min b \<and> tm_sec a < tm_sec b))))"

lemma div_mod_order:
  fixes x y c :: int
  assumes "x < y" "0 < c"
  shows "x div c < y div c \<or> x div c = y div c \<and> x mod c < y mod c"
proof (cases "x div c = y div c")
  case True
  have "x mod c = x - c * (x div c)" "y mod c = y - c * (y div c)" by (simp_all add: minus_mult_div_eq_mod)
  with True assms(1) show ?thesis by simp
next
  case False
  with zdiv_mono1 [of x y c] assms show ?thesis by simp
qed

lemma clock_order:
  fixes x y :: int
  assumes "x < y"
  shows "x div 3600 < y div 3600 \<or> x div 3600 = y div 3600 \<and>
     (x mod 3600 div 60 < y mod 3600 div 60 \<or> x mod 3600 div 60 = y mod 3600 div 60 \<and> x mod 60 < y mod 60)"
proof -
  have "z mod 3600 mod 60 = z mod 60" for z :: int by (rule mod_mod_cancel) simp
  with div_mod_order [OF assms, of 3600] div_mod_order [of "x mod 3600" "y mod 3600" 60] show ?thesis by auto
qed

lemma gmtime_mono:
  assumes "0 \<le> a" "a < b" "b < 10000000000"
  shows "tm_before (gmtime a) (gmtime b)"
proof -
  have range: "0 \<le> s div 86400" "s div 86400 mod 146097 = s div 86400" "s div 86400 div 146097 = 0" if "0 \<le> s" "s < 10000000000" for s :: int
    using that by (simp_all add: div_pos_pos_trivial mod_pos_pos_trivial)
  note ra = range [of a] and rb = range [of b]
  obtain y1 r1 where y1: "year_of 1970 (a div 86400) = (y1, r1)" by fastforce
  obtain y2 r2 where y2: "year_of 1970 (b div 86400) = (y2, r2)" by fastforce
  obtain m1 d1 where m1: "month_of y1 1 r1 = (m1, d1)" by fastforce
  obtain m2 d2 where m2: "month_of y2 1 r2 = (m2, d2)" by fastforce
  have g: "gmtime a = \<lparr>tm_year = y1, tm_mon = m1, tm_mday = d1, tm_hour = a mod 86400 div 3600,
      tm_min = a mod 86400 mod 3600 div 60, tm_sec = a mod 86400 mod 60\<rparr>"
    "gmtime b = \<lparr>tm_year = y2, tm_mon = m2, tm_mday = d2, tm_hour = b mod 86400 div 3600,
      tm_min = b mod 86400 mod 3600 div 60, tm_sec = b mod 86400 mod 60\<rparr>"
    using assms ra rb y1 y2 m1 m2 by (simp_all add: gmtime_def Let_def)
  consider "a div 86400 < b div 86400" | "a div 86400 = b div 86400" "a mod 86400 < b mod 86400"
    using div_mod_order [OF assms(2), of 86400] by auto
  then show ?thesis
  proof cases
    case 1
    have days: "0 \<le> a div 86400" "0 \<le> b div 86400" using assms ra(1) rb(1) by simp_all
    have r: "0 \<le> r1" "r2 < days_left y2 1"
      using year_of_bounds [OF y1 days(1)] year_of_bounds [OF y2 days(2)] by (simp_all add: days_left_year)
    have "y1 < y2 \<or> y1 = y2 \<and> r1 < r2" by (rule year_of_mono [OF days(1) 1 y1 y2])
    then have "y1 < y2 \<or> y1 = y2 \<and> (m1 < m2 \<or> m1 = m2 \<and> d1 < d2)"
      using month_of_mono [of r1 r2 1 y2 m1 d1 m2 d2] r m1 m2 by auto
    then show ?thesis by (auto simp: tm_before_def g)
  next
    case 2
    with y1 y2 m1 m2 clock_order [of "a mod 86400" "b mod 86400"] show ?thesis by (simp add: tm_before_def g)
  qed
qed

lemma two_digits_less:
  assumes "0 \<le> a" "a < 60" "0 \<le> b" "b < 60"
  shows "zero_padded 2 a @ us < zero_padded 2 b @ vs \<longleftrightarrow> a < b \<or> a = b \<and> us < vs"
  using field_less [of a 2 b us vs] assms by (simp add: zero_padded_def)

definition tm_ok :: "tm \<Rightarrow> bool" where
  "tm_ok t \<longleftrightarrow>
     1970 \<le> tm_year t \<and> tm_year t < 9999 \<and> 1 \<le> tm_mon t \<and> tm_mon t \<le> 12 \<and> 1 \<le> tm_mday t \<and> tm_mday t \<le> 31 \<and>
     0 \<le> tm_hour t \<and> tm_hour t < 24 \<and> 0 \<le> tm_min t \<and> tm_min t < 60 \<and> 0 \<le> tm_sec t \<and> tm_sec t < 60"

definition stamp :: "tm \<Rightarrow> int \<Rightarrow> string" where
  "stamp t n =
     frac_loop 4 (tm_year t) [] @ CHR ''-'' # zero_padded 2 (tm_mon t) @ CHR ''-'' # zero_padded 2 (tm_mday t) @
     CHR ''T'' # zero_padded 2 (tm_hour t) @ CHR '':'' # zero_padded 2 (tm_min t) @ CHR '':'' # zero_padded 2 (tm_sec t) @
     CHR ''.'' # frac_loop 9 n [] @ ''Z''"

lemma stamp_mono:
  assumes "tm_ok s" "tm_ok t" "0 \<le> m" "m < 1000000000" "0 \<le> n" "n < 1000000000"
    and "tm_before s t \<or> s = t \<and> m < n"
  shows "stamp s m < stamp t n"
proof -
  have "stamp s m < stamp t n \<longleftrightarrow>
     tm_year s < tm_year t \<or> tm_year s = tm_year t \<and>
     (tm_mon s < tm_mon t \<or> tm_mon s = tm_mon t \<and>
     (tm_mday s < tm_mday t \<or> tm_mday s = tm_mday t \<and>
     (tm_hour s < tm_hour t \<or> tm_hour s = tm_hour t \<and>
     (tm_min s < tm_min t \<or> tm_min s = tm_min t \<and>
     (tm_sec s < tm_sec t \<or> tm_sec s = tm_sec t \<and> m < n)))))"
    using assms(1-6) by (simp add: stamp_def field_less two_digits_less tm_ok_def)
  with assms(7) show ?thesis unfolding tm_before_def by blast
qed

lemma stamp_length: "tm_ok t \<Longrightarrow> length (stamp t n) = 30"
  using frac_loop_correct by (simp add: stamp_def zero_padded_def tm_ok_def)

lemma FormatWallNs_stamp:
  assumes "0 \<le> x" "in_i64 x"
  shows "tm_ok (gmtime (x div 1000000000))"
    and "FormatWallNs x = stamp (gmtime (x div 1000000000)) (x mod 1000000000)"
proof -
  let ?t = "gmtime (x div 1000000000)"
  have "0 \<le> x div 1000000000" "x div 1000000000 < 10000000000" using assms by (auto simp: i64_bounds)
  from gmtime_fields [OF this] show ok: "tm_ok ?t" by (simp add: tm_ok_def)
  have "x smod 1000000000 = x mod 1000000000" using assms(1) by (cases "x = 0") (simp_all add: signed_modulo_int_def)
  moreover have "\<not> x mod 1000000000 < 0" by (simp add: not_less)
  ultimately show "FormatWallNs x = stamp ?t (x mod 1000000000)"
    using assms(1) ok year_text [of "tm_year ?t"]
    by (simp add: FormatWallNs_def stamp_def Let_def zero_padded_def [of 9] tm_ok_def)
qed

section \<open>Properties\<close>

text \<open>Timestamps sort as text the way they sort in time: of two times since 1970 that fit 64 bits of
  nanoseconds the earlier one is rendered as the smaller string, and all of them with the same
  length.\<close>

theorem FormatWallNs_sorts:
  assumes "0 \<le> a" "a < b" "in_i64 b"
  shows "FormatWallNs a < FormatWallNs b \<and> length (FormatWallNs a) = 30 \<and> length (FormatWallNs b) = 30"
proof -
  let ?s = "\<lambda>x :: int. x div 1000000000" and ?n = "\<lambda>x :: int. x mod 1000000000"
  have "0 \<le> b" "in_i64 a" using assms by (simp_all add: i64_bounds)
  note a = FormatWallNs_stamp [OF assms(1) \<open>in_i64 a\<close>] and b = FormatWallNs_stamp [OF \<open>0 \<le> b\<close> assms(3)]
  have "0 \<le> ?s a" "?s b < 10000000000" using assms by (auto simp: i64_bounds)
  then have "tm_before (gmtime (?s a)) (gmtime (?s b)) \<or> gmtime (?s a) = gmtime (?s b) \<and> ?n a < ?n b"
    using div_mod_order [OF assms(2), of 1000000000] gmtime_mono [of "?s a" "?s b"] by auto
  then have "stamp (gmtime (?s a)) (?n a) < stamp (gmtime (?s b)) (?n b)" using a(1) b(1) by (intro stamp_mono) simp_all
  with a b show ?thesis by (simp add: stamp_length)
qed

text \<open>Two seconds around the end of a leap day.\<close>

theorem FormatWallNs_sorts_witness:
  "FormatWallNs 1709251199999999999 = ''2024-02-29T23:59:59.999999999Z'' \<and>
   FormatWallNs 1709251199999999999 < FormatWallNs 1709251200000000000"
proof -
  have "FormatWallNs 1709251199999999999 = ''2024-02-29T23:59:59.999999999Z''" by code_simp
  with FormatWallNs_sorts [of 1709251199999999999 1709251200000000000] show ?thesis by (simp add: i64_bounds)
qed

end
