(* ===== verification/Display.thy ===== *)
theory Display
  imports Clock Complex_Main "HOL-Library.Log_Nat"
begin

text \<open>
  Numbers for display. The clients (\<^verbatim>\<open>src/clients/common.h\<close>) convert two kinds of values to \<^verbatim>\<open>double\<close> before
  they print them. A \<^verbatim>\<open>double\<close> is the rational number it stands for, and every operation rounds its exact
  result to 53 significant bits, to the nearest and on a tie to the even one (IEEE 754 binary64 in its
  default mode). The exponent is not bounded here: the values displayed lie between \<open>10\<^sup>-\<^sup>1\<^sup>4\<close> and \<open>10\<^sup>1\<^sup>9\<close>, far from
  the format's limits. \<^verbatim>\<open>printf\<close> rounds the exact value of its argument to the decimals asked for.
\<close>

section \<open>Rounding\<close>

definition half_even :: "rat \<Rightarrow> int" where
  "half_even x =
     (let f = \<lfloor>x\<rfloor>; rest = x - of_int f
      in if rest < 1 / 2 then f else if rest > 1 / 2 then f + 1 else if even f then f else f + 1)"

definition pow2 :: "int \<Rightarrow> rat" where
  "pow2 k = (if 0 \<le> k then 2 ^ nat k else 1 / 2 ^ nat (- k))"

text \<open>The exponent of the leading bit of a positive number.\<close>

definition binade :: "rat \<Rightarrow> int" where
  "binade x =
     (case quotient_of x of (n, d) \<Rightarrow>
        let k = bitlen n - bitlen d in if pow2 k \<le> x then k else k - 1)"

definition to_double :: "rat \<Rightarrow> rat" where
  "to_double x =
     (if x = 0 then 0
      else let unit = pow2 (binade \<bar>x\<bar> - 52) in sgn x * of_int (half_even (\<bar>x\<bar> / unit)) * unit)"

section \<open>Formatting\<close>

definition pad_left :: "nat \<Rightarrow> string \<Rightarrow> string" where
  "pad_left width str = replicate (width - length str) CHR '' '' @ str"

definition pad_right :: "nat \<Rightarrow> string \<Rightarrow> string" where
  "pad_right width str = str @ replicate (width - length str) CHR '' ''"

text \<open>A scaled integer with its decimal point, and what \<^verbatim>\<open>%.nf\<close> prints.\<close>

definition decimal :: "bool \<Rightarrow> nat \<Rightarrow> int \<Rightarrow> string" where
  "decimal negative decimals r =
     (if negative then ''-'' else []) @ to_string (r div 10 ^ decimals) @ ''.'' @ zero_padded decimals (r mod 10 ^ decimals)"

definition printf_f :: "nat \<Rightarrow> rat \<Rightarrow> string" where
  "printf_f decimals x = decimal (x < 0) decimals (half_even (\<bar>x\<bar> * 10 ^ decimals))"

text \<open>\<^verbatim>\<open>snprintf\<close> into a buffer of 32 bytes.\<close>

definition snprintf32 :: "string \<Rightarrow> string" where
  "snprintf32 str = take 31 str"

definition Millions :: "i64 \<Rightarrow> string" where
  "Millions notional_e8 =
     (let millions = to_double (to_double (to_double (of_int notional_e8) / to_double (of_int kScale)) / 1000000)
      in snprintf32 (pad_left 8 (printf_f 3 millions) @ ''M''))"

definition Bps :: "i64 \<Rightarrow> string" where
  "Bps bps_e8 = snprintf32 (printf_f 2 (to_double (to_double (of_int bps_e8) / to_double (of_int kScale))))"

section \<open>Rounding errors\<close>

lemma half_even_error: "\<bar>of_int (half_even x) - x\<bar> \<le> 1 / 2"
proof -
  have "of_int \<lfloor>x\<rfloor> \<le> x" "x < of_int \<lfloor>x\<rfloor> + 1" by linarith+
  then show ?thesis by (auto simp: half_even_def Let_def abs_le_iff)
qed

lemma half_even_nearest: "\<bar>x - of_int n\<bar> < 1 / 2 \<Longrightarrow> half_even x = n"
  using half_even_error [of x] by linarith

lemma half_even_int [simp]: "half_even (of_int n) = n"
  by (rule half_even_nearest) simp

lemma half_even_nonneg: "0 \<le> x \<Longrightarrow> 0 \<le> half_even x"
  using half_even_error [of x] by linarith

lemma pow2_pos [simp]: "0 < pow2 k"
  by (simp add: pow2_def)

lemma pow2_add: "pow2 (j + k) = pow2 j * pow2 k"
proof -
  have "pow2 m = 2 powi m" for m by (simp add: pow2_def power_int_def power_one_over inverse_eq_divide)
  then show ?thesis by (simp add: power_int_add)
qed

lemma pow2_bitlen:
  assumes "0 < n"
  shows "pow2 (bitlen n - 1) \<le> of_int n" "of_int n < pow2 (bitlen n)"
proof -
  have "1 \<le> bitlen n" using assms bitlen_eq_zero_iff [of n] bitlen_nonneg [of n] by linarith
  moreover have "2 ^ nat (bitlen n - 1) \<le> n" "n < 2 ^ nat (bitlen n)" using bitlen_bounds [OF assms] by simp_all
  moreover from this(1,2) have "rat_of_int (2 ^ nat (bitlen n - 1)) \<le> of_int n" "of_int n < rat_of_int (2 ^ nat (bitlen n))"
    by (simp_all only: of_int_le_iff of_int_less_iff)
  ultimately show "pow2 (bitlen n - 1) \<le> of_int n" "of_int n < pow2 (bitlen n)" by (simp_all add: pow2_def)
qed

lemma binade:
  assumes "0 < x"
  shows "pow2 (binade x) \<le> x" "x < pow2 (binade x + 1)"
proof -
  obtain n d where q: "quotient_of x = (n, d)" by fastforce
  then have nd: "x = of_int n / of_int d" "0 < d" "0 < n"
    using quotient_of_div [OF q] quotient_of_denom_pos [OF q] assms by (auto simp: zero_less_divide_iff)
  let ?k = "bitlen n - bitlen d"
  note b = pow2_bitlen [OF nd(3)] pow2_bitlen [OF nd(2)]
  have split: "pow2 (bitlen n) = pow2 (?k + 1) * pow2 (bitlen d - 1)" "pow2 (bitlen n - 1) = pow2 (?k - 1) * pow2 (bitlen d)"
    by (simp_all flip: pow2_add)
  have "of_int n < pow2 (?k + 1) * of_int d"
    using b(2) mult_left_mono [OF b(3) less_imp_le [OF pow2_pos], of "?k + 1"] unfolding split(1) by (rule less_le_trans)
  then have upper: "x < pow2 (?k + 1)" using nd by (simp add: divide_less_eq)
  have "pow2 (?k - 1) * of_int d < of_int n"
    using mult_strict_left_mono [OF b(4) pow2_pos, of "?k - 1"] b(1) unfolding split(2) by (rule less_le_trans)
  then have lower: "pow2 (?k - 1) \<le> x" using nd by (simp add: le_divide_eq)
  show "pow2 (binade x) \<le> x" "x < pow2 (binade x + 1)"
    using upper lower by (auto simp: binade_def q Let_def)
qed

text \<open>One rounding to a \<^verbatim>\<open>double\<close> is off by at most one part in \<open>2\<^sup>5\<^sup>3\<close>.\<close>

lemma to_double_error: "\<bar>to_double x - x\<bar> \<le> \<bar>x\<bar> / 2 ^ 53"
proof (cases "x = 0")
  case False
  then have x: "0 < \<bar>x\<bar>" by simp
  let ?u = "pow2 (binade \<bar>x\<bar> - 52)"
  have u: "0 < ?u" "?u * 2 ^ 52 \<le> \<bar>x\<bar>"
    using binade(1) [OF x] pow2_add [of "binade \<bar>x\<bar> - 52" 52] by (simp_all add: pow2_def)
  have "to_double x - x = sgn x * (of_int (half_even (\<bar>x\<bar> / ?u)) - \<bar>x\<bar> / ?u) * ?u"
    using less_imp_neq [OF u(1)] False by (simp add: to_double_def Let_def left_diff_distrib right_diff_distrib sgn_mult_abs)
  then have "\<bar>to_double x - x\<bar> = \<bar>of_int (half_even (\<bar>x\<bar> / ?u)) - \<bar>x\<bar> / ?u\<bar> * ?u"
    using u(1) False by (simp add: abs_mult abs_sgn_eq abs_of_pos [OF u(1)])
  also have "\<dots> \<le> 1 / 2 * ?u" by (rule mult_right_mono [OF half_even_error less_imp_le [OF u(1)]])
  also have "\<dots> \<le> \<bar>x\<bar> / 2 ^ 53" using u(2) by simp
  finally show ?thesis .
qed (simp add: to_double_def)

lemma to_double_minus: "to_double (- x) = - to_double x"
  by (simp add: to_double_def Let_def)

lemma to_double_sign: "to_double x < 0 \<longleftrightarrow> x < 0"
  using to_double_error [of x] by (auto simp: abs_le_iff abs_if split: if_splits)

lemma to_double_scale: "to_double (of_int kScale) = 100000000"
  by code_simp

lemma divide_error:
  assumes "\<bar>y - a\<bar> \<le> E" "\<bar>a\<bar> \<le> A" "0 < c"
  shows "\<bar>to_double (y / c) - a / c\<bar> \<le> (E + (A + E) / 2 ^ 53) / c"
proof -
  have "\<bar>y\<bar> \<le> A + E" using assms(1,2) by linarith
  then have "\<bar>y\<bar> / c / 2 ^ 53 \<le> (A + E) / c / 2 ^ 53" using assms(3) by (intro divide_right_mono) simp_all
  then have "\<bar>y / c\<bar> / 2 ^ 53 \<le> (A + E) / 2 ^ 53 / c" using assms(3) by (simp add: abs_divide mult.commute)
  moreover have "\<bar>y / c - a / c\<bar> \<le> E / c"
    using assms(1,3) by (simp add: abs_divide divide_right_mono flip: diff_divide_distrib)
  ultimately show ?thesis using to_double_error [of "y / c"] by (simp add: add_divide_distrib)
qed

lemma i64_double:
  assumes "in_i64 n"
  shows "\<bar>rat_of_int n\<bar> \<le> 2 ^ 63" "\<bar>to_double (of_int n) - of_int n\<bar> \<le> 1024"
proof -
  have "\<bar>n\<bar> \<le> 2 ^ 63" using assms by (auto simp: i64_bounds abs_le_iff)
  then have "rat_of_int \<bar>n\<bar> \<le> rat_of_int (2 ^ 63)" by (simp only: of_int_le_iff)
  then show "\<bar>rat_of_int n\<bar> \<le> 2 ^ 63" by simp
  then show "\<bar>to_double (of_int n) - of_int n\<bar> \<le> 1024" using to_double_error [of "of_int n"] by simp
qed

lemma millions_error:
  assumes "in_i64 n"
  shows "\<bar>to_double (to_double (to_double (of_int n) / 100000000) / 1000000) - of_int n / 10 ^ 14\<bar> \<le> 1 / 10 ^ 10"
proof -
  have "\<bar>to_double (to_double (of_int n) / 100000000) - of_int n / 100000000\<bar> \<le> 1 / 40000"
    using divide_error [OF i64_double(2) [OF assms] i64_double(1) [OF assms], of 100000000] by simp
  moreover have "\<bar>of_int n / 100000000 :: rat\<bar> \<le> 2 ^ 37" using i64_double(1) [OF assms] by (simp add: abs_divide)
  ultimately have "\<bar>to_double (to_double (to_double (of_int n) / 100000000) / 1000000) - of_int n / 100000000 / 1000000\<bar>
      \<le> (1 / 40000 + (2 ^ 37 + 1 / 40000) / 2 ^ 53) / 1000000"
    by (rule divide_error) simp
  then show ?thesis by simp
qed

lemma length_to_string: "0 < k \<Longrightarrow> n < 10 ^ k \<Longrightarrow> length (to_string n) \<le> k"
proof (induction k arbitrary: n)
  case (Suc k)
  show ?case
  proof (cases "n < 10")
    case True
    then show ?thesis by (simp add: to_string.simps)
  next
    case False
    with Suc.prems have "0 < k" "n div 10 < 10 ^ k" by (cases k; simp)+
    with Suc.IH [of "n div 10"] False show ?thesis by (simp add: to_string.simps [of n])
  qed
qed simp

lemma i64_quotient: "in_i64 n \<Longrightarrow> 0 < c \<Longrightarrow> \<bar>rat_of_int n\<bar> / c \<le> 2 ^ 63 / c"
  using i64_double(1) [of n] by (rule divide_right_mono) simp_all

lemma close_below: "\<bar>a - b\<bar> \<le> c \<Longrightarrow> b \<le> b' \<Longrightarrow> b' + c < d \<Longrightarrow> a < (d :: rat)"
  by linarith

text \<open>What is printed for a value that is off by at most \<open>E\<close>.\<close>

lemma printf_f_close:
  assumes "\<bar>x - a\<bar> \<le> E" "x < 0 \<longleftrightarrow> a < 0"
  obtains r where "printf_f decimals x = decimal (a < 0) decimals r" "0 \<le> r"
    "\<bar>of_int r - \<bar>a\<bar> * 10 ^ decimals\<bar> \<le> 1 / 2 + E * 10 ^ decimals"
proof -
  let ?r = "half_even (\<bar>x\<bar> * 10 ^ decimals)"
  have "\<bar>\<bar>x\<bar> - \<bar>a\<bar>\<bar> \<le> E" using assms(1) by linarith
  then have "\<bar>\<bar>x\<bar> * 10 ^ decimals - \<bar>a\<bar> * 10 ^ decimals\<bar> \<le> E * 10 ^ decimals"
    by (simp add: mult_right_mono abs_mult flip: left_diff_distrib)
  with half_even_error [of "\<bar>x\<bar> * 10 ^ decimals"] have "\<bar>of_int ?r - \<bar>a\<bar> * 10 ^ decimals\<bar> \<le> 1 / 2 + E * 10 ^ decimals"
    by linarith
  moreover have "0 \<le> ?r" by (rule half_even_nonneg) simp
  ultimately show thesis using assms(2) by (intro that [of ?r]) (simp_all add: printf_f_def)
qed

lemma decimal_length:
  assumes "0 \<le> r" "r < 10 ^ (k + decimals)" "0 < k" "0 < decimals"
  shows "length (decimal negative decimals r) \<le> k + decimals + 2"
proof -
  have "r div 10 ^ decimals * 10 ^ decimals \<le> r" by (simp flip: minus_mod_eq_div_mult)
  from le_less_trans [OF this assms(2) [unfolded power_add]] have "r div 10 ^ decimals < 10 ^ k"
    by (rule mult_right_less_imp_less) simp
  moreover have "\<not> r mod 10 ^ decimals < 0" by (simp add: not_less)
  ultimately show ?thesis
    using length_to_string [OF assms(3)] frac_loop_correct [of decimals "r mod 10 ^ decimals"]
    by (auto simp: decimal_def zero_padded_def intro: le_SucI)
qed

lemma Millions_close:
  assumes "in_i64 n"
  obtains r where "Millions n = pad_left 8 (decimal (n < 0) 3 r) @ ''M''" "0 \<le> r"
    "\<bar>rat_of_int r - \<bar>of_int n\<bar> / 10 ^ 11\<bar> \<le> 1 / 2 + 1 / 10 ^ 7"
proof -
  let ?x = "to_double (to_double (to_double (of_int n) / 100000000) / 1000000)"
  have sign: "?x < 0 \<longleftrightarrow> of_int n / 10 ^ 14 < (0 :: rat)"
    by (simp add: to_double_sign divide_less_0_iff)
  obtain r where r: "printf_f 3 ?x = decimal (of_int n / 10 ^ 14 < (0 :: rat)) 3 r" "0 \<le> r"
    "\<bar>of_int r - \<bar>of_int n / 10 ^ 14\<bar> * 10 ^ 3\<bar> \<le> 1 / 2 + 1 / 10 ^ 10 * (10 ^ 3 :: rat)"
    using millions_error [OF assms] sign by (rule printf_f_close)
  have off: "\<bar>rat_of_int r - \<bar>of_int n\<bar> / 10 ^ 11\<bar> \<le> 1 / 2 + 1 / 10 ^ 7" using r(3) by (simp add: abs_divide)
  then have "rat_of_int r < 10 ^ 8" by (rule close_below [OF _ i64_quotient [OF assms]]) simp_all
  then have "r < 10 ^ 8" by (metis of_int_less_iff of_int_numeral of_int_power)
  then have "length (decimal (n < 0) 3 r) \<le> 10" using decimal_length [OF r(2), of 5 3] by simp
  then have "length (pad_left 8 (decimal (n < 0) 3 r) @ ''M'') \<le> 31" by (simp add: pad_left_def)
  then have "Millions n = pad_left 8 (decimal (n < 0) 3 r) @ ''M''"
    using r(1) by (simp add: Millions_def to_double_scale snprintf32_def divide_less_0_iff)
  with r(2) off show thesis using that by blast
qed

lemma Bps_close:
  assumes "in_i64 n"
  obtains r where "Bps n = decimal (n < 0) 2 r" "0 \<le> r" "\<bar>rat_of_int r - \<bar>of_int n\<bar> / 10 ^ 6\<bar> \<le> 1 / 2 + 1 / 400"
proof -
  let ?x = "to_double (to_double (of_int n) / 100000000)"
  have "\<bar>?x - of_int n / 100000000\<bar> \<le> 1 / 40000"
    using divide_error [OF i64_double(2) [OF assms] i64_double(1) [OF assms], of 100000000] by simp
  moreover have "?x < 0 \<longleftrightarrow> of_int n / 100000000 < (0 :: rat)" by (simp add: to_double_sign divide_less_0_iff)
  ultimately obtain r where r: "printf_f 2 ?x = decimal (of_int n / 100000000 < (0 :: rat)) 2 r" "0 \<le> r"
    "\<bar>of_int r - \<bar>of_int n / 100000000\<bar> * 10 ^ 2\<bar> \<le> 1 / 2 + 1 / 40000 * (10 ^ 2 :: rat)"
    by (rule printf_f_close)
  have off: "\<bar>rat_of_int r - \<bar>of_int n\<bar> / 10 ^ 6\<bar> \<le> 1 / 2 + 1 / 400" using r(3) by (simp add: abs_divide)
  then have "rat_of_int r < 10 ^ 14" by (rule close_below [OF _ i64_quotient [OF assms]]) simp_all
  then have "r < 10 ^ 14" by (metis of_int_less_iff of_int_numeral of_int_power)
  then have "length (decimal (n < 0) 2 r) \<le> 16" using decimal_length [OF r(2), of 12 2] by simp
  then have "Bps n = decimal (n < 0) 2 r"
    using r(1) by (simp add: Bps_def to_double_scale snprintf32_def divide_less_0_iff)
  with r(2) off show thesis using that by blast
qed

lemma whole_millions:
  assumes "0 \<le> n" "n \<le> 92233"
  shows "Millions (n * 1000000 * kScale) = pad_left 8 (to_string n @ ''.000'') @ ''M''"
proof -
  have "in_i64 (n * 1000000 * kScale)" using assms by (simp add: i64_bounds kScale_def)
  then obtain r where r: "Millions (n * 1000000 * kScale) = pad_left 8 (decimal (n * 1000000 * kScale < 0) 3 r) @ ''M''"
    "\<bar>rat_of_int r - \<bar>of_int (n * 1000000 * kScale)\<bar> / 10 ^ 11\<bar> \<le> 1 / 2 + 1 / 10 ^ 7"
    by (rule Millions_close)
  have "\<bar>of_int (n * 1000000 * kScale)\<bar> / 10 ^ 11 = rat_of_int (1000 * n)" using assms(1) by (simp add: kScale_def)
  with r(2) have "\<bar>rat_of_int r - rat_of_int (1000 * n)\<bar> < 1" by simp
  then have "r = 1000 * n" by linarith
  moreover have "\<not> n * 1000000 * kScale < 0" using assms(1) by (simp add: kScale_def)
  moreover have "zero_padded 3 0 = ''000''" by code_simp
  ultimately show ?thesis using r(1) by (simp add: decimal_def)
qed

section \<open>Properties\<close>

text \<open>C36: the numbers that the clients print through floating point are right to the digits shown, for every 64-bit
  value, and never cut off by the buffer: the printed count of thousandths of a million, and of hundredths
  of a basis point, is the exact value rounded, off by no more than half a unit and what three or two
  roundings to a double can add. A whole number of millions, which is what the default bands are, is
  printed as exactly that number.\<close>

theorem display_accurate:
  assumes "in_i64 n"
  shows "(\<exists>r. Millions n = pad_left 8 (decimal (n < 0) 3 r) @ ''M'' \<and> 0 \<le> r \<and>
            \<bar>rat_of_int r - \<bar>of_int n\<bar> / 10 ^ 11\<bar> \<le> 1 / 2 + 1 / 10 ^ 7) \<and>
         (\<exists>r. Bps n = decimal (n < 0) 2 r \<and> 0 \<le> r \<and> \<bar>rat_of_int r - \<bar>of_int n\<bar> / 10 ^ 6\<bar> \<le> 1 / 2 + 1 / 400) \<and>
         (\<forall>m. n = m * 1000000 * kScale \<and> 0 \<le> m \<longrightarrow> Millions n = pad_left 8 (to_string m @ ''.000'') @ ''M'')"
proof (intro conjI allI impI)
  show "\<exists>r. Millions n = pad_left 8 (decimal (n < 0) 3 r) @ ''M'' \<and> 0 \<le> r \<and>
            \<bar>rat_of_int r - \<bar>of_int n\<bar> / 10 ^ 11\<bar> \<le> 1 / 2 + 1 / 10 ^ 7"
    using Millions_close [OF assms] by metis
  show "\<exists>r. Bps n = decimal (n < 0) 2 r \<and> 0 \<le> r \<and> \<bar>rat_of_int r - \<bar>of_int n\<bar> / 10 ^ 6\<bar> \<le> 1 / 2 + 1 / 400"
    using Bps_close [OF assms] by metis
  fix m assume m: "n = m * 1000000 * kScale \<and> 0 \<le> m"
  with assms have "m \<le> 92233" by (simp add: i64_bounds kScale_def)
  with m whole_millions show "Millions n = pad_left 8 (to_string m @ ''.000'') @ ''M''" by simp
qed

theorem display_accurate_witness:
  "Millions 123456789012345 = pad_left 8 (decimal False 3 1235) @ ''M'' \<and> Millions (50 * 1000000 * kScale) = ''  50.000M''"
proof -
  have "in_i64 123456789012345" "in_i64 (50 * 1000000 * kScale)" by (simp_all add: i64_bounds kScale_def)
  note acc = this [THEN display_accurate]
  from acc(1) obtain r where
    r: "Millions 123456789012345 = pad_left 8 (decimal False 3 r) @ ''M''" "\<bar>rat_of_int r - 123456789012345 / 10 ^ 11\<bar> \<le> 1 / 2 + 1 / 10 ^ 7"
    by auto
  have "rat_of_int r < 1236" using r(2) order_refl by (rule close_below) simp
  moreover have "rat_of_int (- r) < - 1234"
    by (rule close_below [of _ "- (123456789012345 / 10 ^ 11)" "1 / 2 + 1 / 10 ^ 7", OF _ order_refl])
      (use r(2) in \<open>simp_all add: abs_minus_commute\<close>)
  ultimately have "r = 1235" by linarith
  moreover have "to_string 50 = ''50''" by code_simp
  moreover have "Millions (50 * 1000000 * kScale) = pad_left 8 (to_string 50 @ ''.000'') @ ''M''" using acc(2) by auto
  ultimately show ?thesis using r(1) by (simp add: pad_left_def numeral_eq_Suc)
qed

end
