(* ===== verification/Clients.thy ===== *)
theory Clients
  imports Service Flags Display
begin

text \<open>
  The console clients (\<^verbatim>\<open>src/clients/\<close>) and their log (\<^verbatim>\<open>src/common/log.h\<close>): the options, the requests they send, the
  records they print, the loop that reads a stream, and the status query that doubles as the health
  check. What gRPC delivers is a parameter, a function of the request: whether the server became
  reachable, the updates a stream yields and the final status, with \<open>None\<close> for success and the message
  otherwise. The JSON printer of the protobuf library and the file system are parameters too.
\<close>

section \<open>Options\<close>

record ClientOptions =
  co_server :: string
  co_instrument :: string
  co_min_interval_micros :: int
  co_json :: bool
  co_out_file :: string
  co_max_updates :: int

definition client_flags :: "string list" where
  "client_flags = [''server'', ''instrument'', ''min-interval-us'', ''json'', ''max-updates'', ''quiet'', ''out-file'']"

definition RequireKnownClientFlags :: "FlagValues \<Rightarrow> string list \<Rightarrow> unit flag_result" where
  "RequireKnownClientFlags flags extra = RequireKnown (client_flags @ extra) flags"

definition ParseClientOptions :: "FlagValues \<Rightarrow> ClientOptions flag_result" where
  "ParseClientOptions flags =
     (case GetIntIn flags ''min-interval-us'' 0 0 60000000 of
        Inl reason \<Rightarrow> Inl reason
      | Inr micros \<Rightarrow>
          (case GetBool flags ''json'' False of
             Inl reason \<Rightarrow> Inl reason
           | Inr json \<Rightarrow>
               (case GetIntIn flags ''max-updates'' 0 0 1000000 of
                  Inl reason \<Rightarrow> Inl reason
                | Inr max_updates \<Rightarrow>
                    Inr \<lparr>co_server = Get flags ''server'' ''localhost:50051'', co_instrument = Get flags ''instrument'' [],
                         co_min_interval_micros = micros mod 2 ^ 32, co_json = json,
                         co_out_file = Get flags ''out-file'' [], co_max_updates = max_updates\<rparr>)))"

definition FillSubscription :: "ClientOptions \<Rightarrow> Subscription" where
  "FillSubscription options =
     \<lparr>sn_instrument = co_instrument options, sn_min_interval_micros = co_min_interval_micros options\<rparr>"

section \<open>Band lists\<close>

text \<open>The loop of \<^verbatim>\<open>SplitCsv\<close> over the text and a final comma.\<close>

fun split_loop :: "string \<Rightarrow> string \<Rightarrow> string list" where
  "split_loop item [] = []"
| "split_loop item (c # cs) =
     (if c \<noteq> CHR '','' then split_loop (item @ [c]) cs
      else if item \<noteq> [] then item # split_loop [] cs
      else split_loop item cs)"

definition SplitCsv :: "string \<Rightarrow> string list" where
  "SplitCsv str = split_loop [] (str @ [CHR '',''])"

text \<open>
  \<^verbatim>\<open>std::atoll\<close>: leading white space, an optional sign, as many digits as there are; without a digit the
  result is zero, and a value that does not fit is clamped, as \<^verbatim>\<open>strtoll\<close> has it.
\<close>

definition is_space :: "char \<Rightarrow> bool" where
  "is_space c \<longleftrightarrow> c \<in> {CHR '' '', CHR 0x09, CHR 0x0A, CHR 0x0B, CHR 0x0C, CHR 0x0D}"

definition atoll :: "string \<Rightarrow> i64" where
  "atoll str =
     (let body = dropWhile is_space str;
          negative = (body \<noteq> [] \<and> hd body = CHR ''-'');
          signed = (body \<noteq> [] \<and> (hd body = CHR ''-'' \<or> hd body = CHR ''+''));
          digits = takeWhile is_digit (if signed then tl body else body);
          value = (if negative then - dec_val 0 digits else dec_val 0 digits)
      in max INT64_MIN (min INT64_MAX value))"

text \<open>The requests of the two band clients: the thresholds scaled in 64 bits.\<close>

definition band_request :: "FlagValues \<Rightarrow> string \<Rightarrow> i64 list" where
  "band_request flags key = map (\<lambda>band. wrap64 (atoll band * kScale)) (SplitCsv (Get flags key []))"

definition volume_bands_request :: "FlagValues \<Rightarrow> i64 list" where
  "volume_bands_request flags = band_request flags ''bands-usd''"

definition price_bands_request :: "FlagValues \<Rightarrow> i64 list" where
  "price_bands_request flags = band_request flags ''bands-bps''"

section \<open>Rendering\<close>

definition FmtPx :: "i64 \<Rightarrow> string" where
  "FmtPx value_e8 = FormatFixed value_e8 2"

definition FmtQty :: "i64 \<Rightarrow> string" where
  "FmtQty value_e8 = FormatFixed value_e8 8"

definition BpsLabel :: "i64 \<Rightarrow> string" where
  "BpsLabel bps_e8 = FormatFixed bps_e8 0"

definition VenueBreakdown :: "QuoteMsg \<Rightarrow> string" where
  "VenueBreakdown quote = concat (map (\<lambda>(venue, qty). venue @ '':'' @ FmtQty qty @ '' '') (qu_venues quote))"

text \<open>\<^verbatim>\<open>line.pop_back()\<close> when the line ends with a comma.\<close>

definition drop_comma :: "string \<Rightarrow> string" where
  "drop_comma line = (if last line = CHR '','' then butlast line else line)"

definition Header :: "SnapshotMeta \<Rightarrow> TouchMsg \<Rightarrow> string" where
  "Header meta touch =
     (let line = ''seq='' @ to_string (uint (me_sequence meta)) @ '' '' @ FormatWallNs (me_publish_ts_ns meta);
          line = (if to_crossed touch then line @ '' CROSSED'' else line);
          line = (if me_stale_venues meta \<noteq> []
                  then butlast (line @ '' stale='' @ concat (map (\<lambda>venue. venue @ '','') (me_stale_venues meta))) else line);
          line = line @ '' venues='' @ concat (map (\<lambda>venue. venue @ '','') (me_contributing_venues meta))
      in drop_comma line)"

definition Line :: "string \<Rightarrow> string" where
  "Line str = str @ [CHR 0x0A]"

text \<open>\<^verbatim>\<open>bbo_main.cc\<close>\<close>

definition Quote_line :: "string \<Rightarrow> QuoteMsg \<Rightarrow> string" where
  "Quote_line label quote =
     Line (''      '' @ label @ '' '' @ pad_left 14 (FmtPx (qu_price_e8 quote)) @ '' x '' @ pad_left 14 (FmtQty (qu_qty_e8 quote)) @
           ''   '' @ VenueBreakdown quote)"

definition bbo_Render :: "BboUpdate \<Rightarrow> string" where
  "bbo_Render update =
     (let touch = up_touch update
      in Line (''[bbo] '' @ Header (up_meta update) touch) @ Quote_line ''bid'' (up_bid update) @ Quote_line ''ask'' (up_ask update) @
         Line (''      spread '' @ FmtPx (to_spread_e8 touch) @ '' ('' @ Bps (to_spread_bps_e8 touch) @ '' bps)  mid '' @
               FmtPx (to_mid_price_e8 touch)))"

text \<open>\<^verbatim>\<open>volume_bands_main.cc\<close>: the open-ended band is labelled with the largest finite threshold.\<close>

definition volume_RenderSide :: "string \<Rightarrow> VolumeBandMsg list \<Rightarrow> string" where
  "volume_RenderSide label bands =
     (let largest = foldl (\<lambda>largest band. if \<not> vm_open_ended band then max largest (vm_notional_target_e8 band) else largest) 0 bands
      in concat (map (\<lambda>band.
           let target = (if vm_open_ended band then Millions largest @ ''+'' else Millions (vm_notional_target_e8 band) @ '' '')
           in Line (''      '' @ label @ '' '' @ target @ ''  vwap '' @ pad_left 14 (FmtPx (vm_vwap_price_e8 band)) @
                    ''  worst '' @ pad_left 14 (FmtPx (vm_worst_price_e8 band)) @
                    ''  qty '' @ pad_left 14 (FmtQty (vm_filled_qty_e8 band)) @
                    ''  filled '' @ Millions (vm_filled_notional_e8 band) @ ''  levels '' @ int_to_string (vm_levels_consumed band))) bands))"

definition volume_Render :: "VolumeBandsUpdate \<Rightarrow> string" where
  "volume_Render update =
     Line (''[vol] '' @ Header (up_meta update) (up_touch update)) @
     volume_RenderSide ''BID'' (up_bid update) @ volume_RenderSide ''ASK'' (up_ask update)"

text \<open>\<^verbatim>\<open>price_bands_main.cc\<close>\<close>

definition price_RenderSide :: "string \<Rightarrow> PriceBandMsg list \<Rightarrow> string" where
  "price_RenderSide label bands =
     (let largest = foldl (\<lambda>largest band. if \<not> pm_open_ended band then max largest (pm_offset_bps_e8 band) else largest) 0 bands
      in concat (map (\<lambda>band.
           let offset = (if pm_open_ended band then BpsLabel largest @ ''bps+'' else BpsLabel (pm_offset_bps_e8 band) @ ''bps '')
           in Line (''      '' @ label @ '' '' @ pad_left 9 offset @ ''  bound '' @ pad_left 14 (FmtPx (pm_bound_price_e8 band)) @
                    ''  qty '' @ pad_left 14 (FmtQty (pm_qty_e8 band)) @ ''  notional '' @ Millions (pm_notional_e8 band) @
                    ''  vwap '' @ pad_left 14 (FmtPx (pm_vwap_price_e8 band)) @
                    ''  levels '' @ pad_left 5 (int_to_string (pm_levels band)) @
                    (if pm_depth_limited band then ''  [depth-limited]'' else []))) bands))"

definition price_Render :: "PriceBandsUpdate \<Rightarrow> string" where
  "price_Render update =
     Line (''[px ] '' @ Header (up_meta update) (up_touch update)) @
     price_RenderSide ''BID'' (up_bid update) @ price_RenderSide ''ASK'' (up_ask update)"

text \<open>\<^verbatim>\<open>status_main.cc\<close>; the names are those of the enumeration in \<^verbatim>\<open>proto/md/v1/status.proto\<close>.\<close>

fun ConnState_Name :: "VenueState \<Rightarrow> string" where
  "ConnState_Name kDisconnected = ''CONN_STATE_DISCONNECTED''"
| "ConnState_Name kConnecting = ''CONN_STATE_CONNECTING''"
| "ConnState_Name kSyncing = ''CONN_STATE_SYNCING''"
| "ConnState_Name kLive = ''CONN_STATE_LIVE''"
| "ConnState_Name kStale = ''CONN_STATE_STALE''"

definition u64_text :: "u64 \<Rightarrow> string" where
  "u64_text n = to_string (uint n)"

definition status_line :: "VenueStatusMsg \<Rightarrow> string" where
  "status_line venue =
     Line (''  '' @ pad_right 8 (vx_venue venue) @ '' '' @ pad_right 22 (vx_venue_symbol venue) @ '' '' @
           pad_right 12 (ConnState_Name (vx_state venue)) @ '' msgs='' @ pad_right 8 (u64_text (vx_messages venue)) @
           '' resync='' @ pad_right 4 (u64_text (vx_resyncs venue)) @ '' gaps='' @ pad_right 4 (u64_text (vx_sequence_gaps venue)) @
           '' overflow='' @ pad_right 4 (u64_text (vx_ring_overflows venue)) @
           '' bids='' @ pad_right 5 (int_to_string (int (vx_bid_levels venue))) @
           '' asks='' @ pad_right 5 (int_to_string (int (vx_ask_levels venue))) @
           ''  '' @ FmtPx (vx_best_bid_e8 venue) @ '' / '' @ FmtPx (vx_best_ask_e8 venue))"

definition status_Render :: "VenueStatusResponse \<Rightarrow> string" where
  "status_Render response =
     (let latency = sr_aggregation_latency response
      in Line (''published='' @ u64_text (sr_published_snapshots response) @
               ''  latency p50='' @ int_to_string (ls_p50_ns latency sdiv 1000) @ ''us p99='' @ int_to_string (ls_p99_ns latency sdiv 1000) @
               ''us max='' @ int_to_string (ls_max_ns latency sdiv 1000) @
               ''us  uptime='' @ int_to_string (sr_uptime_ns response sdiv 1000000000) @ ''s'')) @
     concat (map status_line (sr_venues response))"

section \<open>Writing\<close>

definition Log :: "i64 \<Rightarrow> string \<Rightarrow> string \<Rightarrow> string" where
  "Log now component reason = FormatWallNs now @ '' ['' @ component @ ''] '' @ reason @ [CHR 0x0A]"

text \<open>What has gone to standard output, and to the file when it is open.\<close>

record Output =
  ou_stdout :: string
  ou_file :: "string option"

text \<open>The file is opened for appending; a failure is logged and otherwise ignored.\<close>

definition new_output :: "(string \<Rightarrow> bool) \<Rightarrow> i64 \<Rightarrow> string \<Rightarrow> Output \<times> string" where
  "new_output opens now path =
     (if path = [] then (\<lparr>ou_stdout = [], ou_file = None\<rparr>, [])
      else if opens path then (\<lparr>ou_stdout = [], ou_file = Some []\<rparr>, [])
      else (\<lparr>ou_stdout = [], ou_file = None\<rparr>, Log now ''output'' (''cannot open '' @ path @ '' for writing'')))"

definition Output_Write :: "Output \<Rightarrow> string \<Rightarrow> Output" where
  "Output_Write out entry =
     out\<lparr>ou_stdout := ou_stdout out @ entry, ou_file := map_option (\<lambda>file. file @ entry) (ou_file out)\<rparr>"

text \<open>The record, and what goes to standard error when the update cannot be serialised.\<close>

definition ToJson :: "('u \<Rightarrow> string + string) \<Rightarrow> 'u \<Rightarrow> string \<times> string" where
  "ToJson json update =
     (case json update of
        Inl reason \<Rightarrow> ([], ''failed to serialise update as JSON: '' @ reason @ [CHR 0x0A])
      | Inr out \<Rightarrow> (out @ [CHR 0x0A], []))"

definition record_of :: "ClientOptions \<Rightarrow> ('u \<Rightarrow> string + string) \<Rightarrow> ('u \<Rightarrow> string) \<Rightarrow> 'u \<Rightarrow> string \<times> string" where
  "record_of options json render update = (if co_json options then ToJson json update else (render update, []))"

section \<open>Reading a stream\<close>

text \<open>The output and the error text, and whether the call was cancelled.\<close>

fun read_loop :: "ClientOptions \<Rightarrow> ('u \<Rightarrow> string \<times> string) \<Rightarrow> int \<Rightarrow> 'u list \<Rightarrow> Output \<times> string \<Rightarrow> (Output \<times> string) \<times> bool" where
  "read_loop options f done_so_far [] oe = (oe, False)"
| "read_loop options f done_so_far (update # updates) oe =
     (let (entry, err) = f update;
          oe' = (Output_Write (fst oe) entry, snd oe @ err)
      in if co_max_updates options > 0 \<and> done_so_far + 1 \<ge> co_max_updates options then (oe', True)
         else read_loop options f (if co_max_updates options > 0 then done_so_far + 1 else done_so_far) updates oe')"

definition StreamLoop ::
  "ClientOptions \<Rightarrow> ('u \<Rightarrow> string + string) \<Rightarrow> ('u \<Rightarrow> string) \<Rightarrow> 'u list \<Rightarrow> string option \<Rightarrow> Output \<times> string \<Rightarrow>
     Output \<times> string \<times> bool \<times> int" where
  "StreamLoop options json render updates status oe =
     (let ((out, err), cancelled) = read_loop options (record_of options json render) 0 updates oe
      in case status of
           Some reason \<Rightarrow>
             if co_max_updates options = 0 then (out, err @ ''stream ended: '' @ reason @ [CHR 0x0A], cancelled, 1)
             else (out, err, cancelled, 0)
         | None \<Rightarrow> (out, err, cancelled, 0))"

section \<open>The programs\<close>

record 'u Reply =
  re_reachable :: bool
  re_updates :: "'u list"
  re_status :: "string option"

record ClientResult =
  cl_stdout :: string
  cl_file :: "string option"
  cl_stderr :: string
  cl_exit :: int

definition flag_failure :: "string \<Rightarrow> ClientResult" where
  "flag_failure reason = \<lparr>cl_stdout = [], cl_file = None, cl_stderr = reason @ [CHR 0x0A], cl_exit = 2\<rparr>"

definition client_options :: "string list \<Rightarrow> string list \<Rightarrow> (FlagValues \<times> ClientOptions) flag_result" where
  "client_options argv extra =
     (case new_flags argv of
        Inl reason \<Rightarrow> Inl reason
      | Inr flags \<Rightarrow>
          (case RequireKnownClientFlags flags extra of
             Inl reason \<Rightarrow> Inl reason
           | Inr _ \<Rightarrow>
               (case ParseClientOptions flags of Inl reason \<Rightarrow> Inl reason | Inr options \<Rightarrow> Inr (flags, options))))"

definition client_Connect :: "string \<Rightarrow> bool \<Rightarrow> string" where
  "client_Connect server reachable =
     ''connecting to '' @ server @ ''...'' @ [CHR 0x0A] @
     (if reachable then [] else server @ '' did not become reachable within 120s'' @ [CHR 0x0A])"

definition run_client ::
  "(string \<Rightarrow> bool) \<Rightarrow> i64 \<Rightarrow> ClientOptions \<Rightarrow> ('u \<Rightarrow> string + string) \<Rightarrow> ('u \<Rightarrow> string) \<Rightarrow> 'u Reply \<Rightarrow> ClientResult" where
  "run_client opens now options json render reply =
     (let (out, log) = new_output opens now (co_out_file options);
          (out', err, cancelled, code) = StreamLoop options json render (re_updates reply) (re_status reply)
             (out, client_Connect (co_server options) (re_reachable reply) @ log)
      in \<lparr>cl_stdout = ou_stdout out', cl_file = ou_file out', cl_stderr = err, cl_exit = code\<rparr>)"

definition bbo_main ::
  "(string \<Rightarrow> bool) \<Rightarrow> i64 \<Rightarrow> (BboUpdate \<Rightarrow> string + string) \<Rightarrow> (Subscription \<Rightarrow> BboUpdate Reply) \<Rightarrow> string list \<Rightarrow> ClientResult" where
  "bbo_main opens now json call argv =
     (case client_options argv [] of
        Inl reason \<Rightarrow> flag_failure reason
      | Inr (flags, options) \<Rightarrow> run_client opens now options json bbo_Render (call (FillSubscription options)))"

definition volume_bands_main ::
  "(string \<Rightarrow> bool) \<Rightarrow> i64 \<Rightarrow> (VolumeBandsUpdate \<Rightarrow> string + string) \<Rightarrow> (Subscription \<Rightarrow> i64 list \<Rightarrow> VolumeBandsUpdate Reply) \<Rightarrow>
     string list \<Rightarrow> ClientResult" where
  "volume_bands_main opens now json call argv =
     (case client_options argv [''bands-usd''] of
        Inl reason \<Rightarrow> flag_failure reason
      | Inr (flags, options) \<Rightarrow>
          run_client opens now options json volume_Render (call (FillSubscription options) (volume_bands_request flags)))"

definition price_bands_main ::
  "(string \<Rightarrow> bool) \<Rightarrow> i64 \<Rightarrow> (PriceBandsUpdate \<Rightarrow> string + string) \<Rightarrow> (Subscription \<Rightarrow> i64 list \<Rightarrow> PriceBandsUpdate Reply) \<Rightarrow>
     string list \<Rightarrow> ClientResult" where
  "price_bands_main opens now json call argv =
     (case client_options argv [''bands-bps''] of
        Inl reason \<Rightarrow> flag_failure reason
      | Inr (flags, options) \<Rightarrow>
          run_client opens now options json price_Render (call (FillSubscription options) (price_bands_request flags)))"

text \<open>The status query: a message or the response. \<^verbatim>\<open>--quiet\<close> is read after the common options.\<close>

definition status_main ::
  "(string \<Rightarrow> bool) \<Rightarrow> i64 \<Rightarrow> (VenueStatusResponse \<Rightarrow> string + string) \<Rightarrow> (string \<Rightarrow> string + VenueStatusResponse) \<Rightarrow> string list \<Rightarrow>
     ClientResult" where
  "status_main opens now json call argv =
     (case client_options argv [] of
        Inl reason \<Rightarrow> flag_failure reason
      | Inr (flags, options) \<Rightarrow>
          (case GetBool flags ''quiet'' False of
             Inl reason \<Rightarrow> flag_failure reason
           | Inr quiet \<Rightarrow>
               (case call (co_server options) of
                  Inl reason \<Rightarrow>
                    \<lparr>cl_stdout = [], cl_file = None,
                     cl_stderr = (if quiet then [] else Log now ''status'' (''query failed: '' @ reason)), cl_exit = 1\<rparr>
                | Inr response \<Rightarrow>
                    (let live = length (filter (\<lambda>venue. vx_state venue = kLive) (sr_venues response));
                         code = (if live > 0 then 0 else 1)
                     in if quiet then \<lparr>cl_stdout = [], cl_file = None, cl_stderr = [], cl_exit = code\<rparr>
                        else let (out, log) = new_output opens now (co_out_file options);
                                 (entry, err) = record_of options json status_Render response;
                                 out' = Output_Write out entry
                             in \<lparr>cl_stdout = ou_stdout out', cl_file = ou_file out', cl_stderr = log @ err, cl_exit = code\<rparr>))))"

section \<open>Lists of bands\<close>

definition join_csv :: "string list \<Rightarrow> string" where
  "join_csv items = concat (map (\<lambda>item. item @ [CHR '','']) items)"

lemma split_loop_item: "CHR '','' \<notin> set item \<Longrightarrow> split_loop acc (item @ cs) = split_loop (acc @ item) cs"
  by (induction item arbitrary: acc) auto

lemma split_join:
  "\<forall>item\<in>set items. item \<noteq> [] \<and> CHR '','' \<notin> set item \<Longrightarrow> split_loop [] (join_csv items) = items"
proof (induction items)
  case (Cons item items)
  then have "split_loop [] (item @ CHR '','' # join_csv items) = split_loop item (CHR '','' # join_csv items)"
    using split_loop_item [of item "[]"] by simp
  with Cons show ?case by (simp add: join_csv_def)
qed (simp add: join_csv_def)

lemma atoll_digits:
  assumes "0 \<le> n" "n \<le> INT64_MAX"
  shows "atoll (to_string n) = n"
proof -
  note t = to_string_correct [OF assms(1)]
  then obtain c cs where "to_string n = c # cs" "is_digit c" by (cases "to_string n") auto
  moreover have "\<not> is_digit CHR ''-''" "\<not> is_digit CHR ''+''" by code_simp+
  moreover have "\<not> is_space c" if "is_digit c" for c using that by (auto simp: is_space_def is_digit_def)
  ultimately have "dropWhile is_space (to_string n) = to_string n" "hd (to_string n) \<noteq> CHR ''-''" "hd (to_string n) \<noteq> CHR ''+''"
    by auto
  moreover have whole: "takeWhile is_digit (to_string n) = to_string n" using t by (simp add: list_all_iff)
  ultimately show ?thesis using assms t by (simp add: atoll_def Let_def INT64_MIN_def whole)
qed

lemma sort_scaled: "sort (map (\<lambda>n. n * kScale) ns) = map (\<lambda>n. n * kScale) (sort ns)"
proof (rule properties_for_sort)
  have "n * kScale \<le> m * kScale" if "n \<le> m" for n m using that by (simp add: mult_right_mono)
  then show "sorted (map (\<lambda>n. n * kScale) (sort ns))"
    by (simp add: sorted_map)
qed simp

lemma band_request_digits:
  assumes "Get flags key [] @ [CHR '',''] = join_csv (map to_string ns)"
    and "\<forall>n\<in>set ns. 0 < n \<and> n \<le> kMaxIntegerPart"
  shows "band_request flags key = map (\<lambda>n. n * kScale) ns"
proof -
  have item: "to_string n \<noteq> [] \<and> CHR '','' \<notin> set (to_string n)" if "n \<in> set ns" for n
  proof -
    have "\<not> is_digit CHR '',''" by code_simp
    with to_string_correct [of n] assms(2) that show ?thesis by (auto simp: list_all_iff)
  qed
  then have "SplitCsv (Get flags key []) = map to_string ns"
    unfolding SplitCsv_def assms(1) by (intro split_join) auto
  moreover have "wrap64 (atoll (to_string n) * kScale) = n * kScale" if "n \<in> set ns" for n
  proof -
    have n: "0 < n" "n \<le> 92233720368" using assms(2) that by (auto simp: kMaxIntegerPart_eq)
    then have "atoll (to_string n) = n" by (intro atoll_digits) (simp_all add: INT64_MAX_def)
    with n show ?thesis by (simp add: wrap64_id i64_bounds kScale_def)
  qed
  ultimately show ?thesis by (simp add: band_request_def)
qed

section \<open>Properties\<close>

text \<open>Thresholds typed on the command line of the volume client reach the server unchanged: a list of at most
  32 distinct positive amounts, none above the largest that the fixed-point scale can hold, becomes
  exactly these amounts, scaled and in ascending order, in the server's configuration.\<close>

theorem client_bands_reach_server:
  assumes "Get flags ''bands-usd'' [] @ [CHR '',''] = join_csv (map to_string ns)"
    and "ns \<noteq> []" "length ns \<le> 32" "distinct ns" "\<forall>n\<in>set ns. 0 < n \<and> n \<le> kMaxIntegerPart"
  shows "MakeVolumeConfig (volume_bands_request flags) =
     Inr \<lparr>notionals_e8 = map (\<lambda>n. n * kScale) (sort ns), offsets_bps_e8 = []\<rparr>"
proof -
  let ?bands = "map (\<lambda>n. n * kScale) ns"
  have "volume_bands_request flags = ?bands"
    unfolding volume_bands_request_def by (rule band_request_digits [OF assms(1,5)])
  moreover have "NormaliseBands field ?bands defaults = Inr (sort ?bands)" for field defaults
    using assms(2-5) by (subst NormaliseBands_valid) (auto simp: list_all_iff distinct_map inj_on_def)
  ultimately show ?thesis by (simp add: MakeVolumeConfig_def sort_scaled)
qed

theorem client_bands_reach_server_witness:
  "MakeVolumeConfig (volume_bands_request [(''bands-usd'', ''5000000,250'')]) =
     Inr \<lparr>notionals_e8 = [25000000000, 500000000000000], offsets_bps_e8 = []\<rparr>"
proof -
  have "Get [(''bands-usd'', ''5000000,250'')] ''bands-usd'' [] @ [CHR '',''] = join_csv (map to_string [5000000, 250])"
    by code_simp
  from client_bands_reach_server [OF this] show ?thesis by (simp add: kMaxIntegerPart_eq kScale_def insort_key_def)
qed

lemma writes: "foldl Output_Write out entries =
   out\<lparr>ou_stdout := ou_stdout out @ concat entries, ou_file := map_option (\<lambda>file. file @ concat entries) (ou_file out)\<rparr>"
proof (induction entries arbitrary: out)
  case (Cons entry entries)
  then show ?case by (cases "ou_file out") (simp_all add: Output_Write_def)
qed (simp add: option.map_ident)

definition after_records :: "('u \<Rightarrow> string \<times> string) \<Rightarrow> 'u list \<Rightarrow> Output \<times> string \<Rightarrow> Output \<times> string" where
  "after_records f updates oe =
     (foldl Output_Write (fst oe) (map (fst \<circ> f) updates), snd oe @ concat (map (snd \<circ> f) updates))"

lemma after_records_simps [simp]:
  "after_records f [] oe = oe"
  "after_records f (update # updates) oe = after_records f updates (Output_Write (fst oe) (fst (f update)), snd oe @ snd (f update))"
  by (simp_all add: after_records_def)

lemma read_loop_spec:
  assumes "0 < co_max_updates options" "0 \<le> n" "n < co_max_updates options"
  shows "read_loop options f n updates oe =
     (after_records f (take (nat (co_max_updates options - n)) updates) oe, co_max_updates options - n \<le> int (length updates))"
  using assms(2,3)
proof (induction updates arbitrary: n oe)
  case (Cons update updates)
  show ?case
  proof (cases "co_max_updates options \<le> n + 1")
    case True
    with Cons.prems have "co_max_updates options - n = 1" by simp
    with True assms(1) show ?thesis by (simp add: split_beta Let_def)
  next
    case False
    then have "nat (co_max_updates options - n) = Suc (nat (co_max_updates options - (n + 1)))" by simp
    with False assms(1) Cons.prems Cons.IH [of "n + 1"] show ?thesis by (auto simp: not_le split_beta Let_def)
  qed
qed (use assms in simp)

lemma read_loop_forever: "co_max_updates options = 0 \<Longrightarrow> read_loop options f n updates oe = (after_records f updates oe, False)"
  by (induction updates arbitrary: oe) (simp_all add: split_beta Let_def)

text \<open>The updates that are shown.\<close>

definition shown_updates :: "ClientOptions \<Rightarrow> 'u list \<Rightarrow> 'u list" where
  "shown_updates options updates =
     (if co_max_updates options = 0 then updates else take (nat (co_max_updates options)) updates)"

lemma StreamLoop_eq:
  assumes "0 \<le> co_max_updates options"
  shows "StreamLoop options json render updates status oe =
     (let (out, err) = after_records (record_of options json render) (shown_updates options updates) oe
      in (out, err @ (if co_max_updates options = 0 then case status of None \<Rightarrow> [] | Some reason \<Rightarrow> ''stream ended: '' @ reason @ [CHR 0x0A] else []),
          0 < co_max_updates options \<and> co_max_updates options \<le> int (length updates),
          if status \<noteq> None \<and> co_max_updates options = 0 then 1 else 0))"
  using read_loop_spec [of options 0 _ updates oe] read_loop_forever [of options _ 0 updates oe] assms
  by (cases "co_max_updates options = 0"; cases status) (simp_all add: StreamLoop_def shown_updates_def split_beta Let_def)

lemma run_client_stdout:
  assumes "0 \<le> co_max_updates options"
  shows "cl_stdout (run_client opens now options json render reply) =
     concat (map (fst \<circ> record_of options json render) (shown_updates options (re_updates reply)))"
proof -
  obtain out log where out: "new_output opens now (co_out_file options) = (out, log)" by fastforce
  then have "ou_stdout out = []" by (auto simp: new_output_def split: if_splits)
  then show ?thesis by (simp add: run_client_def out StreamLoop_eq [OF assms] after_records_def writes)
qed

text \<open>C35: a client writes one record per update, in order, and nothing else to standard output; the file, when it
  is open, receives the same. With a limit it writes exactly that many records, or all there were if the
  stream ended earlier, cancels the call exactly when the limit was reached, and succeeds; without a
  limit it fails, with a message on standard error, exactly when the stream ended with an error.\<close>

theorem StreamLoop_updates:
  assumes "0 \<le> co_max_updates options"
    and "shown = (if co_max_updates options = 0 then updates else take (nat (co_max_updates options)) updates)"
    and "entries = map (record_of options json render) shown"
  shows "StreamLoop options json render updates status (out, err) =
     (out\<lparr>ou_stdout := ou_stdout out @ concat (map fst entries),
          ou_file := map_option (\<lambda>file. file @ concat (map fst entries)) (ou_file out)\<rparr>,
      err @ concat (map snd entries) @
        (if co_max_updates options = 0 then case status of None \<Rightarrow> [] | Some reason \<Rightarrow> ''stream ended: '' @ reason @ [CHR 0x0A] else []),
      0 < co_max_updates options \<and> co_max_updates options \<le> int (length updates),
      if status \<noteq> None \<and> co_max_updates options = 0 then 1 else 0)"
  unfolding assms(2,3) by (simp add: StreamLoop_eq [OF assms(1)] after_records_def writes shown_updates_def comp_def)

theorem StreamLoop_updates_witness:
  "StreamLoop \<lparr>co_server = [], co_instrument = [], co_min_interval_micros = 0, co_json = False, co_out_file = [],
       co_max_updates = 2\<rparr> (\<lambda>_. Inl []) (\<lambda>u. u) [''a'', ''b'', ''c''] (Some ''x'') (\<lparr>ou_stdout = [], ou_file = Some ''z''\<rparr>, []) =
     (\<lparr>ou_stdout = ''ab'', ou_file = Some ''zab''\<rparr>, [], True, 0)"
  using StreamLoop_updates [of "\<lparr>co_server = [], co_instrument = [], co_min_interval_micros = 0, co_json = False,
       co_out_file = [], co_max_updates = 2\<rparr>" _ "[''a'', ''b'', ''c'']" _ "\<lambda>_. Inl []" "\<lambda>u. u", OF _ refl refl]
  by (simp add: record_of_def)

text \<open>The status query is a sound health check: it succeeds exactly when its flags are valid, the query was answered
  and some venue is live in the answer, whatever else it prints; with \<^verbatim>\<open>--quiet\<close> it then prints nothing.\<close>

theorem status_main_health:
  shows "cl_exit (status_main opens now json call argv) = 0 \<longleftrightarrow>
     (\<exists>flags options quiet response. client_options argv [] = Inr (flags, options) \<and> GetBool flags ''quiet'' False = Inr quiet \<and>
        call (co_server options) = Inr response \<and> (\<exists>venue\<in>set (sr_venues response). vx_state venue = kLive) \<and>
        (quiet \<longrightarrow> cl_stdout (status_main opens now json call argv) = [] \<and> cl_stderr (status_main opens now json call argv) = []))"
proof (cases "client_options argv []")
  case (Inr fo)
  obtain flags options where fo: "fo = (flags, options)" by (cases fo)
  have live: "0 < length (filter (\<lambda>venue. vx_state venue = kLive) venues) \<longleftrightarrow> (\<exists>venue\<in>set venues. vx_state venue = kLive)" for venues
    by (auto simp: filter_empty_conv)
  show ?thesis
    using live
    by (cases "GetBool flags ''quiet'' False"; cases "call (co_server options)")
      (auto simp: status_main_def Inr fo flag_failure_def Let_def split_beta split: if_splits)
qed (simp add: status_main_def flag_failure_def)

definition example_response :: VenueStatusResponse where
  "example_response =
     \<lparr>sr_venues = [venue_status \<lparr>vf_name = ''okx'', vf_venue_symbol = ''BTC-USDT''\<rparr>
        (default_stats\<lparr>vs_state := kLive\<rparr>)],
      sr_aggregation_latency = \<lparr>ls_p50_ns = 1000, ls_p99_ns = 2000, ls_max_ns = 3000, ls_count = 1\<rparr>, sr_published_snapshots = 1,
      sr_server_ts_ns = 0, sr_uptime_ns = 0\<rparr>"

theorem status_main_health_witness:
  "cl_exit (status_main (\<lambda>_. False) 0 (\<lambda>_. Inl []) (\<lambda>_. Inr example_response) [''status'', ''--quiet'']) = 0 \<and>
   cl_stdout (status_main (\<lambda>_. False) 0 (\<lambda>_. Inl []) (\<lambda>_. Inr example_response) [''status'', ''--quiet'']) = []"
proof -
  have q: "case client_options [''status'', ''--quiet''] [] of Inl _ \<Rightarrow> False | Inr (flags, options) \<Rightarrow> GetBool flags ''quiet'' False = Inr True"
    by code_simp
  have live: "\<exists>venue\<in>set (sr_venues example_response). vx_state venue = kLive" by (simp add: example_response_def venue_status_def)
  obtain flags options where o: "client_options [''status'', ''--quiet''] [] = Inr (flags, options)" "GetBool flags ''quiet'' False = Inr True"
    using q by (auto split: sum.splits)
  moreover have "cl_stdout (status_main (\<lambda>_. False) 0 (\<lambda>_. Inl []) (\<lambda>_. Inr example_response) [''status'', ''--quiet'']) = [] \<and>
      cl_stderr (status_main (\<lambda>_. False) 0 (\<lambda>_. Inl []) (\<lambda>_. Inr example_response) [''status'', ''--quiet'']) = []"
    using o by (simp add: status_main_def Let_def)
  ultimately show ?thesis using status_main_health [of "\<lambda>_. False" 0 "\<lambda>_. Inl []" "\<lambda>_. Inr example_response"] live by blast
qed

text \<open>The interval is bounded before the conversion to 32 bits, so the conversion changes nothing.\<close>

lemma ParseClientOptions_interval:
  assumes "ParseClientOptions flags = Inr options"
  shows "GetIntIn flags ''min-interval-us'' 0 0 60000000 = Inr (co_min_interval_micros options) \<and>
     0 \<le> co_max_updates options \<and> co_max_updates options \<le> 1000000"
proof -
  have range: "a \<le> v \<and> v \<le> b" if "GetIntIn flags key fallback a b = Inr v" for key fallback a b v
    using that by (auto simp: GetIntIn_def split: sum.splits if_splits)
  from assms obtain micros max_updates where o: "GetIntIn flags ''min-interval-us'' 0 0 60000000 = Inr micros"
    "GetIntIn flags ''max-updates'' 0 0 1000000 = Inr max_updates"
    "co_min_interval_micros options = micros mod 2 ^ 32" "co_max_updates options = max_updates"
    by (auto simp: ParseClientOptions_def split: sum.splits)
  with range [OF o(1)] range [OF o(2)] show ?thesis by (simp add: mod_pos_pos_trivial)
qed

lemma client_options_limit: "client_options argv extra = Inr (flags, options) \<Longrightarrow> 0 \<le> co_max_updates options"
  using ParseClientOptions_interval by (auto simp: client_options_def split: sum.splits)

end
